(* ===== verification/Prelude.thy ===== *)
theory Prelude
  imports Main "HOL-Library.Word"
begin

text \<open>
  Shared foundations of the development: the error type of the crate, the result type that
  carries errors and panics, bounds of the machine integers, and generic list lemmas.

  Conventions used by every component theory:
  \<^item> \<open>u64\<close> and \<open>usize\<close> values (the target is 64-bit) are \<^typ>\<open>nat\<close>; where an operation of
    the source can leave the 64-bit range, or underflow, the model says \<open>Panic\<close> (the
    behaviour of overflow checks), so that a theorem that excludes \<open>Panic\<close> also shows that a
    build without overflow checks does not wrap;
  \<^item> bytes are \<^typ>\<open>8 word\<close>;
  \<^item> \<open>Result<T>\<close> is \<open>'a result\<close>: \<open>Inl (Err e)\<close> is a returned error, \<open>Inl Panic\<close> a panic
    (failed \<open>unwrap\<close>, \<open>assert!\<close>, \<open>unreachable!\<close>, index out of range, overflow) and \<open>Inr x\<close>
    a returned value;
  \<^item> instants and durations are natural numbers of nanoseconds.
\<close>

section \<open>Collections of rewrite rules\<close>

named_theorems codec_simps \<open>rewrite rules that run a parser over encoded bytes\<close>
named_theorems res_simps \<open>rewrite rules for the result type\<close>

section \<open>Roles and errors\<close>

text \<open>\<open>flexicast/mod.rs\<close>: states of a flexicast client and roles of a connection.\<close>

datatype mc_client_status =
    Leaving bool
  | DeclinedJoin
  | JoinedNoKey
  | AwareUnjoined
  | WaitingToJoin
  | JoinedAndKey
  | ListenMcPath bool
  | Unaware
  | Unspecified
  | Changing

datatype mc_role =
    ServerFlexicast
  | ServerUnicast mc_client_status
  | Client mc_client_status
  | Undefined

datatype fc_error =
    FcMcAnnounce
  | McServerInit
  | McInvalidSymKey
  | McInvalidRole mc_role
  | McDisabled
  | McInvalidAsymKey
  | McInvalidSign
  | McInvalidAction
  | McChannelHandshake
  | FcMcPath
  | McPipe
  | McInvalidClientId
  | McInvalidAuth
  | McNoAuthPacket
  | McInvalidCrypto
  | McReliableDisabled
  | FcStreamRotation
  | FcStreamOutOfOrder
  | FcChangeChan

text \<open>\<open>lib.rs\<close>: the error type of the crate.\<close>

datatype error =
    Done
  | BufferTooShort
  | UnknownVersion
  | InvalidFrame
  | InvalidPacket
  | InvalidState
  | InvalidStreamState nat
  | InvalidTransportParam
  | CryptoFail
  | TlsFail
  | FlowControlError
  | StreamLimit
  | StreamStopped nat
  | StreamReset nat
  | FinalSize
  | CongestionControlError
  | IdLimit
  | OutOfIdentifiers
  | KeyUpdate
  | CryptoBufferExceeded
  | UnavailablePath
  | PathIdViolation
  | OutOfPathId
  | NoMorePath
  | Flexicast fc_error

section \<open>Results\<close>

datatype fault = Err error | Panic

type_synonym 'a result = "fault + 'a"

abbreviation err :: "error \<Rightarrow> 'a result" where
  "err e \<equiv> Inl (Err e)"

abbreviation panic :: "'a result" where
  "panic \<equiv> Inl Panic"

text \<open>The \<open>?\<close> operator: stop at the first fault.\<close>

definition try_bind :: "'a result \<Rightarrow> ('a \<Rightarrow> 'b result) \<Rightarrow> 'b result" where
  "try_bind r f = (case r of Inl e \<Rightarrow> Inl e | Inr x \<Rightarrow> f x)"

lemma try_bind_Inr [simp, res_simps]: "try_bind (Inr x) f = f x"
  by (simp add: try_bind_def)

lemma try_bind_Inl [simp, res_simps]: "try_bind (Inl e) f = Inl e"
  by (simp add: try_bind_def)

lemma try_bind_eq_Inr [simp]:
  "try_bind r f = Inr y \<longleftrightarrow> (\<exists>x. r = Inr x \<and> f x = Inr y)"
  by (cases r) auto

lemma try_bind_assoc: "try_bind (try_bind r f) g = try_bind r (\<lambda>x. try_bind (f x) g)"
  by (cases r) auto

lemma try_bind_cong [fundef_cong]:
  "r = r' \<Longrightarrow> (\<And>x. r' = Inr x \<Longrightarrow> f x = g x) \<Longrightarrow> try_bind r f = try_bind r' g"
  by (cases r') auto

text \<open>A loop over a list that carries a state and stops at the first fault.\<close>

primrec fold_res :: "('a \<Rightarrow> 's \<Rightarrow> 's result) \<Rightarrow> 'a list \<Rightarrow> 's \<Rightarrow> 's result" where
  "fold_res f [] s = Inr s"
| "fold_res f (x # xs) s = try_bind (f x s) (fold_res f xs)"

lemma fold_res_append:
  "fold_res f (xs @ ys) s = try_bind (fold_res f xs s) (fold_res f ys)"
proof (induction xs arbitrary: s)
  case (Cons x xs)
  have "fold_res f (xs @ ys) = (\<lambda>s. try_bind (fold_res f xs s) (fold_res f ys))"
    by (rule ext) (rule Cons.IH)
  then show ?case by (simp add: try_bind_assoc)
qed simp

lemma fold_res_invariant:
  assumes step: "\<And>x s. x \<in> set xs \<Longrightarrow> I s \<Longrightarrow> \<exists>s'. f x s = Inr s' \<and> I s'"
    and init: "I s"
  shows "\<exists>s'. fold_res f xs s = Inr s' \<and> I s'"
  using step init
proof (induction xs arbitrary: s)
  case Nil
  then show ?case by simp
next
  case (Cons x xs)
  then obtain s1 where "f x s = Inr s1" "I s1" by force
  with Cons.IH [of s1] Cons.prems show ?case by auto
qed

section \<open>State with errors\<close>

text \<open>An operation that returns its state also when it fails.\<close>

definition st_bind :: "'s \<times> 'a result \<Rightarrow> ('s \<Rightarrow> 'a \<Rightarrow> 's \<times> 'b result) \<Rightarrow> 's \<times> 'b result" where
  "st_bind r f = (case r of (s, Inl e) \<Rightarrow> (s, Inl e) | (s, Inr x) \<Rightarrow> f s x)"

lemma st_bind_simps [simp]:
  "st_bind (s, Inl e) f = (s, Inl e)" "st_bind (s, Inr x) f = f s x"
  by (simp_all add: st_bind_def)

text \<open>An operation that leaves the state alone when it fails.\<close>

definition st_try :: "'s \<Rightarrow> 's result \<Rightarrow> 's \<times> unit result" where
  "st_try s r = (case r of Inl e \<Rightarrow> (s, Inl e) | Inr s' \<Rightarrow> (s', Inr ()))"

lemma st_try_simps [simp]: "st_try s (Inl e) = (s, Inl e)" "st_try s (Inr s') = (s', Inr ())"
  by (simp_all add: st_try_def)

section \<open>Machine integers\<close>

abbreviation u64_size :: nat where "u64_size \<equiv> 18446744073709551616"
abbreviation usize_max :: nat where "usize_max \<equiv> 18446744073709551615"
abbreviation varint_limit :: nat where "varint_limit \<equiv> 4611686018427387904"

text \<open>Addition and subtraction with overflow checks.\<close>

definition checked_add :: "nat \<Rightarrow> nat \<Rightarrow> nat result" where
  "checked_add a b = (if a + b < u64_size then Inr (a + b) else panic)"

definition checked_sub :: "nat \<Rightarrow> nat \<Rightarrow> nat result" where
  "checked_sub a b = (if b \<le> a then Inr (a - b) else panic)"

lemma checked_add_Inr [simp]: "a + b < u64_size \<Longrightarrow> checked_add a b = Inr (a + b)"
  by (simp add: checked_add_def)

lemma checked_sub_Inr [simp]: "b \<le> a \<Longrightarrow> checked_sub a b = Inr (a - b)"
  by (simp add: checked_sub_def)

lemma checked_add_eq_Inr: "checked_add a b = Inr c \<longleftrightarrow> c = a + b \<and> a + b < u64_size"
  by (auto simp: checked_add_def)

lemma checked_sub_eq_Inr: "checked_sub a b = Inr c \<longleftrightarrow> c = a - b \<and> b \<le> a"
  by (auto simp: checked_sub_def)

section \<open>Lists\<close>

lemma take_drop_split: "i \<le> j \<Longrightarrow> take i xs @ take (j - i) (drop i xs) = take j xs"
  by (metis le_add_diff_inverse take_add)

end
