(* ===== verification/Ordered_Map.thy ===== *)
theory Ordered_Map
  imports Prelude
begin

text \<open>
  The part of \<open>std::collections::BTreeMap\<close> that the crate uses, as association lists in
  strictly ascending key order. The locale \<open>ordered_map\<close> is the interface the clients rely
  on (the received-chunk maps, the acknowledgment counters, the time window); it is
  interpreted here on the list operations.
\<close>

type_synonym ('k, 'v) btree_map = "('k \<times> 'v) list"

section \<open>Operations\<close>

definition bt_wf :: "('k::linorder, 'v) btree_map \<Rightarrow> bool" where
  "bt_wf m \<longleftrightarrow> sorted_wrt (<) (map fst m)"

fun bt_get :: "('k::linorder, 'v) btree_map \<Rightarrow> 'k \<Rightarrow> 'v option" where
  "bt_get [] k = None"
| "bt_get ((a, b) # m) k = (if k = a then Some b else bt_get m k)"

fun bt_insert :: "'k::linorder \<Rightarrow> 'v \<Rightarrow> ('k, 'v) btree_map \<Rightarrow> ('k, 'v) btree_map" where
  "bt_insert k v [] = [(k, v)]"
| "bt_insert k v ((a, b) # m) =
     (if k < a then (k, v) # (a, b) # m
      else if k = a then (k, v) # m
      else (a, b) # bt_insert k v m)"

fun bt_remove :: "'k::linorder \<Rightarrow> ('k, 'v) btree_map \<Rightarrow> ('k, 'v) btree_map" where
  "bt_remove k [] = []"
| "bt_remove k ((a, b) # m) = (if k = a then m else (a, b) # bt_remove k m)"

definition bt_contains :: "('k::linorder, 'v) btree_map \<Rightarrow> 'k \<Rightarrow> bool" where
  "bt_contains m k = (bt_get m k \<noteq> None)"

text \<open>\<open>range(..=k)\<close>, \<open>range(..k)\<close> and \<open>range(k..)\<close>.\<close>

definition bt_upto :: "'k::linorder \<Rightarrow> ('k, 'v) btree_map \<Rightarrow> ('k, 'v) btree_map" where
  "bt_upto k m = filter (\<lambda>p. fst p \<le> k) m"

definition bt_below :: "'k::linorder \<Rightarrow> ('k, 'v) btree_map \<Rightarrow> ('k, 'v) btree_map" where
  "bt_below k m = filter (\<lambda>p. fst p < k) m"

definition bt_from :: "'k::linorder \<Rightarrow> ('k, 'v) btree_map \<Rightarrow> ('k, 'v) btree_map" where
  "bt_from k m = filter (\<lambda>p. k \<le> fst p) m"

definition bt_first :: "('k, 'v) btree_map \<Rightarrow> ('k \<times> 'v) option" where
  "bt_first m = (case m of [] \<Rightarrow> None | p # _ \<Rightarrow> Some p)"

definition bt_last :: "('k, 'v) btree_map \<Rightarrow> ('k \<times> 'v) option" where
  "bt_last m = (if m = [] then None else Some (last m))"

section \<open>Sortedness\<close>

lemma bt_wf_Nil [simp]: "bt_wf []"
  by (simp add: bt_wf_def)

lemma bt_wf_Cons: "bt_wf ((a, b) # m) \<longleftrightarrow> (\<forall>k \<in> fst ` set m. a < k) \<and> bt_wf m"
  by (auto simp: bt_wf_def)

lemma bt_wf_ConsD: "bt_wf (p # m) \<Longrightarrow> bt_wf m"
  by (cases p) (simp add: bt_wf_Cons)

lemma set_bt_insert: "bt_wf m \<Longrightarrow> set (bt_insert k v m) = insert (k, v) {p \<in> set m. fst p \<noteq> k}"
  by (induction k v m rule: bt_insert.induct) (auto simp: bt_wf_Cons)

lemma set_bt_remove: "bt_wf m \<Longrightarrow> set (bt_remove k m) = {p \<in> set m. fst p \<noteq> k}"
  by (induction k m rule: bt_remove.induct) (auto simp: bt_wf_Cons)

lemma bt_wf_insert: "bt_wf m \<Longrightarrow> bt_wf (bt_insert k v m)"
proof (induction k v m rule: bt_insert.induct)
  case (2 k v a b m)
  then show ?case by (force simp: bt_wf_Cons set_bt_insert)
qed (simp add: bt_wf_Cons)

lemma bt_wf_remove: "bt_wf m \<Longrightarrow> bt_wf (bt_remove k m)"
  by (induction k m rule: bt_remove.induct) (auto simp: bt_wf_Cons set_bt_remove)

lemma bt_wf_filter: "bt_wf m \<Longrightarrow> bt_wf (filter P m)"
proof (induction m)
  case (Cons p m)
  then show ?case by (cases p) (auto simp: bt_wf_Cons)
qed simp

lemma bt_get_Some_iff: "bt_wf m \<Longrightarrow> bt_get m k = Some v \<longleftrightarrow> (k, v) \<in> set m"
  by (induction m k rule: bt_get.induct) (force simp: bt_wf_Cons)+

lemma bt_get_None_iff: "bt_get m k = None \<longleftrightarrow> k \<notin> fst ` set m"
  by (induction m k rule: bt_get.induct) auto

lemma bt_get_insert: "bt_get (bt_insert k v m) k' = (if k' = k then Some v else bt_get m k')"
  by (induction k v m rule: bt_insert.induct) auto

lemma bt_get_remove:
  "bt_wf m \<Longrightarrow> bt_get (bt_remove k m) k' = (if k' = k then None else bt_get m k')"
proof (induction k m rule: bt_remove.induct)
  case (2 k a b m)
  then have "a \<notin> fst ` set m" "bt_wf m" by (auto simp: bt_wf_Cons)
  with 2 show ?case using bt_get_None_iff [of m a] by auto
qed simp

lemma length_bt_insert_le: "length (bt_insert k v m) \<le> Suc (length m)"
  by (induction k v m rule: bt_insert.induct) auto

lemma length_bt_remove: "bt_contains m k \<Longrightarrow> Suc (length (bt_remove k m)) = length m"
  by (induction k m rule: bt_remove.induct) (auto simp: bt_contains_def split: if_splits)

text \<open>Operations that touch only one end of a concatenation.\<close>

lemma bt_insert_append: "\<forall>p \<in> set xs. fst p < k \<Longrightarrow> bt_insert k v (xs @ ys) = xs @ bt_insert k v ys"
  by (induction xs) auto

lemma bt_insert_front: "\<forall>p \<in> set ys. k < fst p \<Longrightarrow> bt_insert k v ys = (k, v) # ys"
  by (cases ys) auto

lemma bt_remove_append: "\<forall>p \<in> set xs. fst p \<noteq> k \<Longrightarrow> bt_remove k (xs @ ys) = xs @ bt_remove k ys"
  by (induction xs) auto

lemma bt_remove_absent: "\<forall>p \<in> set xs. fst p \<noteq> k \<Longrightarrow> bt_remove k xs = xs"
  using bt_remove_append [of xs k "[]"] by simp

lemma bt_get_append: "\<forall>p \<in> set xs. fst p \<noteq> k \<Longrightarrow> bt_get (xs @ ys) k = bt_get ys k"
  by (induction xs) auto

lemma bt_get_mem: "bt_wf m \<Longrightarrow> p \<in> set m \<Longrightarrow> bt_get m (fst p) = Some (snd p)"
  by (simp add: bt_get_Some_iff)

lemma bt_eqI: "bt_wf m \<Longrightarrow> bt_wf m' \<Longrightarrow> set m = set m' \<Longrightarrow> m = m'"
proof -
  assume wf: "bt_wf m" "bt_wf m'" and eq: "set m = set m'"
  have inj: "inj_on fst (set m)"
  proof (rule inj_onI)
    fix x y assume "x \<in> set m" "y \<in> set m" "fst x = fst y"
    moreover have "bt_get m (fst x) = Some (snd x)"
      using wf(1) \<open>x \<in> set m\<close> by (simp add: bt_get_Some_iff)
    moreover have "bt_get m (fst y) = Some (snd y)"
      using wf(1) \<open>y \<in> set m\<close> by (simp add: bt_get_Some_iff)
    ultimately show "x = y" by (metis option.inject prod_eq_iff)
  qed
  have "map fst m = map fst m'"
    using wf eq strict_sorted_equal [of "map fst m" "map fst m'"]
    by (simp add: bt_wf_def strict_sorted_iff)
  then show "m = m'"
    using inj eq by (simp add: inj_on_map_eq_map)
qed

section \<open>The interface\<close>

locale ordered_map =
  fixes empty :: "'m"
    and get :: "'m \<Rightarrow> 'k::linorder \<Rightarrow> 'v option"
    and ins :: "'k \<Rightarrow> 'v \<Rightarrow> 'm \<Rightarrow> 'm"
    and rem :: "'k \<Rightarrow> 'm \<Rightarrow> 'm"
    and entries :: "'m \<Rightarrow> ('k \<times> 'v) list"
    and wf :: "'m \<Rightarrow> bool"
  assumes get_empty: "get empty k = None"
    and get_ins: "wf m \<Longrightarrow> get (ins k v m) k' = (if k' = k then Some v else get m k')"
    and get_rem: "wf m \<Longrightarrow> get (rem k m) k' = (if k' = k then None else get m k')"
    and get_entries: "wf m \<Longrightarrow> get m k = Some v \<longleftrightarrow> (k, v) \<in> set (entries m)"
    and wf_empty: "wf empty"
    and wf_ins: "wf m \<Longrightarrow> wf (ins k v m)"
    and wf_rem: "wf m \<Longrightarrow> wf (rem k m)"
    and entries_inj: "wf m \<Longrightarrow> wf m' \<Longrightarrow> set (entries m) = set (entries m') \<Longrightarrow> m = m'"
begin

lemma map_ext:
  assumes "wf m" "wf m'" "\<And>k. get m k = get m' k"
  shows "m = m'"
proof (rule entries_inj [OF assms(1,2)])
  show "set (entries m) = set (entries m')"
    using assms by (metis get_entries subrelI subset_antisym)
qed

lemma ins_commute:
  assumes "wf m" "k \<noteq> k'"
  shows "ins k v (ins k' v' m) = ins k' v' (ins k v m)"
  by (rule map_ext) (use assms in \<open>auto simp: get_ins wf_ins\<close>)

lemma rem_ins:
  assumes "wf m" "get m k = None"
  shows "rem k (ins k v m) = m"
  by (rule map_ext) (use assms in \<open>auto simp: get_ins get_rem wf_ins wf_rem\<close>)

lemma ins_overwrite:
  assumes "wf m"
  shows "ins k v (ins k v' m) = ins k v m"
  by (rule map_ext) (use assms in \<open>auto simp: get_ins wf_ins\<close>)

end

interpretation bt: ordered_map "[]" bt_get bt_insert bt_remove "\<lambda>m. m" bt_wf
  by unfold_locales
    (auto simp: bt_get_insert bt_get_remove bt_get_Some_iff bt_wf_insert bt_wf_remove
      intro: bt_eqI)

end
