(* ===== verification/Octets.thy ===== *)
theory Octets
  imports Prelude
begin

unbundle bit_operations_syntax

text \<open>
  The byte buffer of \<open>octets/src/lib.rs\<close>. \<open>Octets\<close> and \<open>OctetsMut\<close> have the same two
  fields, a slice and an offset, so one record models both; a write returns the buffer with
  the bytes replaced. Every error of the crate is \<open>BufferTooShortError\<close>, which \<open>lib.rs\<close>
  converts to \<open>Error::BufferTooShort\<close>.

  The lemmas show that the invariant \<open>off \<le> len\<close> (which makes the slice indexing of the source
  in range) is kept, that reads return what writes put, and the round trip of the
  variable-length integers.
\<close>

section \<open>The buffer\<close>

type_synonym byte = "8 word"

record octets =
  buf :: "byte list"
  off :: nat

definition octets_wf :: "octets \<Rightarrow> bool" where
  "octets_wf b \<longleftrightarrow> off b \<le> length (buf b)"

definition with_slice :: "byte list \<Rightarrow> octets" where
  "with_slice bs = \<lparr>buf = bs, off = 0\<rparr>"

definition cap :: "octets \<Rightarrow> nat" where
  "cap b = length (buf b) - off b"

definition as_ref :: "octets \<Rightarrow> byte list" where
  "as_ref b = drop (off b) (buf b)"

section \<open>Fixed-width integers\<close>

text \<open>\<open>from_be\<close> and \<open>to_be\<close>: the value of a big-endian byte string, and the low \<open>n\<close> bytes of
  a value in network order.\<close>

definition be_val :: "byte list \<Rightarrow> nat" where
  "be_val bs = foldl (\<lambda>a b. a * 256 + unat b) 0 bs"

primrec be_bytes :: "nat \<Rightarrow> nat \<Rightarrow> byte list" where
  "be_bytes 0 v = []"
| "be_bytes (Suc n) v = word_of_nat (v div 256 ^ n) # be_bytes n v"

definition peek_u :: "nat \<Rightarrow> octets \<Rightarrow> nat result" where
  "peek_u len b =
     (let src = drop (off b) (buf b)
      in if length src < len then err BufferTooShort else Inr (be_val (take len src)))"

definition get_u :: "nat \<Rightarrow> octets \<Rightarrow> (nat \<times> octets) result" where
  "get_u len b = try_bind (peek_u len b) (\<lambda>out. Inr (out, b\<lparr>off := off b + len\<rparr>))"

definition put_u :: "nat \<Rightarrow> nat \<Rightarrow> octets \<Rightarrow> octets result" where
  "put_u len v b =
     (if length (buf b) < off b + len then err BufferTooShort
      else Inr (b\<lparr>buf := take (off b) (buf b) @ be_bytes len v @ drop (off b + len) (buf b),
                  off := off b + len\<rparr>))"

definition get_u8 :: "octets \<Rightarrow> (nat \<times> octets) result" where "get_u8 = get_u 1"
definition peek_u8 :: "octets \<Rightarrow> nat result" where "peek_u8 = peek_u 1"
definition get_u16 :: "octets \<Rightarrow> (nat \<times> octets) result" where "get_u16 = get_u 2"
definition get_u24 :: "octets \<Rightarrow> (nat \<times> octets) result" where "get_u24 = get_u 3"
definition get_u32 :: "octets \<Rightarrow> (nat \<times> octets) result" where "get_u32 = get_u 4"
definition get_u64 :: "octets \<Rightarrow> (nat \<times> octets) result" where "get_u64 = get_u 8"

definition put_u8 :: "nat \<Rightarrow> octets \<Rightarrow> octets result" where "put_u8 = put_u 1"
definition put_u16 :: "nat \<Rightarrow> octets \<Rightarrow> octets result" where "put_u16 = put_u 2"
definition put_u24 :: "nat \<Rightarrow> octets \<Rightarrow> octets result" where "put_u24 = put_u 3"
definition put_u32 :: "nat \<Rightarrow> octets \<Rightarrow> octets result" where "put_u32 = put_u 4"
definition put_u64 :: "nat \<Rightarrow> octets \<Rightarrow> octets result" where "put_u64 = put_u 8"

section \<open>Variable-length integers\<close>

definition varint_len :: "nat \<Rightarrow> nat result" where
  "varint_len v =
     (if v \<le> 63 then Inr 1
      else if v \<le> 16383 then Inr 2
      else if v \<le> 1073741823 then Inr 4
      else if v \<le> 4611686018427387903 then Inr 8
      else panic)"

definition varint_parse_len :: "byte \<Rightarrow> nat result" where
  "varint_parse_len first =
     (let k = drop_bit 6 first
      in if k = 0 then Inr 1 else if k = 1 then Inr 2 else if k = 2 then Inr 4
         else if k = 3 then Inr 8 else panic)"

definition get_varint :: "octets \<Rightarrow> (nat \<times> octets) result" where
  "get_varint b =
     try_bind (peek_u8 b) (\<lambda>first.
     try_bind (varint_parse_len (word_of_nat first)) (\<lambda>len.
       if len > cap b then err BufferTooShort
       else if len = 1 then get_u8 b
       else if len = 2 then try_bind (get_u16 b) (\<lambda>(v, b). Inr (v AND 0x3fff, b))
       else if len = 4 then try_bind (get_u32 b) (\<lambda>(v, b). Inr (v AND 0x3fffffff, b))
       else if len = 8 then
         try_bind (get_u64 b) (\<lambda>(v, b). Inr (v AND 0x3fffffffffffffff, b))
       else panic))"

text \<open>\<open>buf[0] |= tag\<close> on the slice that a \<open>put\<close> at offset \<open>at\<close> returned.\<close>

definition or_first :: "nat \<Rightarrow> byte \<Rightarrow> octets \<Rightarrow> octets" where
  "or_first at tag b = b\<lparr>buf := (buf b)[at := (buf b ! at) OR tag]\<rparr>"

definition put_varint_with_len :: "nat \<Rightarrow> nat \<Rightarrow> octets \<Rightarrow> octets result" where
  "put_varint_with_len v len b =
     (if cap b < len then err BufferTooShort
      else if len = 1 then put_u8 v b
      else if len = 2 then try_bind (put_u16 v b) (\<lambda>b'. Inr (or_first (off b) 0x40 b'))
      else if len = 4 then try_bind (put_u32 v b) (\<lambda>b'. Inr (or_first (off b) 0x80 b'))
      else if len = 8 then try_bind (put_u64 v b) (\<lambda>b'. Inr (or_first (off b) 0xc0 b'))
      else panic)"

definition put_varint :: "nat \<Rightarrow> octets \<Rightarrow> octets result" where
  "put_varint v b = try_bind (varint_len v) (\<lambda>len. put_varint_with_len v len b)"

section \<open>Byte strings\<close>

definition get_bytes :: "nat \<Rightarrow> octets \<Rightarrow> (byte list \<times> octets) result" where
  "get_bytes len b =
     (if cap b < len then err BufferTooShort
      else Inr (take len (drop (off b) (buf b)), b\<lparr>off := off b + len\<rparr>))"

definition get_bytes_with_u8_length :: "octets \<Rightarrow> (byte list \<times> octets) result" where
  "get_bytes_with_u8_length b = try_bind (get_u8 b) (\<lambda>(len, b). get_bytes len b)"

definition get_bytes_with_u16_length :: "octets \<Rightarrow> (byte list \<times> octets) result" where
  "get_bytes_with_u16_length b = try_bind (get_u16 b) (\<lambda>(len, b). get_bytes len b)"

definition get_bytes_with_varint_length :: "octets \<Rightarrow> (byte list \<times> octets) result" where
  "get_bytes_with_varint_length b = try_bind (get_varint b) (\<lambda>(len, b). get_bytes len b)"

definition peek_bytes :: "nat \<Rightarrow> octets \<Rightarrow> byte list result" where
  "peek_bytes len b =
     (if cap b < len then err BufferTooShort
      else Inr (take len (drop (off b) (buf b))))"

definition octets_slice :: "nat \<Rightarrow> octets \<Rightarrow> byte list result" where
  "octets_slice len b =
     (if len > cap b then err BufferTooShort
      else Inr (take len (drop (off b) (buf b))))"

definition slice_last :: "nat \<Rightarrow> octets \<Rightarrow> byte list result" where
  "slice_last len b =
     (if len > cap b then err BufferTooShort
      else Inr (drop (cap b - len) (buf b)))"

definition octets_skip :: "nat \<Rightarrow> octets \<Rightarrow> octets result" where
  "octets_skip n b = (if n > cap b then err BufferTooShort else Inr (b\<lparr>off := off b + n\<rparr>))"

definition put_bytes :: "byte list \<Rightarrow> octets \<Rightarrow> octets result" where
  "put_bytes v b =
     (if cap b < length v then err BufferTooShort
      else if length v = 0 then Inr b
      else Inr (b\<lparr>buf := take (off b) (buf b) @ v @ drop (off b + length v) (buf b),
                  off := off b + length v\<rparr>))"

definition split_at :: "nat \<Rightarrow> octets \<Rightarrow> (octets \<times> octets) result" where
  "split_at at b =
     (if length (buf b) < at then err BufferTooShort
      else Inr (\<lparr>buf = take at (buf b), off = 0\<rparr>, \<lparr>buf = drop at (buf b), off = 0\<rparr>))"

section \<open>Reading positions\<close>

definition adv :: "nat \<Rightarrow> octets \<Rightarrow> octets" where
  "adv n b = b\<lparr>off := off b + n\<rparr>"

lemma adv_0 [simp]: "adv 0 b = b"
  by (simp add: adv_def)

lemma adv_adv: "adv m (adv n b) = adv (n + m) b"
  by (simp add: adv_def add.assoc)

lemma buf_adv [simp]: "buf (adv n b) = buf b"
  by (simp add: adv_def)

lemma off_adv [simp]: "off (adv n b) = off b + n"
  by (simp add: adv_def)

lemma as_ref_adv [simp]: "as_ref (adv n b) = drop n (as_ref b)"
  by (simp add: as_ref_def add.commute)

lemma cap_as_ref: "cap b = length (as_ref b)"
  by (simp add: cap_def as_ref_def)

lemma as_ref_with_slice [simp]: "as_ref (with_slice bs) = bs"
  by (simp add: as_ref_def with_slice_def)

lemma octets_wf_with_slice: "octets_wf (with_slice bs)"
  by (simp add: octets_wf_def with_slice_def)

lemma octets_wf_adv: "octets_wf b \<Longrightarrow> n \<le> cap b \<Longrightarrow> octets_wf (adv n b)"
  by (simp add: octets_wf_def cap_def)

lemma peek_u_eq:
  "peek_u n b = (if length (as_ref b) < n then err BufferTooShort
                 else Inr (be_val (take n (as_ref b))))"
  by (simp add: peek_u_def as_ref_def)

lemma get_u_eq [codec_simps]:
  "get_u n b = (if length (as_ref b) < n then err BufferTooShort
                else Inr (be_val (take n (as_ref b)), adv n b))"
  by (simp add: get_u_def peek_u_eq adv_def)

lemma get_bytes_eq [codec_simps]:
  "get_bytes n b = (if length (as_ref b) < n then err BufferTooShort
                    else Inr (take n (as_ref b), adv n b))"
  by (simp add: get_bytes_def cap_as_ref adv_def as_ref_def)

section \<open>Big-endian values\<close>

lemma length_be_bytes [simp]: "length (be_bytes n v) = n"
  by (induction n) auto

lemma be_bytes_numerals:
  "be_bytes 1 v = [word_of_nat v]"
  "be_bytes 2 v = [word_of_nat (v div 256), word_of_nat v]"
  "be_bytes 3 v = [word_of_nat (v div 65536), word_of_nat (v div 256), word_of_nat v]"
  "be_bytes 4 v = [word_of_nat (v div 16777216), word_of_nat (v div 65536), word_of_nat (v div 256),
     word_of_nat v]"
proof -
  have four: "(4 :: nat) = Suc (Suc (Suc (Suc 0)))" by simp
  show "be_bytes 1 v = [word_of_nat v]"
    "be_bytes 2 v = [word_of_nat (v div 256), word_of_nat v]"
    "be_bytes 3 v = [word_of_nat (v div 65536), word_of_nat (v div 256), word_of_nat v]"
    "be_bytes 4 v = [word_of_nat (v div 16777216), word_of_nat (v div 65536), word_of_nat (v div 256),
       word_of_nat v]"
    unfolding numeral_2_eq_2 numeral_3_eq_3 four by simp_all
qed

lemma be_val_acc:
  "foldl (\<lambda>a b. a * 256 + unat (b :: byte)) a bs = a * 256 ^ length bs + be_val bs"
proof (induction bs arbitrary: a)
  case Nil
  then show ?case by (simp add: be_val_def)
next
  case (Cons b bs)
  from Cons.IH [of "a * 256 + unat b"] Cons.IH [of "unat b"]
  show ?case by (simp add: be_val_def algebra_simps)
qed

lemma be_val_Nil [simp]: "be_val [] = 0"
  by (simp add: be_val_def)

lemma be_val_Cons: "be_val (b # bs) = unat b * 256 ^ length bs + be_val bs"
  using be_val_acc [of "unat b" bs] by (simp add: be_val_def)

lemma unat_byte_less [simp]: "unat (x :: byte) < 256"
  using unsigned_less [of x] by simp

lemma be_val_less: "be_val bs < 256 ^ length bs"
proof (induction bs)
  case (Cons b bs)
  have "(unat b + 1) * 256 ^ length bs \<le> 256 * 256 ^ length bs"
    using unat_byte_less [of b] by (intro mult_le_mono1) linarith
  then have "unat b * 256 ^ length bs + be_val bs < 256 * 256 ^ length bs"
    using Cons.IH by (simp only: add_mult_distrib)
  then show ?case by (simp add: be_val_Cons)
qed simp

lemma be_val_be_bytes_mod: "be_val (be_bytes n v) = v mod 256 ^ n"
proof (induction n)
  case (Suc n)
  have "unat (word_of_nat (v div 256 ^ n) :: byte) = v div 256 ^ n mod 256"
    by (simp add: unat_of_nat)
  moreover have "v mod 256 ^ Suc n = 256 ^ n * (v div 256 ^ n mod 256) + v mod 256 ^ n"
    by (metis mod_mult2_eq mult.commute power_Suc)
  ultimately show ?case using Suc by (simp add: be_val_Cons)
qed simp

lemma be_val_be_bytes [simp]: "v < 256 ^ n \<Longrightarrow> be_val (be_bytes n v) = v"
  by (simp add: be_val_be_bytes_mod)

section \<open>Writing\<close>

text \<open>Every write of the source is an overwrite of the next bytes, which is \<open>put_bytes\<close>.\<close>

lemma put_bytes_Nil [simp]: "put_bytes [] b = Inr b"
  by (simp add: put_bytes_def)

lemma put_bytes_append:
  "try_bind (put_bytes xs b) (put_bytes ys) = put_bytes (xs @ ys) b"
proof (cases "xs = [] \<or> ys = []")
  case True
  then show ?thesis by (cases "put_bytes xs b") auto
next
  case False
  show ?thesis
  proof (cases "length (xs @ ys) \<le> cap b")
    case True
    then have "off b + length xs + length ys \<le> length (buf b)"
      using False by (cases "off b \<le> length (buf b)") (auto simp: cap_def)
    with False True show ?thesis
      by (cases "ys") (auto simp: put_bytes_def cap_def min_def add_ac)
  next
    case False
    then show ?thesis by (auto simp: put_bytes_def cap_def)
  qed
qed

lemma put_u_eq: "0 < n \<Longrightarrow> put_u n v b = put_bytes (be_bytes n v) b"
  by (auto simp: put_u_def put_bytes_def cap_def)

lemma put_bytes_eq_Inr:
  "octets_wf b \<Longrightarrow> put_bytes bs b = Inr b' \<Longrightarrow>
     length bs \<le> cap b \<and> off b' = off b + length bs \<and> length (buf b') = length (buf b) \<and>
     take (off b) (buf b') = take (off b) (buf b)"
  by (auto simp: put_bytes_def cap_def octets_wf_def split: if_splits)

section \<open>Variable-length integers on the wire\<close>

text \<open>The bytes that \<open>put_varint_with_len\<close> writes: the value in network order, with the length
  tag in the two high bits of the first byte.\<close>

definition varint_tag :: "nat \<Rightarrow> byte" where
  "varint_tag len = (if len = 2 then 0x40 else if len = 4 then 0x80 else if len = 8 then 0xc0 else 0)"

definition varint_enc :: "nat \<Rightarrow> nat \<Rightarrow> byte list" where
  "varint_enc len v = (hd (be_bytes len v) OR varint_tag len) # tl (be_bytes len v)"

definition varint_size :: "nat \<Rightarrow> nat" where
  "varint_size v = (if v \<le> 63 then 1 else if v \<le> 16383 then 2 else if v \<le> 1073741823 then 4 else 8)"

definition varint_bytes :: "nat \<Rightarrow> byte list" where
  "varint_bytes v = varint_enc (varint_size v) v"

lemma varint_len_eq: "v < varint_limit \<Longrightarrow> varint_len v = Inr (varint_size v)"
  by (simp add: varint_len_def varint_size_def)

lemma varint_size_cases: "varint_size v \<in> {1, 2, 4, 8}"
  by (simp add: varint_size_def)

lemma varint_size_fits: "v < varint_limit \<Longrightarrow> v < 2 ^ (8 * varint_size v - 2)"
  by (simp add: varint_size_def)

lemma length_varint_enc [simp]: "0 < len \<Longrightarrow> length (varint_enc len v) = len"
  by (simp add: varint_enc_def)

lemma length_varint_bytes [simp]: "length (varint_bytes v) = varint_size v"
  by (simp add: varint_bytes_def varint_size_def)

lemma put_varint_with_len_eq:
  assumes "len \<in> {1, 2, 4, 8}"
  shows "put_varint_with_len v len b = put_bytes (varint_enc len v) b"
proof (cases "cap b < len")
  case True
  then show ?thesis using assms
    by (auto simp: put_varint_with_len_def put_bytes_def)
next
  case False
  then have wf: "off b + len \<le> length (buf b)" and pos: "0 < len"
    using assms by (auto simp: cap_def)
  obtain x xs where x: "be_bytes len v = x # xs"
    using pos length_be_bytes [of len v] by (cases "be_bytes len v") auto
  then have "length xs = len - 1"
    using length_be_bytes [of len v] by simp
  with x wf pos have "put_bytes (varint_enc len v) b =
      Inr (or_first (off b) (varint_tag len) (b\<lparr>buf := take (off b) (buf b) @ be_bytes len v @
          drop (off b + len) (buf b), off := off b + len\<rparr>))"
    by (auto simp: put_bytes_def cap_def or_first_def varint_enc_def nth_append list_update_append)
  moreover have "put_u len v b = Inr (b\<lparr>buf := take (off b) (buf b) @ be_bytes len v @
          drop (off b + len) (buf b), off := off b + len\<rparr>)"
    using wf by (simp add: put_u_def)
  moreover have "or_first at 0 c = c" for at c
    by (simp add: or_first_def)
  ultimately show ?thesis using assms False
    by (auto simp: put_varint_with_len_def put_u8_def put_u16_def put_u32_def put_u64_def
        varint_tag_def)
qed

lemma put_varint_eq: "v < varint_limit \<Longrightarrow> put_varint v b = put_bytes (varint_bytes v) b"
  using varint_size_cases [of v]
  by (simp add: put_varint_def varint_len_eq varint_bytes_def put_varint_with_len_eq)

text \<open>Reading a varint off a list of bytes: the value and the number of bytes it took.\<close>

definition dec_varint :: "byte list \<Rightarrow> (nat \<times> nat) option" where
  "dec_varint bs = (case bs of [] \<Rightarrow> None | x # _ \<Rightarrow>
     (let n = 2 ^ unat (drop_bit 6 x)
      in if length bs < n then None else Some (be_val (take n bs) mod 2 ^ (8 * n - 2), n)))"

lemma drop_bit_6_byte: "unat (drop_bit 6 (x :: byte)) = unat x div 64"
  by (simp add: drop_bit_eq_div unat_div_distrib)

lemma and_low_mask:
  "(v :: nat) AND 0x3fff = v mod 2 ^ 14"
  "(v :: nat) AND 0x3fffffff = v mod 2 ^ 30"
  "(v :: nat) AND 0x3fffffffffffffff = v mod 2 ^ 62"
  using take_bit_eq_mask [of 14 v] take_bit_eq_mask [of 30 v] take_bit_eq_mask [of 62 v]
  by (simp_all add: take_bit_eq_mod mask_eq_exp_minus_1)

lemma byte_less_4: "unat (k :: byte) < 4 \<Longrightarrow> k = 0 \<or> k = 1 \<or> k = 2 \<or> k = 3"
  by unat_arith

lemma drop_bit_6_less_4: "unat (drop_bit 6 (x :: byte)) < 4"
  using unat_byte_less [of x] by (simp add: drop_bit_6_byte del: unat_byte_less)

lemma varint_parse_len_eq: "varint_parse_len x = Inr (2 ^ unat (drop_bit 6 x))"
  using byte_less_4 [OF drop_bit_6_less_4 [of x]] by (auto simp: varint_parse_len_def Let_def)

lemma get_varint_eq [codec_simps]:
  "get_varint b = (case dec_varint (as_ref b) of None \<Rightarrow> err BufferTooShort
                   | Some (v, n) \<Rightarrow> Inr (v, adv n b))"
proof (cases "as_ref b")
  case Nil
  then show ?thesis by (simp add: get_varint_def peek_u8_def peek_u_eq dec_varint_def)
next
  case (Cons x xs)
  define k where "k = drop_bit 6 x"
  have k: "k = 0 \<or> k = 1 \<or> k = 2 \<or> k = 3"
    unfolding k_def by (rule byte_less_4 [OF drop_bit_6_less_4])
  have small: "k = 0 \<Longrightarrow> unat x < 64"
    using drop_bit_6_byte [of x] unfolding k_def by (simp add: div_eq_0_iff)
  have "peek_u8 b = Inr (unat x)"
    using Cons by (simp add: peek_u8_def peek_u_eq be_val_Cons)
  then have "get_varint b =
      (if 2 ^ unat k > length (as_ref b) then err BufferTooShort
       else if k = 0 then get_u 1 b
       else if k = 1 then try_bind (get_u 2 b) (\<lambda>(v, b). Inr (v mod 2 ^ 14, b))
       else if k = 2 then try_bind (get_u 4 b) (\<lambda>(v, b). Inr (v mod 2 ^ 30, b))
       else try_bind (get_u 8 b) (\<lambda>(v, b). Inr (v mod 2 ^ 62, b)))"
    using k by (auto simp: get_varint_def varint_parse_len_eq cap_as_ref and_low_mask k_def
        get_u8_def get_u16_def get_u32_def get_u64_def)
  with k Cons small show ?thesis
    by (auto simp: dec_varint_def get_u_eq be_val_Cons simp flip: k_def)
qed

lemma or_push_6_nat: "m < 64 \<Longrightarrow> (m :: nat) OR (q * 64) = m + q * 64"
proof -
  assume "m < 64"
  then have m: "take_bit 6 m = m" by (simp add: take_bit_nat_eq_self_iff)
  have "take_bit 6 m AND push_bit 6 q = 0"
    by (rule bit_eqI) (auto simp: bit_simps)
  then have "take_bit 6 m + push_bit 6 q = take_bit 6 m OR push_bit 6 q"
    by (simp add: disjunctive_add_eq_or)
  then show ?thesis by (simp add: m push_bit_eq_mult)
qed

lemma unat_or_tag:
  assumes "unat (x :: byte) < 64" "tag \<in> {0, 0x40, 0x80, 0xc0}"
  shows "unat (x OR tag) = unat x + unat tag"
  using assms(2) or_push_6_nat [OF assms(1), of 1] or_push_6_nat [OF assms(1), of 2]
    or_push_6_nat [OF assms(1), of 3]
  by (auto simp: unsigned_or_eq)

lemma varint_tag_cases: "varint_tag len \<in> {0, 0x40, 0x80, 0xc0}"
  by (simp add: varint_tag_def)

lemma be_val_varint_enc:
  assumes "0 < len" "v < 64 * 256 ^ (len - 1)"
  shows "be_val (varint_enc len v) = v + unat (varint_tag len) * 256 ^ (len - 1)"
    and "unat (hd (varint_enc len v)) div 64 = unat (varint_tag len) div 64"
proof -
  obtain n where n: "len = Suc n" using assms(1) by (cases len) auto
  define x :: byte where "x = word_of_nat (v div 256 ^ n)"
  have "v div 256 ^ n < 64"
    using assms(2) n by (simp add: less_mult_imp_div_less)
  then have x: "unat x = v div 256 ^ n" "unat x < 64"
    by (simp_all add: x_def unat_of_nat)
  have enc: "varint_enc len v = (x OR varint_tag len) # be_bytes n v"
    by (simp add: varint_enc_def n x_def)
  have or: "unat (x OR varint_tag len) = unat x + unat (varint_tag len)"
    by (rule unat_or_tag [OF x(2) varint_tag_cases])
  have "v = v div 256 ^ n * 256 ^ n + v mod 256 ^ n"
    by (rule div_mult_mod_eq [symmetric])
  moreover have "be_val (varint_enc len v) =
      (v div 256 ^ n + unat (varint_tag len)) * 256 ^ n + v mod 256 ^ n"
    by (simp add: enc be_val_Cons or be_val_be_bytes_mod x(1))
  ultimately show "be_val (varint_enc len v) = v + unat (varint_tag len) * 256 ^ (len - 1)"
    by (simp add: n algebra_simps)
  show "unat (hd (varint_enc len v)) div 64 = unat (varint_tag len) div 64"
    using x(2) varint_tag_cases [of len] by (auto simp: enc or)
qed

lemma dec_varint_enc [codec_simps]:
  assumes "len \<in> {1, 2, 4, 8}" "v < 2 ^ (8 * len - 2)"
  shows "dec_varint (varint_enc len v @ r) = Some (v, len)"
proof -
  have lim: "v < 64 * 256 ^ (len - 1)" "0 < len"
    using assms by auto
  obtain x xs where x: "varint_enc len v = x # xs"
    by (simp add: varint_enc_def)
  then have "unat (drop_bit 6 x) = unat (varint_tag len) div 64"
    using be_val_varint_enc(2) [OF lim(2,1)] by (simp add: drop_bit_6_byte)
  then have n: "2 ^ unat (drop_bit 6 x) = len"
    using assms(1) by (auto simp: varint_tag_def)
  have "take len (varint_enc len v @ r) = varint_enc len v"
    using lim(2) by simp
  moreover have "be_val (varint_enc len v) mod 2 ^ (8 * len - 2) = v"
  proof -
    have "unat (varint_tag len) * 256 ^ (len - 1) =
        (unat (varint_tag len) div 64) * 2 ^ (8 * len - 2)"
      using assms(1) by (auto simp: varint_tag_def)
    then have "be_val (varint_enc len v) mod 2 ^ (8 * len - 2) = v mod 2 ^ (8 * len - 2)"
      unfolding be_val_varint_enc(1) [OF lim(2,1)] by (simp only: mod_mult_self1)
    with assms(2) show ?thesis by simp
  qed
  moreover have "length (varint_enc len v @ r) \<ge> len"
    using lim(2) by simp
  ultimately show ?thesis
    using x n by (simp add: dec_varint_def Let_def)
qed

lemma dec_varint_bytes [codec_simps]:
  "v < varint_limit \<Longrightarrow> dec_varint (varint_bytes v @ r) = Some (v, varint_size v)"
  unfolding varint_bytes_def
  by (rule dec_varint_enc) (use varint_size_cases [of v] varint_size_fits [of v] in auto)

lemma dec_varint_bounds:
  assumes "dec_varint bs = Some (v, n)"
  shows "v < varint_limit \<and> n \<in> {1, 2, 4, 8} \<and> n \<le> length bs"
proof -
  obtain x xs where bs: "bs = x # xs" and n: "n = 2 ^ unat (drop_bit 6 x)"
    and v: "v = be_val (take n bs) mod 2 ^ (8 * n - 2)" and le: "n \<le> length bs"
    using assms by (auto simp: dec_varint_def Let_def split: list.splits if_splits)
  have n4: "n \<in> {1, 2, 4, 8}"
    using byte_less_4 [OF drop_bit_6_less_4 [of x]] by (auto simp: n)
  then have "v < 2 ^ (8 * n - 2)" unfolding v by simp
  also have "(2::nat) ^ (8 * n - 2) \<le> varint_limit" using n4 by auto
  finally show ?thesis using n4 le by simp
qed

lemma as_ref_put_bytes:
  assumes "put_bytes bs b = Inr b'" "octets_wf b"
  shows "as_ref (b'\<lparr>off := off b\<rparr>) = bs @ as_ref b'" and "b' = adv (length bs) (b'\<lparr>off := off b\<rparr>)"
  using assms by (auto simp: put_bytes_def cap_def octets_wf_def as_ref_def adv_def split: if_splits)

section \<open>Properties\<close>

text \<open>a variable-length integer below \<open>2 ^ 62\<close> written with \<open>put_varint\<close> is read back by
  \<open>get_varint\<close> from the same offset, the read stops where the write stopped, and the bytes
  before the offset are untouched.\<close>

lemma varint_roundtrip:
  assumes "octets_wf b" "v < varint_limit" "put_varint v b = Inr b'"
  shows "get_varint (b'\<lparr>off := off b\<rparr>) = Inr (v, b') \<and>
         take (off b) (buf b') = take (off b) (buf b) \<and> length (buf b') = length (buf b)"
proof -
  have put: "put_bytes (varint_bytes v) b = Inr b'"
    using assms by (simp add: put_varint_eq)
  then show ?thesis
    using as_ref_put_bytes [OF put assms(1)] put_bytes_eq_Inr [OF assms(1) put] assms(2)
    by (simp add: get_varint_eq dec_varint_bytes)
qed

lemma varint_roundtrip_example:
  "get_varint (\<lparr>buf = [7, 0x7f, 0xff, 0], off = 1\<rparr>) = Inr (16383, \<lparr>buf = [7, 0x7f, 0xff, 0], off = 3\<rparr>)"
proof -
  have p: "put_varint 16383 \<lparr>buf = [7, 1, 2, 0], off = 1\<rparr> = Inr \<lparr>buf = [7, 0x7f, 0xff, 0], off = 3\<rparr>"
    by (simp add: put_varint_def varint_len_def put_varint_with_len_def cap_def put_u16_def put_u_def
        or_first_def be_bytes_numerals)
  show ?thesis
    using varint_roundtrip [OF _ _ p] by (simp add: octets_wf_def)
qed

text \<open>reading a variable-length integer never panics: it returns a value below \<open>2 ^ 62\<close>
  and moves the offset inside the buffer by 1, 2, 4 or 8 bytes, or it returns
  \<open>BufferTooShort\<close>.\<close>

lemma get_varint_total:
  assumes "octets_wf b"
  shows "(\<exists>v n. get_varint b = Inr (v, b\<lparr>off := off b + n\<rparr>) \<and> v < varint_limit \<and>
            n \<in> {1, 2, 4, 8} \<and> off b + n \<le> length (buf b)) \<or>
         get_varint b = err BufferTooShort"
proof (cases "dec_varint (as_ref b)")
  case None
  then show ?thesis by (simp add: get_varint_eq)
next
  case (Some p)
  obtain v n where p: "p = (v, n)" by (cases p)
  with Some have "v < varint_limit" "n \<in> {1, 2, 4, 8}" "off b + n \<le> length (buf b)"
    using dec_varint_bounds [of "as_ref b" v n] assms by (auto simp: as_ref_def octets_wf_def)
  then show ?thesis using Some p by (auto simp: get_varint_eq adv_def)
qed

lemma get_varint_total_example:
  "get_varint \<lparr>buf = [0x40], off = 0\<rparr> \<noteq> panic"
  using get_varint_total [of "\<lparr>buf = [0x40], off = 0\<rparr>"] by (auto simp: octets_wf_def)

text \<open>\<open>slice_last(len)\<close> is documented to return \<open>len\<close> elements from the end of the buffer,
  but its start index is relative to the offset: on success it returns \<open>len\<close> plus the current
  offset elements, so it agrees with its documentation exactly when the offset is 0.\<close>

lemma slice_last_length:
  assumes "octets_wf b" "len \<le> cap b"
  shows "\<exists>s. slice_last len b = Inr s \<and> length s = len + off b \<and>
             (s = drop (length (buf b) - len) (buf b) \<longleftrightarrow> off b = 0)"
proof -
  have le: "off b + len \<le> length (buf b)"
    using assms by (auto simp: octets_wf_def cap_def)
  have len: "length (drop (cap b - len) (buf b)) = len + off b"
    using le by (simp add: cap_def)
  moreover have "length (drop (length (buf b) - len) (buf b)) = len"
    using le by simp
  ultimately have "drop (cap b - len) (buf b) = drop (length (buf b) - len) (buf b) \<longleftrightarrow> off b = 0"
    by (metis add_cancel_left_right cap_def diff_zero)
  with len assms(2) show ?thesis
    by (simp add: slice_last_def)
qed

lemma slice_last_length_example:
  "slice_last 1 \<lparr>buf = [1, 2, 3], off = 1\<rparr> = Inr [2, 3]"
  using slice_last_length [of "\<lparr>buf = [1, 2, 3], off = 1\<rparr>" 1]
  by (simp add: octets_wf_def cap_def slice_last_def)

end
