(* ===== verification/Codec.thy ===== *)
theory Codec
  imports Octets
begin

text \<open>
  Reasoning about parsers over \<open>Octets\<close>: what it means for a parser to read a given string
  of bytes, how the \<open>?\<close>-chained reads of the source compose, and the interface \<open>wire_format\<close>
  of an encoder with its decoder, from which follow the round trip of sequences and the
  unambiguity of the encoding.
\<close>

section \<open>Parsers that read a string\<close>

type_synonym 'a parser = "octets \<Rightarrow> ('a \<times> octets) result"

definition reads_if :: "(byte list \<Rightarrow> bool) \<Rightarrow> 'a parser \<Rightarrow> byte list \<Rightarrow> 'a \<Rightarrow> bool" where
  "reads_if P p bs x \<longleftrightarrow>
     (\<forall>b r. as_ref b = bs @ r \<longrightarrow> P r \<longrightarrow> p b = Inr (x, adv (length bs) b))"

abbreviation reads :: "'a parser \<Rightarrow> byte list \<Rightarrow> 'a \<Rightarrow> bool" where
  "reads \<equiv> reads_if (\<lambda>_. True)"

lemma reads_return: "reads (\<lambda>b. Inr (x, b)) [] x"
  by (simp add: reads_if_def)

lemma reads_bind:
  assumes "reads p xs x" "reads_if P (q x) ys y"
  shows "reads_if P (\<lambda>b. try_bind (p b) (\<lambda>(x, b). q x b)) (xs @ ys) y"
  unfolding reads_if_def
proof (intro allI impI)
  fix b r assume b: "as_ref b = (xs @ ys) @ r" and r: "P r"
  then have "p b = Inr (x, adv (length xs) b)" using assms(1) by (simp add: reads_if_def)
  moreover have "as_ref (adv (length xs) b) = ys @ r" using b by simp
  then have "q x (adv (length xs) b) = Inr (y, adv (length ys) (adv (length xs) b))"
    using assms(2) r by (simp add: reads_if_def)
  ultimately show "try_bind (p b) (\<lambda>(x, b). q x b) = Inr (y, adv (length (xs @ ys)) b)"
    by (simp add: adv_adv)
qed

lemma reads_bind_eq:
  "reads p xs x \<Longrightarrow> reads_if P (q x) ys y \<Longrightarrow> zs = xs @ ys \<Longrightarrow>
     reads_if P (\<lambda>b. try_bind (p b) (\<lambda>(x, b). q x b)) zs y"
  using reads_bind by metis

lemma reads_map:
  "reads p xs x \<Longrightarrow> y = f x \<Longrightarrow> reads (\<lambda>b. try_bind (p b) (\<lambda>(x, b). Inr (f x, b))) xs y"
  using reads_bind_eq [of p xs x "\<lambda>_. True" "\<lambda>x b. Inr (f x, b)" "[]" y xs] reads_return [of y] by simp

lemma reads_weaken: "reads p xs x \<Longrightarrow> reads_if P p xs x"
  by (simp add: reads_if_def)

lemma readsD: "reads_if P p bs x \<Longrightarrow> as_ref b = bs @ r \<Longrightarrow> P r \<Longrightarrow> p b = Inr (x, adv (length bs) b)"
  by (simp add: reads_if_def)

section \<open>Primitive reads\<close>

lemma reads_u: "v < 256 ^ n \<Longrightarrow> reads (get_u n) (be_bytes n v) v"
  by (simp add: reads_if_def get_u_eq)

lemma reads_u8: "v < 256 \<Longrightarrow> reads get_u8 (be_bytes 1 v) v"
  unfolding get_u8_def by (rule reads_u) simp

lemma reads_u16: "v < 65536 \<Longrightarrow> reads get_u16 (be_bytes 2 v) v"
  unfolding get_u16_def by (rule reads_u) simp

lemma reads_u32: "v < 4294967296 \<Longrightarrow> reads get_u32 (be_bytes 4 v) v"
  unfolding get_u32_def by (rule reads_u) simp

lemma reads_u64: "v < u64_size \<Longrightarrow> reads get_u64 (be_bytes 8 v) v"
  unfolding get_u64_def by (rule reads_u) simp

lemma reads_varint: "v < varint_limit \<Longrightarrow> reads get_varint (varint_bytes v) v"
  by (simp add: reads_if_def get_varint_eq dec_varint_bytes)

lemma reads_varint2: "v < 16384 \<Longrightarrow> reads get_varint (varint_enc 2 v) v"
  by (simp add: reads_if_def get_varint_eq dec_varint_enc)

lemma reads_bytes: "n = length bs \<Longrightarrow> reads (get_bytes n) bs bs"
  by (simp add: reads_if_def get_bytes_eq)

lemma reads_bytes_with_u8_length:
  "length bs < 256 \<Longrightarrow> reads get_bytes_with_u8_length (be_bytes 1 (length bs) @ bs) bs"
  unfolding get_bytes_with_u8_length_def by (rule reads_bind [OF reads_u8 reads_bytes]) auto

lemma reads_bytes_with_varint_length:
  "length bs < varint_limit \<Longrightarrow>
     reads get_bytes_with_varint_length (varint_bytes (length bs) @ bs) bs"
  unfolding get_bytes_with_varint_length_def by (rule reads_bind [OF reads_varint reads_bytes]) auto

lemma reads_bytes_with_varint2_length:
  "length bs < 16384 \<Longrightarrow>
     reads get_bytes_with_varint_length (varint_enc 2 (length bs) @ bs) bs"
  unfolding get_bytes_with_varint_length_def by (rule reads_bind [OF reads_varint2 reads_bytes]) auto

lemmas reads_prims = reads_u8 reads_u16 reads_u32 reads_u64 reads_varint reads_varint2 reads_bytes
  reads_bytes_with_u8_length reads_bytes_with_varint_length reads_bytes_with_varint2_length

section \<open>Writers\<close>

text \<open>A writer emits a string when it behaves as \<open>put_bytes\<close> of that string.\<close>

definition emits :: "(octets \<Rightarrow> octets result) \<Rightarrow> byte list \<Rightarrow> bool" where
  "emits w bs \<longleftrightarrow> (\<forall>b. w b = put_bytes bs b)"

lemma emits_bind: "emits w xs \<Longrightarrow> emits w' ys \<Longrightarrow> emits (\<lambda>b. try_bind (w b) w') (xs @ ys)"
  unfolding emits_def using put_bytes_append by (metis ext)

lemma emits_skip: "emits Inr []"
  by (simp add: emits_def)

lemma emits_varint: "v < varint_limit \<Longrightarrow> emits (put_varint v) (varint_bytes v)"
  by (simp add: emits_def put_varint_eq)

lemma emits_varint2: "emits (put_varint_with_len v 2) (varint_enc 2 v)"
  by (simp add: emits_def put_varint_with_len_eq)

lemma emits_bytes: "emits (put_bytes bs) bs"
  by (simp add: emits_def)

lemma emits_u8: "emits (put_u8 v) (be_bytes 1 v)"
  by (simp add: emits_def put_u8_def put_u_eq)

lemma emits_u16: "emits (put_u16 v) (be_bytes 2 v)"
  by (simp add: emits_def put_u16_def put_u_eq)

lemma emits_u32: "emits (put_u32 v) (be_bytes 4 v)"
  by (simp add: emits_def put_u32_def put_u_eq)

lemma emits_u64: "emits (put_u64 v) (be_bytes 8 v)"
  by (simp add: emits_def put_u64_def put_u_eq)

lemmas emits_prims = emits_varint emits_varint2 emits_bytes emits_u8 emits_u16 emits_u32 emits_u64

text \<open>Writing a list of fields one after the other.\<close>

primrec put_all :: "(octets \<Rightarrow> octets result) list \<Rightarrow> octets \<Rightarrow> octets result" where
  "put_all [] b = Inr b"
| "put_all (w # ws) b = try_bind (w b) (put_all ws)"

lemma emits_all_Nil: "emits (put_all []) []"
  by (simp add: emits_def)

lemma emits_all_Cons: "emits w xs \<Longrightarrow> emits (put_all ws) ys \<Longrightarrow> emits (put_all (w # ws)) (xs @ ys)"
  using emits_bind [of w xs "put_all ws" ys] by (simp add: emits_def)

lemma emits_all_append:
  "emits (put_all ws) xs \<Longrightarrow> emits (put_all ws') ys \<Longrightarrow> emits (put_all (ws @ ws')) (xs @ ys)"
proof (induction ws arbitrary: xs)
  case Nil
  then have "\<forall>b. Inr b = put_bytes xs b" by (simp add: emits_def)
  then have "Inr \<lparr>buf = [], off = 0\<rparr> = put_bytes xs \<lparr>buf = [], off = 0\<rparr>" by blast
  then have "xs = []" by (auto simp: put_bytes_def cap_def split: if_splits)
  with Nil show ?case by simp
next
  case (Cons w ws)
  have "put_all ((w # ws) @ ws') b = try_bind (put_all (w # ws) b) (put_all ws')" for b
  proof -
    have "put_all (us @ ws') b = try_bind (put_all us b) (put_all ws')" for us b
    proof (induction us arbitrary: b)
      case (Cons u us)
      have "put_all (us @ ws') = (\<lambda>b. try_bind (put_all us b) (put_all ws'))"
        by (rule ext) (rule Cons.IH)
      then show ?case by (simp add: try_bind_assoc)
    qed simp
    then show ?thesis .
  qed
  then show ?case
    using emits_bind [OF Cons.prems] by (simp add: emits_def del: put_all.simps)
qed

lemma emitsD:
  assumes "emits w bs" "octets_wf b" "w b = Inr b'"
  shows "as_ref (b'\<lparr>off := off b\<rparr>) = bs @ as_ref b'" "b' = adv (length bs) (b'\<lparr>off := off b\<rparr>)"
    "length bs \<le> cap b" "cap b - cap b' = length bs"
    "take (off b) (buf b') = take (off b) (buf b)" "length (buf b') = length (buf b)"
proof -
  have put: "put_bytes bs b = Inr b'" using assms(1,3) by (simp add: emits_def)
  note eq = put_bytes_eq_Inr [OF assms(2) put]
  show "as_ref (b'\<lparr>off := off b\<rparr>) = bs @ as_ref b'" "b' = adv (length bs) (b'\<lparr>off := off b\<rparr>)"
    by (rule as_ref_put_bytes [OF put assms(2)])+
  show "length bs \<le> cap b" "take (off b) (buf b') = take (off b) (buf b)"
    "length (buf b') = length (buf b)" using eq by simp_all
  show "cap b - cap b' = length bs" using eq by (auto simp: cap_def)
qed

lemma emits_fits:
  assumes "emits w bs" "length bs \<le> cap b"
  shows "\<exists>b'. w b = Inr b'"
  using assms by (simp add: emits_def put_bytes_def)

section \<open>The interface of a wire format\<close>

text \<open>\<open>enc\<close> gives the bytes of a value, \<open>dec\<close> reads it back, as \<open>norm\<close> of it, from any position
  whose following bytes satisfy \<open>follow\<close> (a run of padding must not be followed by more).\<close>

primrec decode_n :: "'b parser \<Rightarrow> nat \<Rightarrow> 'b list parser" where
  "decode_n dec 0 b = Inr ([], b)"
| "decode_n dec (Suc n) b =
     try_bind (dec b) (\<lambda>(x, b). try_bind (decode_n dec n b) (\<lambda>(xs, b). Inr (x # xs, b)))"

fun separated :: "('a \<Rightarrow> byte list) \<Rightarrow> ('a \<Rightarrow> byte list \<Rightarrow> bool) \<Rightarrow> 'a list \<Rightarrow> byte list \<Rightarrow> bool" where
  "separated enc follow [] r \<longleftrightarrow> True"
| "separated enc follow (x # xs) r \<longleftrightarrow>
     follow x (concat (map enc xs) @ r) \<and> separated enc follow xs r"

locale wire_format =
  fixes enc :: "'a \<Rightarrow> byte list"
    and dec :: "'b parser"
    and norm :: "'a \<Rightarrow> 'b"
    and valid :: "'a \<Rightarrow> bool"
    and follow :: "'a \<Rightarrow> byte list \<Rightarrow> bool"
  assumes dec_enc: "valid x \<Longrightarrow> reads_if (follow x) dec (enc x) (norm x)"
    and enc_nonempty: "valid x \<Longrightarrow> enc x \<noteq> []"
begin

lemma decode_seq:
  assumes "\<forall>x \<in> set xs. valid x" "separated enc follow xs r" "as_ref b = concat (map enc xs) @ r"
  shows "decode_n dec (length xs) b = Inr (map norm xs, adv (length (concat (map enc xs))) b)"
  using assms
proof (induction xs arbitrary: b)
  case (Cons x xs)
  have "dec b = Inr (norm x, adv (length (enc x)) b)"
    using readsD [OF dec_enc, of x b "concat (map enc xs) @ r"] Cons.prems by simp
  with Cons show ?case by (simp add: adv_adv)
qed simp

lemma enc_unambiguous:
  assumes "valid x" "valid y" "enc x @ r = enc y @ s" "follow x r" "follow y s"
  shows "norm x = norm y \<and> length (enc x) = length (enc y)"
proof -
  let ?b = "with_slice (enc x @ r)"
  have "dec ?b = Inr (norm x, adv (length (enc x)) ?b)"
    using readsD [OF dec_enc, of x ?b r] assms by simp
  moreover have "dec ?b = Inr (norm y, adv (length (enc y)) ?b)"
    using readsD [OF dec_enc, of y ?b s] assms by simp
  ultimately show ?thesis by (auto simp: adv_def with_slice_def)
qed

end

interpretation varint: wire_format varint_bytes get_varint "\<lambda>v. v" "\<lambda>v. v < varint_limit" "\<lambda>_ _. True"
proof unfold_locales
  fix v assume "v < varint_limit"
  then show "reads get_varint (varint_bytes v) v" by (rule reads_varint)
  show "varint_bytes v \<noteq> []" by (simp add: varint_bytes_def varint_enc_def)
qed

end
