(* ===== verification/Ranges.thy ===== *)
theory Ranges
  imports Ordered_Map
begin

text \<open>
  \<open>quiche/src/ranges.rs\<close>: sets of \<open>u64\<close> values as sorted lists of disjoint half-open ranges,
  kept inline (a small vector) up to three ranges and in a \<open>BTreeMap\<close> beyond. A range is
  the pair of its start and its (exclusive) end.

  The two representations are modelled operation by operation, with the index arithmetic of
  the inline variant and its panics. The lemmas relate both to one structural insertion
  \<open>ins_range\<close> and to the set of covered values.
\<close>

section \<open>Representation\<close>

type_synonym range = "nat \<times> nat"

abbreviation (input) MAX_INLINE_CAPACITY :: nat where "MAX_INLINE_CAPACITY \<equiv> 4"
abbreviation (input) MIN_TO_INLINE :: nat where "MIN_TO_INLINE \<equiv> 2"

record inline_range_set =
  i_inner :: "range list"
  i_capacity :: nat

record btree_range_set =
  t_inner :: "(nat, nat) btree_map"
  t_capacity :: nat

datatype range_set = Inline inline_range_set | BTree btree_range_set

definition RangeSet_new :: "nat \<Rightarrow> range_set" where
  "RangeSet_new capacity = Inline \<lparr>i_inner = [], i_capacity = capacity\<rparr>"

definition RangeSet_default :: range_set where
  "RangeSet_default = Inline \<lparr>i_inner = [], i_capacity = usize_max\<rparr>"

fun RangeSet_len :: "range_set \<Rightarrow> nat" where
  "RangeSet_len (Inline rset) = length (i_inner rset)"
| "RangeSet_len (BTree rset) = length (t_inner rset)"

fun RangeSet_iter :: "range_set \<Rightarrow> range list" where
  "RangeSet_iter (BTree rset) = t_inner rset"
| "RangeSet_iter (Inline rset) = i_inner rset"

fun RangeSet_flatten :: "range_set \<Rightarrow> nat list" where
  "RangeSet_flatten (BTree rset) = concat (map (\<lambda>(k, v). [k..<v]) (t_inner rset))"
| "RangeSet_flatten (Inline rset) = concat (map (\<lambda>(s, e). [s..<e]) (i_inner rset))"

fun RangeSet_first :: "range_set \<Rightarrow> nat option" where
  "RangeSet_first (Inline rset) = (case i_inner rset of [] \<Rightarrow> None | (s, _) # _ \<Rightarrow> Some s)"
| "RangeSet_first (BTree rset) = map_option fst (bt_first (t_inner rset))"

text \<open>\<open>*e - 1\<close> underflows when the last range ends at 0.\<close>

fun RangeSet_last :: "range_set \<Rightarrow> nat option result" where
  "RangeSet_last (Inline rset) =
     (if i_inner rset = [] then Inr None
      else try_bind (checked_sub (snd (last (i_inner rset))) 1) (\<lambda>v. Inr (Some v)))"
| "RangeSet_last (BTree rset) =
     (case bt_last (t_inner rset) of None \<Rightarrow> Inr None
      | Some (_, v) \<Rightarrow> try_bind (checked_sub v 1) (\<lambda>v. Inr (Some v)))"

text \<open>\<open>BTreeMap::from\<close> an array of entries.\<close>

definition bt_of_list :: "(nat \<times> nat) list \<Rightarrow> (nat, nat) btree_map" where
  "bt_of_list xs = foldl (\<lambda>m (k, v). bt_insert k v m) [] xs"

fun RangeSet_fixup :: "range_set \<Rightarrow> range_set" where
  "RangeSet_fixup (Inline rset) =
     (if length (i_inner rset) = MAX_INLINE_CAPACITY
      then BTree \<lparr>t_inner = bt_of_list (i_inner rset), t_capacity = i_capacity rset\<rparr>
      else Inline rset)"
| "RangeSet_fixup (BTree rset) =
     (if length (t_inner rset) \<le> MIN_TO_INLINE
      then Inline \<lparr>i_inner = t_inner rset, i_capacity = t_capacity rset\<rparr>
      else BTree rset)"

section \<open>The inline variant\<close>

text \<open>\<open>Vec::insert\<close> and \<open>Vec::remove\<close> at an index inside the vector.\<close>

definition vec_insert :: "nat \<Rightarrow> 'a \<Rightarrow> 'a list \<Rightarrow> 'a list" where
  "vec_insert i x xs = take i xs @ x # drop i xs"

definition vec_remove :: "nat \<Rightarrow> 'a list \<Rightarrow> 'a list" where
  "vec_remove i xs = take i xs @ drop (Suc i) xs"

text \<open>The second loop of \<open>InlineRangeSet::insert\<close>: merge the ranges that the range at \<open>pos\<close>
  now reaches.\<close>

function inline_merge :: "range list \<Rightarrow> nat \<Rightarrow> nat \<Rightarrow> range list" where
  "inline_merge inner pos en =
     (if pos + 1 < length inner then
        (let (s, e) = inner ! (pos + 1) in
         if en < s then inner
         else
           (let new_e = max e en;
                inner1 = inner[pos := (fst (inner ! pos), new_e)]
            in inline_merge (vec_remove (pos + 1) inner1) pos new_e))
      else inner)"
  by pat_completeness auto
termination
  by (relation "measure (\<lambda>(inner, pos, en). length inner)") (auto simp: vec_remove_def)

text \<open>The first loop, with the position as in the source. At capacity, the smallest range is
  removed and the position decremented, which underflows when it is 0.\<close>

function inline_insert_at :: "range list \<Rightarrow> nat \<Rightarrow> nat \<Rightarrow> nat \<Rightarrow> nat \<Rightarrow> range list result" where
  "inline_insert_at inner capacity start en pos =
     (if pos < length inner then
        (let (s, e) = inner ! pos in
         if start > e then inline_insert_at inner capacity start en (pos + 1)
         else if en < s then
           (if length inner = capacity then
              (if pos = 0 then panic
               else Inr (vec_insert (pos - 1) (start, en) (vec_remove 0 inner)))
            else Inr (vec_insert pos (start, en) inner))
         else
           (let s' = (if start < s then start else s) in
            if en > e then Inr (inline_merge (inner[pos := (s', en)]) pos en)
            else Inr (inner[pos := (s', e)])))
      else if length inner = capacity then
        (if inner = [] then panic else Inr (vec_remove 0 inner @ [(start, en)]))
      else Inr (inner @ [(start, en)]))"
  by pat_completeness auto
termination
  by (relation "measure (\<lambda>(inner, capacity, start, en, pos). length inner - pos)") auto

declare inline_merge.simps [simp del] inline_insert_at.simps [simp del]

definition InlineRangeSet_insert :: "range \<Rightarrow> inline_range_set \<Rightarrow> inline_range_set result" where
  "InlineRangeSet_insert item rset =
     try_bind (inline_insert_at (i_inner rset) (i_capacity rset) (fst item) (snd item) 0)
       (\<lambda>inner. Inr (rset\<lparr>i_inner := inner\<rparr>))"

text \<open>\<open>largest + 1\<close> is evaluated only below an existing end, so it cannot overflow.\<close>

fun inline_remove_until :: "nat \<Rightarrow> range list \<Rightarrow> range list" where
  "inline_remove_until largest [] = []"
| "inline_remove_until largest ((s, e) # rs) =
     (if largest \<ge> e then inline_remove_until largest rs
      else
        (let s' = max (largest + 1) s
         in if s' = e then rs else (s', e) # rs))"

definition InlineRangeSet_remove_until :: "nat \<Rightarrow> inline_range_set \<Rightarrow> inline_range_set" where
  "InlineRangeSet_remove_until largest rset =
     rset\<lparr>i_inner := inline_remove_until largest (i_inner rset)\<rparr>"

section \<open>The \<open>BTreeMap\<close> variant\<close>

definition range_overlaps :: "range \<Rightarrow> range \<Rightarrow> bool" where
  "range_overlaps r other \<longleftrightarrow>
     (fst other \<ge> fst r \<and> fst other \<le> snd r) \<or> (snd other \<ge> fst r \<and> snd other \<le> snd r)"

text \<open>\<open>Range::contains\<close> is half-open.\<close>

definition range_contains :: "range \<Rightarrow> nat \<Rightarrow> bool" where
  "range_contains r x \<longleftrightarrow> fst r \<le> x \<and> x < snd r"

definition BTreeRangeSet_prev_to :: "nat \<Rightarrow> (nat, nat) btree_map \<Rightarrow> range option" where
  "BTreeRangeSet_prev_to item m = bt_last (bt_upto item m)"

definition BTreeRangeSet_next_to :: "nat \<Rightarrow> (nat, nat) btree_map \<Rightarrow> range option" where
  "BTreeRangeSet_next_to item m = bt_first (bt_from item m)"

lemma next_to_mem:
  assumes "BTreeRangeSet_next_to k m = Some r"
  shows "r \<in> set m" "k \<le> fst r"
proof -
  have "r \<in> set (bt_from k m)"
    using assms by (auto simp: BTreeRangeSet_next_to_def bt_first_def split: list.splits)
  then show "r \<in> set m" "k \<le> fst r" by (auto simp: bt_from_def)
qed

lemma next_to_length:
  "BTreeRangeSet_next_to k m = Some r \<Longrightarrow> length (bt_remove (fst r) m) < length m"
  using length_bt_remove [of m "fst r"] next_to_mem [of k m r]
  by (force simp: bt_contains_def bt_get_None_iff)

function btree_merge ::
  "range \<Rightarrow> nat \<Rightarrow> nat \<Rightarrow> (nat, nat) btree_map \<Rightarrow> nat \<times> nat \<times> (nat, nat) btree_map" where
  "btree_merge item start en m =
     (case BTreeRangeSet_next_to start m of
        None \<Rightarrow> (start, en, m)
      | Some r \<Rightarrow>
          if range_contains item (fst r) \<and> range_contains item (snd r)
          then btree_merge item start en (bt_remove (fst r) m)
          else if \<not> range_overlaps r item then (start, en, m)
          else btree_merge item (min start (fst r)) (max en (snd r)) (bt_remove (fst r) m))"
  by pat_completeness auto
termination
  by (relation "measure (\<lambda>(item, start, en, m). length m)") (auto dest: next_to_length)

declare btree_merge.simps [simp del]

definition btree_insert_range :: "range \<Rightarrow> nat \<Rightarrow> (nat, nat) btree_map \<Rightarrow> (nat, nat) btree_map" where
  "btree_insert_range item capacity m =
     (let (start, en, m1) =
        (case BTreeRangeSet_prev_to (fst item) m of
           None \<Rightarrow> (fst item, snd item, m)
         | Some r \<Rightarrow>
             if range_overlaps r item
             then (min (fst item) (fst r), max (snd item) (snd r), bt_remove (fst r) m)
             else (fst item, snd item, m));
          (start, en, m2) = btree_merge item start en m1;
          m3 = (if length m2 \<ge> capacity then tl m2 else m2)
      in bt_insert start en m3)"

definition BTreeRangeSet_insert :: "range \<Rightarrow> btree_range_set \<Rightarrow> btree_range_set" where
  "BTreeRangeSet_insert item rset =
     rset\<lparr>t_inner := btree_insert_range item (t_capacity rset) (t_inner rset)\<rparr>"

definition BTreeRangeSet_remove_until :: "nat \<Rightarrow> btree_range_set \<Rightarrow> btree_range_set result" where
  "BTreeRangeSet_remove_until largest rset =
     fold_res
       (\<lambda>r rset.
          let set1 = rset\<lparr>t_inner := bt_remove (fst r) (t_inner rset)\<rparr> in
          try_bind (checked_add largest 1) (\<lambda>start.
            if snd r > start then Inr (BTreeRangeSet_insert (start, snd r) set1) else Inr set1))
       (bt_upto largest (t_inner rset)) rset"

section \<open>The dispatching operations\<close>

fun RangeSet_insert :: "range \<Rightarrow> range_set \<Rightarrow> range_set result" where
  "RangeSet_insert item (Inline rset) =
     try_bind (InlineRangeSet_insert item rset) (\<lambda>rset. Inr (RangeSet_fixup (Inline rset)))"
| "RangeSet_insert item (BTree rset) = Inr (RangeSet_fixup (BTree (BTreeRangeSet_insert item rset)))"

fun RangeSet_remove_until :: "nat \<Rightarrow> range_set \<Rightarrow> range_set result" where
  "RangeSet_remove_until largest (Inline rset) =
     Inr (RangeSet_fixup (Inline (InlineRangeSet_remove_until largest rset)))"
| "RangeSet_remove_until largest (BTree rset) =
     try_bind (BTreeRangeSet_remove_until largest rset) (\<lambda>rset. Inr (RangeSet_fixup (BTree rset)))"

definition RangeSet_push_item :: "nat \<Rightarrow> range_set \<Rightarrow> range_set result" where
  "RangeSet_push_item item rset =
     try_bind (checked_add item 1) (\<lambda>e. RangeSet_insert (item, e) rset)"

text \<open>\<open>PartialEq<Range<u64>>\<close>.\<close>

definition RangeSet_eq_range :: "range_set \<Rightarrow> range \<Rightarrow> bool" where
  "RangeSet_eq_range rset other \<longleftrightarrow> RangeSet_len rset = 1 \<and> hd (RangeSet_iter rset) = other"

text \<open>\<open>MissingRangeSet\<close> of \<open>flexicast/mod.rs\<close>: the gaps between consecutive ranges, and the
  number of covered values.\<close>

fun range_gaps :: "range list \<Rightarrow> range list" where
  "range_gaps (first # second # rs) = (snd first, fst second) # range_gaps (second # rs)"
| "range_gaps _ = []"

definition RangeSet_get_missing :: "range_set \<Rightarrow> range_set result" where
  "RangeSet_get_missing rset =
     fold_res RangeSet_insert (range_gaps (RangeSet_iter rset)) RangeSet_default"

definition RangeSet_nb_elements :: "range_set \<Rightarrow> nat" where
  "RangeSet_nb_elements rset = length (RangeSet_flatten rset)"

section \<open>Well-formed range lists and what they cover\<close>

text \<open>Strictly ascending with a gap of at least one value between neighbours. A range may be
  empty: the send buffer records the acknowledgment of an empty frame that way.\<close>

definition wf_ranges :: "range list \<Rightarrow> bool" where
  "wf_ranges xs \<longleftrightarrow>
     sorted_wrt (\<lambda>r r'. snd r < fst r') xs \<and> (\<forall>r \<in> set xs. fst r \<le> snd r)"

definition proper_ranges :: "range list \<Rightarrow> bool" where
  "proper_ranges xs \<longleftrightarrow> (\<forall>r \<in> set xs. fst r < snd r)"

definition covered :: "range list \<Rightarrow> nat set" where
  "covered xs = (\<Union>r \<in> set xs. {fst r..<snd r})"

text \<open>The boundaries and the values of the ranges, as even and odd points: \<open>2 * s\<close> is the
  boundary before the value \<open>s\<close>, and \<open>2 * s + 1\<close> the value itself. Two ranges touch exactly
  when they share a point, and a well-formed list is determined by its points.\<close>

definition rpoints :: "range \<Rightarrow> nat set" where
  "rpoints r = {2 * fst r..2 * snd r}"

definition points :: "range list \<Rightarrow> nat set" where
  "points xs = (\<Union>r \<in> set xs. rpoints r)"

lemma wf_ranges_Nil [simp]: "wf_ranges []"
  by (simp add: wf_ranges_def)

lemma wf_ranges_Cons:
  "wf_ranges (r # xs) \<longleftrightarrow> fst r \<le> snd r \<and> (\<forall>r' \<in> set xs. snd r < fst r') \<and> wf_ranges xs"
  by (auto simp: wf_ranges_def)

lemma points_Nil [simp]: "points [] = {}"
  by (simp add: points_def)

lemma points_Cons [simp]: "points (r # xs) = rpoints r \<union> points xs"
  by (simp add: points_def)

lemma points_append [simp]: "points (xs @ ys) = points xs \<union> points ys"
  by (simp add: points_def)

lemma covered_iff: "x \<in> covered xs \<longleftrightarrow> 2 * x + 1 \<in> points xs"
proof -
  have "x \<in> {s..<e} \<longleftrightarrow> 2 * x + 1 \<in> {2 * s..2 * e}" for s e
    by auto
  then show ?thesis by (auto simp: covered_def points_def rpoints_def)
qed

lemma covered_Nil [simp]: "covered [] = {}"
  by (simp add: covered_def)

lemma covered_Cons [simp]: "covered (r # xs) = {fst r..<snd r} \<union> covered xs"
  by (simp add: covered_def)

lemma rpoints_union:
  "a \<le> s \<Longrightarrow> s \<le> b \<Longrightarrow> rpoints (a, b) \<union> rpoints (s, e) = rpoints (a, max e b)"
  by (auto simp: rpoints_def)

lemma points_ge: "wf_ranges (r # xs) \<Longrightarrow> p \<in> points xs \<Longrightarrow> 2 * snd r + 2 \<le> p"
  by (force simp: wf_ranges_Cons points_def rpoints_def)

lemma least_point: "wf_ranges (r # xs) \<Longrightarrow> (LEAST p. p \<in> points (r # xs)) = 2 * fst r"
  by (rule Least_equality) (auto simp: rpoints_def wf_ranges_Cons dest: points_ge [rotated])

lemma least_gap:
  assumes "wf_ranges (r # xs)"
  shows "(LEAST p. 2 * fst r \<le> p \<and> p \<notin> points (r # xs)) = 2 * snd r + 1"
proof (rule Least_equality)
  show "2 * fst r \<le> 2 * snd r + 1 \<and> 2 * snd r + 1 \<notin> points (r # xs)"
    using assms points_ge [OF assms, of "2 * snd r + 1"] by (auto simp: rpoints_def wf_ranges_Cons)
next
  fix p assume "2 * fst r \<le> p \<and> p \<notin> points (r # xs)"
  then show "2 * snd r + 1 \<le> p" by (auto simp: rpoints_def)
qed

lemma points_tl:
  "wf_ranges (r # xs) \<Longrightarrow> points xs = {p \<in> points (r # xs). 2 * snd r + 2 \<le> p}"
  using points_ge [of r xs] by (auto simp: rpoints_def)

lemma wf_ranges_points_inj:
  "wf_ranges xs \<Longrightarrow> wf_ranges ys \<Longrightarrow> points xs = points ys \<Longrightarrow> xs = ys"
proof (induction xs arbitrary: ys)
  case Nil
  then show ?case by (cases ys) (auto simp: rpoints_def wf_ranges_Cons)
next
  case (Cons r xs)
  obtain r' ys' where ys: "ys = r' # ys'"
    using Cons.prems by (cases ys) (auto simp: rpoints_def wf_ranges_Cons)
  have wf: "wf_ranges (r # xs)" "wf_ranges (r' # ys')"
    and eq: "points (r # xs) = points (r' # ys')"
    using Cons.prems ys by simp_all
  have "fst r = fst r'"
    using least_point [OF wf(1)] least_point [OF wf(2)] by (simp only: eq)
  moreover from this have snd: "snd r = snd r'"
    using least_gap [OF wf(1)] least_gap [OF wf(2)] by (simp only: eq)
  ultimately have "r = r'" by (simp add: prod_eq_iff)
  moreover have "points xs = points ys'"
    unfolding points_tl [OF wf(1)] points_tl [OF wf(2)] by (simp only: eq snd)
  ultimately show ?case
    using Cons.IH [of ys'] wf ys by (simp add: wf_ranges_Cons)
qed

section \<open>Structural insertion\<close>

fun merge_suffix :: "nat \<Rightarrow> nat \<Rightarrow> range list \<Rightarrow> range list" where
  "merge_suffix a b [] = [(a, b)]"
| "merge_suffix a b ((s, e) # xs) =
     (if b < s then (a, b) # (s, e) # xs else merge_suffix a (max e b) xs)"

fun ins_range :: "nat \<Rightarrow> nat \<Rightarrow> range list \<Rightarrow> range list" where
  "ins_range a b [] = [(a, b)]"
| "ins_range a b ((s, e) # xs) =
     (if a > e then (s, e) # ins_range a b xs
      else if b < s then (a, b) # (s, e) # xs
      else if b > e then merge_suffix (min a s) b xs
      else (min a s, e) # xs)"

lemma merge_suffix_lower: "\<forall>r \<in> set xs. l \<le> fst r \<Longrightarrow> l \<le> a \<Longrightarrow> \<forall>r \<in> set (merge_suffix a b xs). l \<le> fst r"
  by (induction a b xs rule: merge_suffix.induct) auto

lemma wf_merge_suffix:
  "a \<le> b \<Longrightarrow> wf_ranges xs \<Longrightarrow> wf_ranges (merge_suffix a b xs)"
  by (induction a b xs rule: merge_suffix.induct) (auto simp: wf_ranges_Cons)

lemma points_merge_suffix:
  "a \<le> b \<Longrightarrow> wf_ranges xs \<Longrightarrow> \<forall>r \<in> set xs. a \<le> fst r \<Longrightarrow>
     points (merge_suffix a b xs) = rpoints (a, b) \<union> points xs"
proof (induction a b xs rule: merge_suffix.induct)
  case (2 a b s e xs)
  show ?case
  proof (cases "b < s")
    case False
    then have "rpoints (a, b) \<union> rpoints (s, e) = rpoints (a, max e b)"
      using 2 by (intro rpoints_union) auto
    with False 2 show ?thesis by (auto simp: wf_ranges_Cons)
  qed simp
qed simp

lemma ins_range_lower: "\<forall>r \<in> set xs. l \<le> fst r \<Longrightarrow> l \<le> a \<Longrightarrow> \<forall>r \<in> set (ins_range a b xs). l \<le> fst r"
proof (induction a b xs rule: ins_range.induct)
  case (2 a b s e xs)
  then show ?case using merge_suffix_lower [of xs l "min a s" b] by auto
qed simp

lemma wf_ins_range: "a \<le> b \<Longrightarrow> wf_ranges xs \<Longrightarrow> wf_ranges (ins_range a b xs)"
proof (induction a b xs rule: ins_range.induct)
  case (2 a b s e xs)
  then have "e < a \<Longrightarrow> \<forall>r \<in> set (ins_range a b xs). e < fst r"
    using ins_range_lower [of xs "Suc e" a b] by (auto simp: wf_ranges_Cons Suc_le_eq)
  with 2 show ?case by (auto simp: wf_ranges_Cons intro!: wf_merge_suffix)
qed (simp add: wf_ranges_Cons)

lemma points_ins_range:
  "a \<le> b \<Longrightarrow> wf_ranges xs \<Longrightarrow> points (ins_range a b xs) = rpoints (a, b) \<union> points xs"
proof (induction a b xs rule: ins_range.induct)
  case (2 a b s e xs)
  then have wf: "wf_ranges xs" "\<forall>r \<in> set xs. e < fst r" "s \<le> e" "a \<le> b"
    by (auto simp: wf_ranges_Cons)
  have "\<not> e < a \<Longrightarrow> e < b \<Longrightarrow> points (merge_suffix (min a s) b xs) = rpoints (min a s, b) \<union> points xs"
    using wf by (intro points_merge_suffix) auto
  moreover have "\<not> e < a \<Longrightarrow> e < b \<Longrightarrow> rpoints (min a s, b) = rpoints (a, b) \<union> rpoints (s, e)"
    using wf by (auto simp: rpoints_def)
  moreover have "\<not> e < a \<Longrightarrow> \<not> b < s \<Longrightarrow> \<not> e < b \<Longrightarrow>
      rpoints (min a s, e) = rpoints (a, b) \<union> rpoints (s, e)"
    using wf by (auto simp: rpoints_def)
  ultimately show ?case using 2 wf by auto
qed simp

section \<open>The inline loops insert structurally\<close>

lemma inline_merge_append:
  "inline_merge (pre @ (a, b) # suf) (length pre) b = pre @ merge_suffix a b suf"
proof (induction a b suf rule: merge_suffix.induct)
  case (1 a b)
  then show ?case by (simp add: inline_merge.simps)
next
  case (2 a b s e xs)
  have "vec_remove (Suc (length pre)) (pre @ (a, m) # (s, e) # xs) = pre @ (a, m) # xs" for m
    by (simp add: vec_remove_def)
  with 2 show ?case
    by (subst inline_merge.simps) (simp add: nth_append list_update_append)
qed

lemma inline_insert_at_append:
  "length (pre @ xs) \<noteq> capacity \<Longrightarrow>
     inline_insert_at (pre @ xs) capacity a b (length pre) = Inr (pre @ ins_range a b xs)"
proof (induction xs arbitrary: pre)
  case Nil
  then show ?case by (simp add: inline_insert_at.simps)
next
  case (Cons r xs)
  obtain s e where r: "r = (s, e)" by (cases r)
  have "e < a \<Longrightarrow> inline_insert_at (pre @ (s, e) # xs) capacity a b (Suc (length pre)) =
      Inr (pre @ (s, e) # ins_range a b xs)"
    using Cons.IH [of "pre @ [(s, e)]"] Cons.prems r by simp
  then show ?case using Cons.prems r
    by (subst inline_insert_at.simps)
      (simp add: nth_append list_update_append inline_merge_append vec_insert_def min_def)
qed

lemma InlineRangeSet_insert_eq:
  "length (i_inner rset) \<noteq> i_capacity rset \<Longrightarrow>
     InlineRangeSet_insert (a, b) rset = Inr (rset\<lparr>i_inner := ins_range a b (i_inner rset)\<rparr>)"
  using inline_insert_at_append [of "[]" "i_inner rset" "i_capacity rset" a b]
  by (simp add: InlineRangeSet_insert_def)

section \<open>The map variant inserts structurally\<close>

lemma wf_ranges_bt_wf: "wf_ranges m \<Longrightarrow> bt_wf m"
proof (induction m)
  case (Cons r m)
  then show ?case by (cases r) (force simp: wf_ranges_Cons bt_wf_Cons)
qed simp

lemma wf_ranges_iff:
  "wf_ranges m \<longleftrightarrow> bt_wf m \<and> (\<forall>r \<in> set m. fst r \<le> snd r) \<and>
     (\<forall>r \<in> set m. \<forall>r' \<in> set m. fst r < fst r' \<longrightarrow> snd r < fst r')"
proof (induction m)
  case (Cons r m)
  show ?case
  proof
    assume wf: "wf_ranges (r # m)"
    then show "bt_wf (r # m) \<and> (\<forall>x \<in> set (r # m). fst x \<le> snd x) \<and>
        (\<forall>x \<in> set (r # m). \<forall>y \<in> set (r # m). fst x < fst y \<longrightarrow> snd x < fst y)"
      using Cons.IH wf_ranges_bt_wf [OF wf] by (force simp: wf_ranges_Cons)
  next
    assume "bt_wf (r # m) \<and> (\<forall>x \<in> set (r # m). fst x \<le> snd x) \<and>
        (\<forall>x \<in> set (r # m). \<forall>y \<in> set (r # m). fst x < fst y \<longrightarrow> snd x < fst y)"
    then show "wf_ranges (r # m)"
      using Cons.IH by (cases r) (force simp: wf_ranges_Cons bt_wf_Cons)
  qed
qed simp

lemma wf_ranges_remove: "wf_ranges m \<Longrightarrow> wf_ranges (bt_remove k m)"
  by (simp add: wf_ranges_iff bt_wf_remove set_bt_remove)

lemma bt_key_unique: "bt_wf m \<Longrightarrow> r \<in> set m \<Longrightarrow> r' \<in> set m \<Longrightarrow> fst r = fst r' \<Longrightarrow> r = r'"
  by (metis bt_get_Some_iff option.inject prod.collapse)

lemma points_remove:
  "bt_wf m \<Longrightarrow> r \<in> set m \<Longrightarrow> points m = rpoints r \<union> points (bt_remove (fst r) m)"
  by (auto simp: points_def set_bt_remove dest: bt_key_unique)

lemma bt_first_filter_Some:
  assumes "bt_wf m" "bt_first (filter P m) = Some r"
  shows "r \<in> set m \<and> P r \<and> (\<forall>r' \<in> set m. P r' \<longrightarrow> fst r \<le> fst r')"
proof -
  obtain rs where rs: "filter P m = r # rs"
    using assms(2) by (auto simp: bt_first_def split: list.splits)
  have "bt_wf (r # rs)" using bt_wf_filter [OF assms(1), of P] rs by simp
  then have "\<forall>r' \<in> set (filter P m). fst r \<le> fst r'"
    unfolding rs by (cases r) (force simp: bt_wf_Cons)
  moreover have "r \<in> set (filter P m)" by (simp add: rs)
  ultimately show ?thesis by auto
qed

lemma bt_first_None: "bt_first m = None \<longleftrightarrow> m = []"
  by (simp add: bt_first_def split: list.splits)

lemma bt_last_filter_Some:
  assumes "bt_wf m" "bt_last (filter P m) = Some r"
  shows "r \<in> set m \<and> P r \<and> (\<forall>r' \<in> set m. P r' \<longrightarrow> fst r' \<le> fst r)"
proof -
  obtain rs where rs: "filter P m = rs @ [r]"
    using assms(2) by (auto simp: bt_last_def split: if_splits) (metis append_butlast_last_id)
  have "bt_wf (rs @ [r])" using bt_wf_filter [OF assms(1), of P] rs by simp
  then have "\<forall>r' \<in> set (filter P m). fst r' \<le> fst r"
    unfolding rs by (auto simp: bt_wf_def sorted_wrt_append)
  moreover have "r \<in> set (filter P m)" by (simp add: rs)
  ultimately show ?thesis by auto
qed

text \<open>The state of the merge loop: the ranges below the growing range do not touch it, and
  the end grew only if nothing follows within it.\<close>

definition merge_inv :: "nat \<Rightarrow> nat \<Rightarrow> nat \<Rightarrow> nat \<Rightarrow> range list \<Rightarrow> bool" where
  "merge_inv a b start en m \<longleftrightarrow>
     wf_ranges m \<and> start \<le> a \<and> a \<le> b \<and> b \<le> en \<and>
     (\<forall>r \<in> set m. fst r < start \<longrightarrow> snd r < start) \<and>
     (\<forall>r \<in> set m. start \<le> fst r \<longrightarrow> a < fst r) \<and>
     (en = b \<or> (\<forall>r \<in> set m. start \<le> fst r \<longrightarrow> en < fst r))"

definition merge_done :: "nat \<Rightarrow> nat \<Rightarrow> range list \<Rightarrow> nat \<times> nat \<times> range list \<Rightarrow> bool" where
  "merge_done start en m res \<longleftrightarrow>
     (case res of (start', en', m') \<Rightarrow>
        start' = start \<and> en \<le> en' \<and> wf_ranges m' \<and>
        (\<forall>r \<in> set m'. snd r < start \<or> en' < fst r) \<and>
        rpoints (start, en') \<union> points m' = rpoints (start, en) \<union> points m \<and>
        (m' = m \<and> en' = en \<or> length m' < length m))"

lemma merge_step_remove:
  assumes "merge_inv a b start en m" "r \<in> set m" "a < fst r" "snd r < b"
    and "merge_done start en (bt_remove (fst r) m) res" "length (bt_remove (fst r) m) < length m"
  shows "merge_done start en m res"
proof -
  have "bt_wf m" "start \<le> fst r" "snd r \<le> en"
    using assms(1,3,4) by (auto simp: merge_inv_def wf_ranges_bt_wf)
  then have "points m = rpoints r \<union> points (bt_remove (fst r) m)" "rpoints r \<subseteq> rpoints (start, en)"
    using points_remove [of m r] assms(2) by (auto simp: rpoints_def)
  then show ?thesis using assms(5,6) by (auto simp: merge_done_def)
qed

lemma merge_step_extend:
  assumes "merge_inv a b start en m" "r \<in> set m" "a < fst r" "fst r \<le> b" "b \<le> snd r"
    and "merge_done start (max en (snd r)) (bt_remove (fst r) m) res"
    and "length (bt_remove (fst r) m) < length m"
  shows "merge_done start en m res"
proof -
  have wf: "bt_wf m" "start \<le> fst r" "fst r \<le> en"
    using assms(1,3,4) by (auto simp: merge_inv_def wf_ranges_bt_wf)
  then have "points m = rpoints r \<union> points (bt_remove (fst r) m)"
    using points_remove [of m r] assms(2) by simp
  moreover have "rpoints (start, en) \<union> rpoints r = rpoints (start, max en (snd r))"
    using rpoints_union [of start "fst r" en "snd r"] wf by (simp add: max.commute)
  ultimately show ?thesis using assms(6,7) by (auto simp: merge_done_def)
qed

lemma merge_inv_next:
  assumes inv: "merge_inv a b start en m" and r: "r \<in> set m" "start \<le> fst r"
    and least: "\<forall>r' \<in> set m. start \<le> fst r' \<longrightarrow> fst r \<le> fst r'"
  shows "range_contains (a, b) (fst r) \<Longrightarrow> range_contains (a, b) (snd r) \<Longrightarrow>
           merge_inv a b start en (bt_remove (fst r) m)" (is "?c1 \<Longrightarrow> ?c2 \<Longrightarrow> ?A")
    and "range_overlaps r (a, b) \<Longrightarrow> fst r \<le> b \<and> b \<le> snd r \<and>
           merge_inv a b start (max en (snd r)) (bt_remove (fst r) m)"
    and "\<not> (range_contains (a, b) (fst r) \<and> range_contains (a, b) (snd r)) \<Longrightarrow>
           \<not> range_overlaps r (a, b) \<Longrightarrow> en < fst r"
proof -
  have wfm: "wf_ranges m" using inv by (simp add: merge_inv_def)
  have wf: "bt_wf m" "wf_ranges (bt_remove (fst r) m)"
    using wfm by (simp_all add: wf_ranges_bt_wf wf_ranges_remove)
  have rem: "set (bt_remove (fst r) m) = {x \<in> set m. fst x \<noteq> fst r}"
    by (rule set_bt_remove [OF wf(1)])
  have ar: "a < fst r" "fst r \<le> snd r"
    using inv r wfm by (simp_all add: merge_inv_def wf_ranges_def)
  show "?c1 \<Longrightarrow> ?c2 \<Longrightarrow> ?A"
    using inv wf(2) unfolding merge_inv_def rem by auto
  have after: "\<forall>x \<in> set (bt_remove (fst r) m). start \<le> fst x \<longrightarrow> snd r < fst x"
  proof (intro ballI impI)
    fix x assume "x \<in> set (bt_remove (fst r) m)" "start \<le> fst x"
    with least have "x \<in> set m" "fst r < fst x" by (auto simp: rem le_neq_implies_less)
    with wfm r(1) show "snd r < fst x" by (simp add: wf_ranges_iff)
  qed
  show "range_overlaps r (a, b) \<Longrightarrow> fst r \<le> b \<and> b \<le> snd r \<and>
           merge_inv a b start (max en (snd r)) (bt_remove (fst r) m)"
  proof -
    assume "range_overlaps r (a, b)"
    then have b: "fst r \<le> b" "b \<le> snd r" using ar by (auto simp: range_overlaps_def)
    then have "en = b" using inv r by (auto simp: merge_inv_def)
    with b inv wf(2) after show ?thesis unfolding merge_inv_def by (auto simp: rem)
  qed
  show "\<not> (range_contains (a, b) (fst r) \<and> range_contains (a, b) (snd r)) \<Longrightarrow>
           \<not> range_overlaps r (a, b) \<Longrightarrow> en < fst r"
    using inv r ar by (auto simp: merge_inv_def range_contains_def range_overlaps_def)
qed

lemma btree_merge_correct:
  "merge_inv a b start en m \<Longrightarrow> merge_done start en m (btree_merge (a, b) start en m)"
proof (induction "(a, b)" start en m rule: btree_merge.induct)
  case (1 start en m)
  note inv = \<open>merge_inv a b start en m\<close>
  have wf: "bt_wf m" using inv by (simp add: merge_inv_def wf_ranges_bt_wf)
  show ?case
  proof (cases "BTreeRangeSet_next_to start m")
    case None
    then have "\<forall>r \<in> set m. fst r < start"
      by (force simp: BTreeRangeSet_next_to_def bt_first_None bt_from_def filter_empty_conv)
    with inv None show ?thesis
      by (subst btree_merge.simps) (auto simp: merge_done_def merge_inv_def)
  next
    case (Some r)
    have r: "r \<in> set m" "start \<le> fst r" "\<forall>r' \<in> set m. start \<le> fst r' \<longrightarrow> fst r \<le> fst r'"
      using bt_first_filter_Some [OF wf, of "\<lambda>p. start \<le> fst p" r] Some
      by (auto simp: BTreeRangeSet_next_to_def bt_from_def)
    have ar: "a < fst r" using inv r by (auto simp: merge_inv_def)
    note nxt = merge_inv_next [OF inv r] and len = next_to_length [OF Some]
    consider (rem) "range_contains (a, b) (fst r) \<and> range_contains (a, b) (snd r)"
      | (stop) "\<not> (range_contains (a, b) (fst r) \<and> range_contains (a, b) (snd r))"
          "\<not> range_overlaps r (a, b)"
      | (ext) "\<not> (range_contains (a, b) (fst r) \<and> range_contains (a, b) (snd r))"
          "range_overlaps r (a, b)" by blast
    then show ?thesis
    proof cases
      case rem
      then have "merge_done start en (bt_remove (fst r) m) (btree_merge (a, b) start en (bt_remove (fst r) m))"
        using "1.hyps"(1) [OF Some] nxt(1) by simp
      then have "merge_done start en m (btree_merge (a, b) start en (bt_remove (fst r) m))"
        using merge_step_remove [OF inv r(1) ar _ _ len] rem by (auto simp: range_contains_def)
      with rem Some show ?thesis by (subst btree_merge.simps) simp
    next
      case stop
      then have "\<forall>x \<in> set m. snd x < start \<or> en < fst x"
        using nxt(3) inv r(3) by (force simp: merge_inv_def)
      with stop Some inv show ?thesis
        by (subst btree_merge.simps) (auto simp: merge_done_def merge_inv_def)
    next
      case ext
      have min: "min start (fst r) = start" using r(2) by simp
      have "merge_done start (max en (snd r)) (bt_remove (fst r) m)
          (btree_merge (a, b) start (max en (snd r)) (bt_remove (fst r) m))"
        using "1.hyps"(2) [OF Some] ext nxt(2) by (simp add: min)
      then have "merge_done start en m (btree_merge (a, b) start (max en (snd r)) (bt_remove (fst r) m))"
        using merge_step_extend [OF inv r(1) ar _ _ _ len] nxt(2) [OF ext(2)] by simp
      moreover have "btree_merge (a, b) start en m =
          btree_merge (a, b) start (max en (snd r)) (bt_remove (fst r) m)"
        by (subst btree_merge.simps) (simp only: Some option.case ext if_False not_True_eq_False min)
      ultimately show ?thesis by (simp only:)
    qed
  qed
qed


definition merge_start :: "range \<Rightarrow> range list \<Rightarrow> nat \<times> nat \<times> range list" where
  "merge_start item m =
     (case BTreeRangeSet_prev_to (fst item) m of
        None \<Rightarrow> (fst item, snd item, m)
      | Some r \<Rightarrow>
          if range_overlaps r item
          then (min (fst item) (fst r), max (snd item) (snd r), bt_remove (fst r) m)
          else (fst item, snd item, m))"

lemma merge_start_inv:
  assumes wf: "wf_ranges m" and ab: "a \<le> b" and st: "merge_start (a, b) m = (start, en, m1)"
  shows "merge_inv a b start en m1 \<and>
    rpoints (start, en) \<union> points m1 = rpoints (a, b) \<union> points m \<and>
    (m1 = m \<and> start = a \<and> en = b \<or> length m1 < length m)"
proof (cases "BTreeRangeSet_prev_to a m")
  case None
  then have "\<forall>r \<in> set m. a < fst r"
    by (auto simp: BTreeRangeSet_prev_to_def bt_last_def bt_upto_def filter_empty_conv
        split: if_splits)
  with None wf ab st show ?thesis by (auto simp: merge_start_def merge_inv_def)
next
  case (Some r)
  have bt: "bt_wf m" by (rule wf_ranges_bt_wf [OF wf])
  have r: "r \<in> set m" "fst r \<le> a" "\<forall>x \<in> set m. fst x \<le> a \<longrightarrow> fst x \<le> fst r"
    using bt_last_filter_Some [OF bt, of "\<lambda>p. fst p \<le> a" r] Some
    by (auto simp: BTreeRangeSet_prev_to_def bt_upto_def)
  have sep: "x \<in> set m \<Longrightarrow> y \<in> set m \<Longrightarrow> fst x < fst y \<Longrightarrow> snd x < fst y" for x y
    using wf by (simp add: wf_ranges_iff)
  have rr: "fst r \<le> snd r" using wf r(1) by (simp add: wf_ranges_def)
  have above: "a < fst x" if "x \<in> set m" "fst r < fst x" for x
    using r(3) that by (meson leD leI)
  show ?thesis
  proof (cases "a \<le> snd r")
    case True
    then have "range_overlaps r (a, b)" using r(2) by (simp add: range_overlaps_def)
    then have eq: "start = fst r" "en = max b (snd r)" "m1 = bt_remove (fst r) m"
      using st Some r(2) by (auto simp: merge_start_def)
    have mem: "x \<in> set m1 \<longleftrightarrow> x \<in> set m \<and> fst x \<noteq> fst r" for x
      by (simp add: eq set_bt_remove [OF bt])
    have up: "a < fst x \<and> snd r < fst x" if "x \<in> set m1" "fst r \<le> fst x" for x
      using that mem above sep r(1) by (metis le_neq_implies_less)
    have "merge_inv a b start en m1"
      unfolding merge_inv_def
    proof (intro conjI)
      show "wf_ranges m1" by (simp add: eq wf_ranges_remove [OF wf])
      show "\<forall>x \<in> set m1. fst x < start \<longrightarrow> snd x < start"
        using mem sep r(1) by (simp add: eq(1))
      show "\<forall>x \<in> set m1. start \<le> fst x \<longrightarrow> a < fst x" using up by (simp add: eq(1))
      show "en = b \<or> (\<forall>x \<in> set m1. start \<le> fst x \<longrightarrow> en < fst x)"
        using up by (cases "snd r \<le> b") (simp_all add: eq(1,2))
    qed (use r(2) ab eq in auto)
    moreover have "rpoints (start, en) = rpoints (a, b) \<union> rpoints r"
      using True r(2) ab rr by (auto simp: eq rpoints_def)
    moreover have "length m1 < length m"
      using length_bt_remove [of m "fst r"] r(1)
      by (force simp: eq bt_contains_def bt_get_None_iff)
    ultimately show ?thesis
      using points_remove [OF bt r(1)] by (auto simp: eq(3))
  next
    case False
    then have "\<not> range_overlaps r (a, b)" using r(2) ab by (simp add: range_overlaps_def)
    then have eq: "start = a" "en = b" "m1 = m"
      using st Some by (auto simp: merge_start_def)
    have low: "snd x < a" if "x \<in> set m" "fst x \<le> a" for x
    proof (cases "fst x < fst r")
      case True
      with sep [OF that(1) r(1)] r(2) show ?thesis by simp
    next
      case nl: False
      with r(3) that have "fst x = fst r" by (simp add: order_antisym)
      with bt_key_unique [OF bt that(1) r(1)] False show ?thesis by simp
    qed
    have "merge_inv a b start en m1"
      unfolding merge_inv_def eq
    proof (intro conjI)
      show "\<forall>x \<in> set m. a \<le> fst x \<longrightarrow> a < fst x"
        using low wf by (metis leD le_neq_implies_less order_refl wf_ranges_def le_trans)
    qed (use wf ab low in auto)
    then show ?thesis by (simp add: eq)
  qed
qed

lemma points_bt_insert:
  "bt_wf m \<Longrightarrow> \<forall>r \<in> set m. fst r \<noteq> k \<Longrightarrow> points (bt_insert k v m) = rpoints (k, v) \<union> points m"
  by (auto simp: points_def set_bt_insert)

lemma wf_ranges_bt_insert:
  assumes "wf_ranges m" "s \<le> e" "\<forall>r \<in> set m. snd r < s \<or> e < fst r"
  shows "wf_ranges (bt_insert s e m)"
proof -
  have bt: "bt_wf m" by (rule wf_ranges_bt_wf [OF assms(1)])
  have "fst r \<le> snd r" if "r \<in> set m" for r using assms(1) that by (simp add: wf_ranges_def)
  with assms show ?thesis
    by (fastforce simp: wf_ranges_iff bt_wf_insert set_bt_insert [OF bt])
qed

lemma btree_insert_range_eq:
  assumes wf: "wf_ranges m" and ab: "a \<le> b" and cap: "length m \<le> capacity"
  shows "btree_insert_range (a, b) capacity m =
    (if length (ins_range a b m) \<le> capacity then ins_range a b m else bt_insert a b (tl m))"
proof -
  obtain start en m1 where st: "merge_start (a, b) m = (start, en, m1)" by (metis prod_cases3)
  obtain start' en' m2 where mg: "btree_merge (a, b) start en m1 = (start', en', m2)"
    by (metis prod_cases3)
  note inv = merge_start_inv [OF wf ab st]
  have dn: "merge_done start en m1 (start', en', m2)"
    using btree_merge_correct [of a b start en m1] inv mg by simp
  have wf2: "wf_ranges m2" and sep: "\<forall>r \<in> set m2. snd r < start \<or> en' < fst r"
    and s': "start' = start" and len: "start \<le> en'"
    using dn inv by (auto simp: merge_done_def merge_inv_def)
  have bt2: "bt_wf m2" by (rule wf_ranges_bt_wf [OF wf2])
  have ne: "\<forall>r \<in> set m2. fst r \<noteq> start"
  proof
    fix r assume r: "r \<in> set m2"
    then have "fst r \<le> snd r" using wf2 by (simp add: wf_ranges_def)
    then show "fst r \<noteq> start" using sep r len by fastforce
  qed
  have full: "bt_insert start en' m2 = ins_range a b m"
  proof (rule wf_ranges_points_inj)
    show "wf_ranges (bt_insert start en' m2)" by (rule wf_ranges_bt_insert [OF wf2 len sep])
    show "wf_ranges (ins_range a b m)" by (rule wf_ins_range [OF ab wf])
    show "points (bt_insert start en' m2) = points (ins_range a b m)"
      using dn inv
      by (simp add: points_bt_insert [OF bt2 ne] points_ins_range [OF ab wf] merge_done_def)
  qed
  have "length (bt_insert start en' m2) = Suc (length m2)"
  proof -
    have "distinct (map fst (bt_insert start en' m2))" "distinct (map fst m2)"
      using bt2 bt_wf_insert [OF bt2] by (simp_all add: bt_wf_def strict_sorted_iff)
    then have "length (bt_insert start en' m2) = card (fst ` set (bt_insert start en' m2))"
      "length m2 = card (fst ` set m2)"
      by (metis distinct_card length_map list.set_map)+
    moreover have "fst ` set (bt_insert start en' m2) = insert start (fst ` set m2)"
      using ne by (force simp: set_bt_insert [OF bt2])
    ultimately show ?thesis using ne by (auto simp: card_insert_if)
  qed
  then have small: "length (ins_range a b m) \<le> capacity \<longleftrightarrow> length m2 < capacity"
    using full by (simp add: Suc_le_eq)
  have evict: "capacity \<le> length m2 \<Longrightarrow> m2 = m \<and> start = a \<and> en' = b"
    using dn inv cap by (auto simp: merge_done_def)
  have "btree_insert_range (a, b) capacity m =
      bt_insert start' en' (if length m2 \<ge> capacity then tl m2 else m2)"
    using st mg by (simp add: btree_insert_range_def merge_start_def)
  then show ?thesis using small full evict s' by auto
qed

section \<open>Range sets in use\<close>

text \<open>The state that every operation keeps. With a capacity of at least four, the inline
  variant, which holds at most three ranges, is never full, and its eviction path is dead.\<close>

fun rs_capacity :: "range_set \<Rightarrow> nat" where
  "rs_capacity (Inline rset) = i_capacity rset"
| "rs_capacity (BTree rset) = t_capacity rset"

fun rs_small :: "range_set \<Rightarrow> bool" where
  "rs_small (Inline rset) \<longleftrightarrow> length (i_inner rset) < MAX_INLINE_CAPACITY"
| "rs_small (BTree rset) \<longleftrightarrow> True"

definition rs_ok :: "range_set \<Rightarrow> bool" where
  "rs_ok rset \<longleftrightarrow> wf_ranges (RangeSet_iter rset) \<and> rs_small rset \<and>
     4 \<le> rs_capacity rset \<and> length (RangeSet_iter rset) \<le> rs_capacity rset"

definition rs_covered :: "range_set \<Rightarrow> nat set" where
  "rs_covered rset = covered (RangeSet_iter rset)"

lemma length_merge_suffix: "length (merge_suffix a b xs) \<le> Suc (length xs)"
  by (induction a b xs rule: merge_suffix.induct) auto

lemma length_ins_range: "length (ins_range a b xs) \<le> Suc (length xs)"
proof (induction a b xs rule: ins_range.induct)
  case (2 a b s e xs)
  then show ?case using length_merge_suffix [of "min a s" b xs] by auto
qed simp

lemma ins_range_new:
  "length xs < length (ins_range a b xs) \<Longrightarrow> wf_ranges xs \<Longrightarrow> a \<le> b \<Longrightarrow>
     \<forall>r \<in> set xs. snd r < a \<or> b < fst r"
proof (induction a b xs rule: ins_range.induct)
  case (2 a b s e xs)
  then show ?case using length_merge_suffix [of "min a s" b xs]
    by (fastforce simp: wf_ranges_Cons split: if_splits)
qed simp

lemma bt_of_list_snoc: "bt_of_list (xs @ [(k, v)]) = bt_insert k v (bt_of_list xs)"
  by (simp add: bt_of_list_def)

lemma bt_insert_last: "\<forall>p \<in> set m. fst p < k \<Longrightarrow> bt_insert k v m = m @ [(k, v)]"
  by (induction k v m rule: bt_insert.induct) auto

lemma bt_of_list_id: "bt_wf xs \<Longrightarrow> bt_of_list xs = xs"
proof (induction xs rule: rev_induct)
  case Nil
  then show ?case by (simp add: bt_of_list_def)
next
  case (snoc p xs)
  then have "bt_wf xs" "\<forall>q \<in> set xs. fst q < fst p"
    by (auto simp: bt_wf_def sorted_wrt_append)
  with snoc.IH show ?case
    by (cases p) (simp add: bt_of_list_snoc bt_insert_last)
qed

text \<open>The list of ranges after an insertion: the merged list, or the list without its smallest
  range when a new range does not fit.\<close>

definition ins_capped :: "nat \<Rightarrow> range \<Rightarrow> range list \<Rightarrow> range list" where
  "ins_capped capacity r xs =
     (if length (ins_range (fst r) (snd r) xs) \<le> capacity
      then ins_range (fst r) (snd r) xs else bt_insert (fst r) (snd r) (tl xs))"

lemma wf_ranges_tl: "wf_ranges xs \<Longrightarrow> wf_ranges (tl xs)"
  by (cases xs) (simp_all add: wf_ranges_Cons)

lemma ins_capped_evict:
  assumes "wf_ranges xs" "a \<le> b" "length xs \<le> capacity" "\<not> length (ins_range a b xs) \<le> capacity"
  shows "\<forall>r \<in> set xs. snd r < a \<or> b < fst r" "\<forall>r \<in> set (tl xs). fst r \<noteq> a"
    "\<forall>r \<in> set (tl xs). snd r < a \<or> b < fst r"
proof -
  show new: "\<forall>r \<in> set xs. snd r < a \<or> b < fst r"
    using ins_range_new [of xs a b] assms length_ins_range [of a b xs] by simp
  then show tl: "\<forall>r \<in> set (tl xs). snd r < a \<or> b < fst r"
    by (cases xs) auto
  show "\<forall>r \<in> set (tl xs). fst r \<noteq> a"
    using tl wf_ranges_tl [OF assms(1)] assms(2) by (fastforce simp: wf_ranges_def)
qed

lemma ins_capped_props:
  assumes "wf_ranges xs" "a \<le> b" "length xs \<le> capacity" "0 < capacity"
  shows "wf_ranges (ins_capped capacity (a, b) xs)"
    and "length (ins_capped capacity (a, b) xs) \<le> capacity"
    and "points (ins_capped capacity (a, b) xs) \<subseteq> rpoints (a, b) \<union> points xs"
    and "rpoints (a, b) \<subseteq> points (ins_capped capacity (a, b) xs)"
    and "length xs < capacity \<Longrightarrow> points (ins_capped capacity (a, b) xs) = rpoints (a, b) \<union> points xs"
proof -
  note ev = ins_capped_evict [OF assms(1-3)]
  have tl: "wf_ranges (tl xs)" "bt_wf (tl xs)" "points (tl xs) \<subseteq> points xs"
    using wf_ranges_tl [OF assms(1)] by (simp_all add: wf_ranges_bt_wf) (cases xs, auto)
  have pe: "points (bt_insert a b (tl xs)) = rpoints (a, b) \<union> points (tl xs)"
    if "\<not> length (ins_range a b xs) \<le> capacity"
    by (rule points_bt_insert [OF tl(2) ev(2) [OF that]])
  show "wf_ranges (ins_capped capacity (a, b) xs)"
    using wf_ins_range [OF assms(2,1)] wf_ranges_bt_insert [OF tl(1) assms(2) ev(3)]
    by (simp add: ins_capped_def)
  show "length (ins_capped capacity (a, b) xs) \<le> capacity"
    using length_bt_insert_le [of a b "tl xs"] assms by (cases xs) (auto simp: ins_capped_def)
  show "points (ins_capped capacity (a, b) xs) \<subseteq> rpoints (a, b) \<union> points xs"
    using pe tl(3) by (auto simp: ins_capped_def points_ins_range [OF assms(2,1)])
  show "rpoints (a, b) \<subseteq> points (ins_capped capacity (a, b) xs)"
    using pe by (auto simp: ins_capped_def points_ins_range [OF assms(2,1)])
  show "length xs < capacity \<Longrightarrow> points (ins_capped capacity (a, b) xs) = rpoints (a, b) \<union> points xs"
    using length_ins_range [of a b xs] by (simp add: ins_capped_def points_ins_range [OF assms(2,1)])
qed

lemma RangeSet_fixup_iter:
  assumes "wf_ranges (RangeSet_iter rset)"
    and "case rset of Inline s \<Rightarrow> length (i_inner s) \<le> MAX_INLINE_CAPACITY | BTree _ \<Rightarrow> True"
  shows "RangeSet_iter (RangeSet_fixup rset) = RangeSet_iter rset"
    "rs_small (RangeSet_fixup rset)" "rs_capacity (RangeSet_fixup rset) = rs_capacity rset"
  using assms by (cases rset; simp add: bt_of_list_id wf_ranges_bt_wf)+

lemma RangeSet_insert_iter:
  assumes ok: "rs_ok rset" and ab: "a \<le> b"
  shows "\<exists>rset'. RangeSet_insert (a, b) rset = Inr rset' \<and> rs_small rset' \<and>
    rs_capacity rset' = rs_capacity rset \<and>
    RangeSet_iter rset' = ins_capped (rs_capacity rset) (a, b) (RangeSet_iter rset)"
proof (cases rset)
  case (Inline s)
  have len: "length (i_inner s) < 4" "length (i_inner s) < i_capacity s" "wf_ranges (i_inner s)"
    using ok Inline by (auto simp: rs_ok_def)
  let ?s = "Inline (s\<lparr>i_inner := ins_range a b (i_inner s)\<rparr>)"
  have "ins_capped (i_capacity s) (a, b) (i_inner s) = ins_range a b (i_inner s)"
    using len(2) length_ins_range [of a b "i_inner s"] by (simp add: ins_capped_def)
  moreover have "RangeSet_insert (a, b) rset = Inr (RangeSet_fixup ?s)"
    using len Inline by (simp add: InlineRangeSet_insert_eq)
  moreover have "wf_ranges (RangeSet_iter ?s)" "length (ins_range a b (i_inner s)) \<le> 4"
    using wf_ins_range [OF ab len(3)] length_ins_range [of a b "i_inner s"] len(1) by simp_all
  moreover note RangeSet_fixup_iter [of ?s]
  ultimately show ?thesis
    using Inline by (simp del: RangeSet_fixup.simps RangeSet_insert.simps)
next
  case (BTree s)
  have len: "length (t_inner s) \<le> t_capacity s" "wf_ranges (t_inner s)" "0 < t_capacity s"
    using ok BTree by (auto simp: rs_ok_def)
  let ?xs = "ins_capped (t_capacity s) (a, b) (t_inner s)"
  let ?s = "BTree (s\<lparr>t_inner := ?xs\<rparr>)"
  have "btree_insert_range (a, b) (t_capacity s) (t_inner s) = ?xs"
    using btree_insert_range_eq [OF len(2) ab len(1)] by (simp add: ins_capped_def)
  then have "RangeSet_insert (a, b) rset = Inr (RangeSet_fixup ?s)"
    using BTree by (simp add: BTreeRangeSet_insert_def)
  then show ?thesis
    using RangeSet_fixup_iter [of ?s] ins_capped_props(1) [OF len(2) ab len(1,3)] BTree
    by (simp del: RangeSet_fixup.simps RangeSet_insert.simps)
qed

lemma rs_ok_default [simp]: "rs_ok RangeSet_default"
  by (simp add: rs_ok_def RangeSet_default_def)

lemma rs_ok_new [simp]: "4 \<le> capacity \<Longrightarrow> rs_ok (RangeSet_new capacity)"
  by (simp add: rs_ok_def RangeSet_new_def)

lemma rs_ok_insert:
  assumes "rs_ok rset" "a \<le> b" "RangeSet_insert (a, b) rset = Inr rset'"
  shows "rs_ok rset' \<and> rs_capacity rset' = rs_capacity rset \<and>
    RangeSet_iter rset' = ins_capped (rs_capacity rset) (a, b) (RangeSet_iter rset)"
proof -
  have pre: "wf_ranges (RangeSet_iter rset)" "length (RangeSet_iter rset) \<le> rs_capacity rset"
    "0 < rs_capacity rset" "4 \<le> rs_capacity rset"
    using assms(1) by (auto simp: rs_ok_def)
  show ?thesis
    using RangeSet_insert_iter [OF assms(1,2)] assms(3)
      ins_capped_props(1,2) [OF pre(1) assms(2) pre(2,3)] pre(4)
    by (auto simp: rs_ok_def)
qed

section \<open>The interface of a range set\<close>

text \<open>What the users of a range set rely on: the acknowledgment state, the reassembly buffers
  and the frame parser insert ranges one after the other. An insertion never fails, adds the
  range, adds nothing else, and forgets nothing while the set has room.\<close>

locale range_store =
  fixes ins :: "range \<Rightarrow> 's \<Rightarrow> 's result"
    and ranges :: "'s \<Rightarrow> range list"
    and ok :: "'s \<Rightarrow> bool"
    and capacity :: "'s \<Rightarrow> nat"
  assumes ok_wf: "ok s \<Longrightarrow> wf_ranges (ranges s)"
    and ins_total: "ok s \<Longrightarrow> a \<le> b \<Longrightarrow>
      \<exists>s'. ins (a, b) s = Inr s' \<and> ok s' \<and> capacity s' = capacity s"
    and ins_sound: "ok s \<Longrightarrow> a \<le> b \<Longrightarrow> ins (a, b) s = Inr s' \<Longrightarrow>
      points (ranges s') \<subseteq> rpoints (a, b) \<union> points (ranges s)"
    and ins_added: "ok s \<Longrightarrow> a \<le> b \<Longrightarrow> ins (a, b) s = Inr s' \<Longrightarrow>
      rpoints (a, b) \<subseteq> points (ranges s')"
    and ins_room: "ok s \<Longrightarrow> a \<le> b \<Longrightarrow> ins (a, b) s = Inr s' \<Longrightarrow>
      length (ranges s) < capacity s \<Longrightarrow>
      points (ranges s) \<subseteq> points (ranges s') \<and> length (ranges s') \<le> Suc (length (ranges s))"
begin

lemma ins_eq:
  assumes "ok s" "a \<le> b" "length (ranges s) < capacity s"
  shows "\<exists>s'. ins (a, b) s = Inr s' \<and> ok s' \<and> capacity s' = capacity s \<and>
    points (ranges s') = rpoints (a, b) \<union> points (ranges s) \<and>
    length (ranges s') \<le> Suc (length (ranges s))"
proof -
  obtain s' where "ins (a, b) s = Inr s'" "ok s'" "capacity s' = capacity s"
    using ins_total [OF assms(1,2)] by blast
  with ins_sound [OF assms(1,2)] ins_added [OF assms(1,2)] ins_room [OF assms(1,2)] assms(3)
  show ?thesis by blast
qed

lemma ins_list:
  assumes "ok s" "\<forall>r \<in> set rs. fst r \<le> snd r" "length (ranges s) + length rs \<le> capacity s"
  shows "\<exists>s'. fold_res ins rs s = Inr s' \<and> ok s' \<and> points (ranges s') = points rs \<union> points (ranges s)"
  using assms
proof (induction rs arbitrary: s)
  case (Cons r rs)
  obtain a b where r: "r = (a, b)" by (cases r)
  obtain s1 where s1: "ins r s = Inr s1" "ok s1" "capacity s1 = capacity s"
    "points (ranges s1) = rpoints r \<union> points (ranges s)" "length (ranges s1) \<le> Suc (length (ranges s))"
    using ins_eq [of s a b] Cons.prems r by auto
  obtain s' where "fold_res ins rs s1 = Inr s'" "ok s'"
    "points (ranges s') = points rs \<union> points (ranges s1)"
    using Cons.IH [of s1] Cons.prems s1 by auto
  with s1 show ?case by auto
qed simp

text \<open>The list of ranges does not depend on the order or the grouping of the insertions.\<close>

lemma ins_list_canonical:
  assumes "ok s" "\<forall>r \<in> set rs. fst r \<le> snd r" "length (ranges s) + length rs \<le> capacity s"
    and "ok t" "\<forall>r \<in> set rs'. fst r \<le> snd r" "length (ranges t) + length rs' \<le> capacity t"
    and "ranges s = ranges t" "points rs = points rs'"
    and "fold_res ins rs s = Inr s'" "fold_res ins rs' t = Inr t'"
  shows "ranges s' = ranges t'"
proof (rule wf_ranges_points_inj)
  have *: "ok s' \<and> points (ranges s') = points rs \<union> points (ranges s)"
    using ins_list [OF assms(1-3)] assms(9) by auto
  have **: "ok t' \<and> points (ranges t') = points rs' \<union> points (ranges t)"
    using ins_list [OF assms(4-6)] assms(10) by auto
  show "wf_ranges (ranges s')" "wf_ranges (ranges t')" using * ** ok_wf by auto
  show "points (ranges s') = points (ranges t')" using * ** assms(7,8) by auto
qed

end

interpretation rs: range_store RangeSet_insert RangeSet_iter rs_ok rs_capacity
proof
  fix s :: range_set and a b :: nat
  assume ok: "rs_ok s"
  show "wf_ranges (RangeSet_iter s)" using ok by (simp add: rs_ok_def)
  assume ab: "a \<le> b"
  have pre: "wf_ranges (RangeSet_iter s)" "length (RangeSet_iter s) \<le> rs_capacity s" "0 < rs_capacity s"
    using ok by (auto simp: rs_ok_def)
  note props = ins_capped_props [OF pre(1) ab pre(2,3)]
  show "\<exists>s'. RangeSet_insert (a, b) s = Inr s' \<and> rs_ok s' \<and> rs_capacity s' = rs_capacity s"
    using RangeSet_insert_iter [OF ok ab] rs_ok_insert [OF ok ab] by blast
  fix s' assume ins: "RangeSet_insert (a, b) s = Inr s'"
  have it: "RangeSet_iter s' = ins_capped (rs_capacity s) (a, b) (RangeSet_iter s)"
    using rs_ok_insert [OF ok ab ins] by simp
  show "points (RangeSet_iter s') \<subseteq> rpoints (a, b) \<union> points (RangeSet_iter s)"
    "rpoints (a, b) \<subseteq> points (RangeSet_iter s')"
    using props(3,4) by (simp_all add: it)
  assume room: "length (RangeSet_iter s) < rs_capacity s"
  show "points (RangeSet_iter s) \<subseteq> points (RangeSet_iter s') \<and>
      length (RangeSet_iter s') \<le> Suc (length (RangeSet_iter s))"
    using props(5) [OF room] room length_ins_range [of a b "RangeSet_iter s"]
    by (auto simp: it ins_capped_def)
qed

lemma covered_points: "covered xs = {x. 2 * x + 1 \<in> points xs}"
  by (auto simp: covered_iff)

lemma rpoints_odd: "2 * x + 1 \<in> rpoints (a, b) \<longleftrightarrow> a \<le> x \<and> x < b"
  by (auto simp: rpoints_def)

section \<open>Removal\<close>

lemma inline_remove_until_id:
  "\<forall>r \<in> set m. largest < fst r \<Longrightarrow> proper_ranges m \<Longrightarrow> inline_remove_until largest m = m"
proof (cases m)
  case (Cons r rs)
  assume "\<forall>r \<in> set m. largest < fst r" "proper_ranges m"
  with Cons show ?thesis by (cases r) (auto simp: proper_ranges_def)
qed simp

lemma proper_ranges_Cons [simp]: "proper_ranges (r # xs) \<longleftrightarrow> fst r < snd r \<and> proper_ranges xs"
  by (simp add: proper_ranges_def)

lemma inline_remove_until_props:
  "wf_ranges m \<Longrightarrow> proper_ranges m \<Longrightarrow>
     wf_ranges (inline_remove_until largest m) \<and> proper_ranges (inline_remove_until largest m) \<and>
     length (inline_remove_until largest m) \<le> length m \<and>
     covered (inline_remove_until largest m) = {x \<in> covered m. largest < x}"
proof (induction largest m rule: inline_remove_until.induct)
  case (2 largest s e rs)
  have "\<forall>x \<in> covered rs. e < x"
    using 2(2) by (fastforce simp: wf_ranges_Cons covered_def)
  with 2 show ?case by (auto simp: wf_ranges_Cons Let_def)
qed simp

lemma bt_upto_none: "\<forall>r \<in> set m. k < fst r \<Longrightarrow> bt_upto k m = []"
  by (auto simp: bt_upto_def filter_empty_conv)

lemma BTreeRangeSet_remove_until_eq:
  assumes "wf_ranges m" "proper_ranges m" "length m \<le> t_capacity rset" "largest < usize_max"
  shows "BTreeRangeSet_remove_until largest (rset\<lparr>t_inner := m\<rparr>) =
    Inr (rset\<lparr>t_inner := inline_remove_until largest m\<rparr>)"
  using assms
proof (induction m)
  case Nil
  then show ?case by (simp add: BTreeRangeSet_remove_until_def bt_upto_def)
next
  case (Cons r m)
  obtain s e where r: "r = (s, e)" by (cases r)
  have wf: "s < e" "\<forall>x \<in> set m. e < fst x" "wf_ranges m" "proper_ranges m" "length m < t_capacity rset"
    using Cons.prems r by (auto simp: wf_ranges_Cons)
  have le: "Suc largest < u64_size" using Cons.prems(4) by simp
  show ?case
  proof (cases "s \<le> largest")
    case False
    then have "\<forall>x \<in> set (r # m). largest < fst x" using wf(1,2) r by auto
    then show ?thesis
      using bt_upto_none [of "r # m" largest] inline_remove_until_id [of "r # m" largest] Cons.prems(2)
      by (simp add: BTreeRangeSet_remove_until_def)
  next
    case True
    then have up: "bt_upto largest ((s, e) # m) = (s, e) # bt_upto largest m" by (simp add: bt_upto_def)
    show ?thesis
    proof (cases "Suc largest < e")
      case True
      then have none: "bt_upto largest m = []" using wf(2) by (intro bt_upto_none) auto
      have "ins_range (Suc largest) e m = (Suc largest, e) # m"
        using wf(2,3) True by (cases m) (auto simp: wf_ranges_Cons)
      then have "btree_insert_range (Suc largest, e) (t_capacity rset) m = (Suc largest, e) # m"
        using btree_insert_range_eq [of m "Suc largest" e "t_capacity rset"] wf True by simp
      then show ?thesis
        using True le none \<open>s \<le> largest\<close>
        by (simp add: BTreeRangeSet_remove_until_def up r BTreeRangeSet_insert_def checked_add_def
            Let_def)
    next
      case False
      then have "BTreeRangeSet_remove_until largest (rset\<lparr>t_inner := r # m\<rparr>) =
          BTreeRangeSet_remove_until largest (rset\<lparr>t_inner := m\<rparr>)"
        using le by (simp add: BTreeRangeSet_remove_until_def up r checked_add_def Let_def)
      also have "\<dots> = Inr (rset\<lparr>t_inner := inline_remove_until largest m\<rparr>)"
        using Cons wf by simp
      also have "inline_remove_until largest m = inline_remove_until largest (r # m)"
      proof -
        have "inline_remove_until largest m = m" if "largest < e"
          using wf that by (intro inline_remove_until_id) auto
        then show ?thesis using False \<open>s \<le> largest\<close> r by (auto simp: Let_def)
      qed
      finally show ?thesis .
    qed
  qed
qed

lemma RangeSet_remove_until_iter:
  assumes ok: "rs_ok rset" and pr: "proper_ranges (RangeSet_iter rset)" and lim: "largest < usize_max"
  shows "\<exists>rset'. RangeSet_remove_until largest rset = Inr rset' \<and> rs_ok rset' \<and>
    RangeSet_iter rset' = inline_remove_until largest (RangeSet_iter rset)"
proof -
  have wf: "wf_ranges (RangeSet_iter rset)" using ok by (simp add: rs_ok_def)
  note props = inline_remove_until_props [OF wf pr, of largest]
  obtain s where s: "RangeSet_remove_until largest rset = Inr (RangeSet_fixup s)"
    "RangeSet_iter s = inline_remove_until largest (RangeSet_iter rset)"
    "rs_capacity s = rs_capacity rset" "rs_small s"
  proof (cases rset)
    case (Inline t)
    show ?thesis
      by (rule that [of "Inline (InlineRangeSet_remove_until largest t)"])
        (use Inline ok props in \<open>simp_all add: rs_ok_def InlineRangeSet_remove_until_def\<close>)
  next
    case (BTree t)
    have "BTreeRangeSet_remove_until largest t =
        Inr (t\<lparr>t_inner := inline_remove_until largest (t_inner t)\<rparr>)"
      using BTreeRangeSet_remove_until_eq [of "t_inner t" t largest] BTree ok pr lim
      by (simp add: rs_ok_def)
    then have "RangeSet_remove_until largest rset = Inr (RangeSet_fixup
        (BTree (t\<lparr>t_inner := inline_remove_until largest (t_inner t)\<rparr>)))"
      by (simp add: BTree del: RangeSet_fixup.simps)
    then show ?thesis by (rule that) (simp_all add: BTree)
  qed
  have "wf_ranges (RangeSet_iter s)" using s(2) props by simp
  moreover have "case s of Inline s \<Rightarrow> length (i_inner s) \<le> 4 | BTree _ \<Rightarrow> True"
    using s(4) by (cases s) simp_all
  ultimately have fixup: "RangeSet_iter (RangeSet_fixup s) = RangeSet_iter s"
    "rs_small (RangeSet_fixup s)" "rs_capacity (RangeSet_fixup s) = rs_capacity s"
    by (rule RangeSet_fixup_iter)+
  have "rs_ok (RangeSet_fixup s)" using fixup s(2,3) props ok by (simp add: rs_ok_def)
  with fixup(1) s(1,2) show ?thesis by simp
qed

section \<open>Gaps and enumeration\<close>

lemma points_proper:
  assumes "proper_ranges xs"
  shows "points xs = {p. p div 2 \<in> covered xs \<or> (even p \<and> 0 < p \<and> p div 2 - 1 \<in> covered xs)}"
proof (intro set_eqI)
  fix p
  have "p \<in> rpoints r \<longleftrightarrow> p div 2 \<in> {fst r..<snd r} \<or> (even p \<and> 0 < p \<and> p div 2 - 1 \<in> {fst r..<snd r})"
    if "r \<in> set xs" for r
  proof -
    have "fst r < snd r" using assms that by (simp add: proper_ranges_def)
    then show ?thesis by (cases "even p") (auto simp: rpoints_def elim!: evenE oddE)
  qed
  then show "p \<in> points xs \<longleftrightarrow> p \<in> {p. p div 2 \<in> covered xs \<or> (even p \<and> 0 < p \<and> p div 2 - 1 \<in> covered xs)}"
    unfolding points_def covered_def by blast
qed

lemma range_gaps_proper: "wf_ranges m \<Longrightarrow> proper_ranges (range_gaps m)"
  by (induction m rule: range_gaps.induct) (auto simp: wf_ranges_Cons proper_ranges_def)

lemma range_gaps_length: "length (range_gaps m) = length m - 1"
  by (induction m rule: range_gaps.induct) auto

lemma covered_range_gaps:
  "wf_ranges m \<Longrightarrow> proper_ranges m \<Longrightarrow>
     covered (range_gaps m) =
       {x. x \<notin> covered m \<and> (\<exists>y \<in> covered m. y < x) \<and> (\<exists>z \<in> covered m. x < z)}"
proof (induction m rule: range_gaps.induct)
  case (1 r r' rs)
  let ?m = "r' # rs"
  have wf: "fst r < snd r" "snd r < fst r'" "fst r' < snd r'" "wf_ranges ?m" "proper_ranges ?m"
    using 1 by (auto simp: wf_ranges_Cons)
  have low: "fst r' \<le> x" if "x \<in> covered ?m" for x
    using that wf(4) by (fastforce simp: wf_ranges_Cons covered_def)
  have mem: "fst r' \<in> covered ?m" "snd r - 1 \<in> {fst r..<snd r}" using wf by auto
  have IH: "covered (range_gaps ?m) =
      {x. x \<notin> covered ?m \<and> (\<exists>y \<in> covered ?m. y < x) \<and> (\<exists>z \<in> covered ?m. x < z)}"
    using 1 wf by simp
  have "covered (range_gaps (r # ?m)) = {snd r..<fst r'} \<union> covered (range_gaps ?m)" by simp
  also have "\<dots> = {x. x \<notin> covered (r # ?m) \<and> (\<exists>y \<in> covered (r # ?m). y < x) \<and>
      (\<exists>z \<in> covered (r # ?m). x < z)}" (is "?L = ?R")
  proof (intro set_eqI iffI)
    fix x assume "x \<in> ?L"
    then consider "snd r \<le> x" "x < fst r'" | "x \<in> covered (range_gaps ?m)" by auto
    then show "x \<in> ?R"
    proof cases
      case 1
      then have "x \<notin> covered (r # ?m)" using low [of x] by auto
      moreover have "snd r - 1 < x" "snd r - 1 \<in> covered (r # ?m)" using 1 wf mem by auto
      moreover have "x < fst r'" "fst r' \<in> covered (r # ?m)" using 1 mem by auto
      ultimately show ?thesis by blast
    next
      case 2
      then obtain y z where x: "x \<notin> covered ?m" "y \<in> covered ?m" "y < x" "z \<in> covered ?m" "x < z"
        unfolding IH by blast
      moreover from x have "fst r' < x" using low [of y] by simp
      ultimately show ?thesis using wf by auto
    qed
  next
    fix x assume "x \<in> ?R"
    then obtain y z where x: "x \<notin> covered (r # ?m)" "y \<in> covered (r # ?m)" "y < x"
      "z \<in> covered (r # ?m)" "x < z" by blast
    have sx: "snd r \<le> x"
    proof (rule ccontr)
      assume "\<not> snd r \<le> x"
      moreover have "fst r \<le> y" using x(2) low [of y] wf(1,2) by auto
      ultimately show False using x(1,3) by simp
    qed
    then have "z \<in> covered ?m" using x(4,5) by auto
    moreover have "fst r' \<in> covered ?m" by (rule mem)
    ultimately show "x \<in> ?L"
      using x(1,5) sx unfolding IH by (cases "x < fst r'") (auto simp: not_less le_less)
  qed
  finally show ?case .
qed auto

lemma flatten_eq: "RangeSet_flatten rset = concat (map (\<lambda>(s, e). [s..<e]) (RangeSet_iter rset))"
  by (cases rset) auto

lemma flatten_ranges:
  "wf_ranges m \<Longrightarrow> sorted_wrt (<) (concat (map (\<lambda>(s, e). [s..<e]) m)) \<and>
     set (concat (map (\<lambda>(s, e). [s..<e]) m)) = covered m"
proof (induction m)
  case (Cons r m)
  have "snd r < x" if "x \<in> covered m" for x
    using that Cons.prems by (fastforce simp: wf_ranges_Cons covered_def)
  with Cons show ?case
    by (cases r) (force simp: wf_ranges_Cons sorted_wrt_append)
qed simp

section \<open>Sets without a reachable capacity\<close>

lemma ranges_count:
  "wf_ranges xs \<Longrightarrow> proper_ranges xs \<Longrightarrow> xs \<noteq> [] \<Longrightarrow> \<forall>r \<in> set xs. l \<le> fst r \<and> snd r \<le> m \<Longrightarrow>
     l + 2 * length xs \<le> m + 1"
proof (induction xs arbitrary: l)
  case (Cons r xs)
  show ?case
  proof (cases "xs = []")
    case True
    with Cons.prems show ?thesis by auto
  next
    case False
    have "\<forall>x \<in> set xs. l + 2 \<le> fst x \<and> snd x \<le> m"
    proof
      fix x assume "x \<in> set xs"
      with Cons.prems have "snd r < fst x" "fst r < snd r" "l \<le> fst r" "snd x \<le> m"
        by (auto simp: wf_ranges_Cons)
      then show "l + 2 \<le> fst x \<and> snd x \<le> m" by simp
    qed
    with Cons.IH [of "l + 2"] Cons.prems False show ?thesis by (simp add: wf_ranges_Cons)
  qed
qed simp

lemma merge_suffix_bounds:
  "a < b \<Longrightarrow> b \<le> m \<Longrightarrow> \<forall>r \<in> set xs. fst r < snd r \<and> snd r \<le> m \<Longrightarrow>
     \<forall>r \<in> set (merge_suffix a b xs). fst r < snd r \<and> snd r \<le> m"
  by (induction a b xs rule: merge_suffix.induct) auto

lemma ins_range_bounds:
  "a < b \<Longrightarrow> b \<le> m \<Longrightarrow> \<forall>r \<in> set xs. fst r < snd r \<and> snd r \<le> m \<Longrightarrow>
     \<forall>r \<in> set (ins_range a b xs). fst r < snd r \<and> snd r \<le> m"
proof (induction a b xs rule: ins_range.induct)
  case (2 a b s e xs)
  have "\<forall>r \<in> set (merge_suffix (min a s) b xs). fst r < snd r \<and> snd r \<le> m"
    using 2 by (intro merge_suffix_bounds) auto
  with 2 show ?case by (simp add: min_less_iff_disj)
qed simp

text \<open>A set of \<open>u64\<close> values built from the default set: its capacity is beyond the number of
  ranges that fit in 64 bits.\<close>

definition rs_unbounded :: "range_set \<Rightarrow> bool" where
  "rs_unbounded s \<longleftrightarrow> rs_ok s \<and> rs_capacity s = usize_max \<and>
     (\<forall>r \<in> set (RangeSet_iter s). fst r < snd r \<and> snd r \<le> usize_max)"

lemma rs_unbounded_default [simp]: "rs_unbounded RangeSet_default"
  using rs_ok_default by (simp add: rs_unbounded_def) (simp add: RangeSet_default_def)

lemma rs_unbounded_proper: "rs_unbounded s \<Longrightarrow> proper_ranges (RangeSet_iter s)"
  by (simp add: rs_unbounded_def proper_ranges_def)

lemma rs_unbounded_length: "rs_unbounded s \<Longrightarrow> length (RangeSet_iter s) < usize_max"
proof (cases "RangeSet_iter s = []")
  case False
  assume s: "rs_unbounded s"
  then have "0 + 2 * length (RangeSet_iter s) \<le> usize_max + 1"
    using False rs_unbounded_proper [OF s]
    by (intro ranges_count) (auto simp: rs_unbounded_def rs_ok_def)
  then show ?thesis by simp
qed simp

lemma rs_unbounded_insert:
  assumes "rs_unbounded s" "a < b" "b \<le> usize_max"
  shows "\<exists>s'. RangeSet_insert (a, b) s = Inr s' \<and> rs_unbounded s' \<and>
    rs_covered s' = {a..<b} \<union> rs_covered s"
proof -
  have ok: "rs_ok s" "rs_capacity s = usize_max" using assms(1) by (auto simp: rs_unbounded_def)
  have len: "length (RangeSet_iter s) < rs_capacity s"
    using rs_unbounded_length [OF assms(1)] ok(2) by simp
  obtain s' where s': "RangeSet_insert (a, b) s = Inr s'" "rs_ok s'" "rs_capacity s' = rs_capacity s"
    "points (RangeSet_iter s') = rpoints (a, b) \<union> points (RangeSet_iter s)"
    using rs.ins_eq [OF ok(1) _ len, of a b] assms(2) by auto
  have iter: "RangeSet_iter s' = ins_range a b (RangeSet_iter s)"
    using rs_ok_insert [OF ok(1) _ s'(1)] assms(2) len length_ins_range [of a b "RangeSet_iter s"]
    by (simp add: ins_capped_def)
  have old: "\<forall>r \<in> set (RangeSet_iter s). fst r < snd r \<and> snd r \<le> usize_max"
    using assms(1) unfolding rs_unbounded_def by (elim conjE)
  have bounds: "\<forall>r \<in> set (RangeSet_iter s'). fst r < snd r \<and> snd r \<le> usize_max"
    unfolding iter by (rule ins_range_bounds [OF assms(2,3) old])
  have "rs_covered s' = {x. 2 * x + 1 \<in> rpoints (a, b)} \<union> rs_covered s"
    unfolding rs_covered_def covered_points s'(4) by blast
  moreover have "{x. 2 * x + 1 \<in> rpoints (a, b)} = {a..<b}" unfolding rpoints_odd by auto
  ultimately have "rs_covered s' = {a..<b} \<union> rs_covered s" by (simp only:)
  moreover have "rs_unbounded s'"
    unfolding rs_unbounded_def using s'(2,3) ok(2) bounds by (intro conjI) (assumption, rule trans)
  ultimately show ?thesis using s'(1) by blast
qed

section \<open>Properties\<close>



text \<open>C30: The ranges held after a series of insertions are determined by the set of values
  inserted: two series of non-empty ranges that cover the same values, in whatever order and
  grouping, give the same list of ranges, whichever representation each ends in.\<close>

theorem RangeSet_insert_canonical:
  assumes "proper_ranges rs" "proper_ranges rs'" "covered rs = covered rs'"
    and "length rs \<le> usize_max" "length rs' \<le> usize_max"
  shows "\<exists>s s'. fold_res RangeSet_insert rs RangeSet_default = Inr s \<and>
    fold_res RangeSet_insert rs' RangeSet_default = Inr s' \<and>
    RangeSet_iter s = RangeSet_iter s' \<and> rs_covered s = covered rs"
proof -
  have le: "\<forall>r \<in> set rs. fst r \<le> snd r" "\<forall>r \<in> set rs'. fst r \<le> snd r"
    using assms(1,2) by (auto simp: proper_ranges_def)
  have room: "length (RangeSet_iter RangeSet_default) + length xs \<le> rs_capacity RangeSet_default"
    if "length xs \<le> usize_max" for xs :: "range list"
    using that by (simp add: RangeSet_default_def)
  have empty: "points (RangeSet_iter RangeSet_default) = {}" by (simp add: RangeSet_default_def)
  obtain s where s: "fold_res RangeSet_insert rs RangeSet_default = Inr s"
    "points (RangeSet_iter s) = points rs"
    using rs.ins_list [OF rs_ok_default le(1) room [OF assms(4)]] empty by auto
  obtain s' where s': "fold_res RangeSet_insert rs' RangeSet_default = Inr s'"
    using rs.ins_list [OF rs_ok_default le(2) room [OF assms(5)]] by auto
  have "points rs = points rs'"
    using points_proper [OF assms(1)] points_proper [OF assms(2)] assms(3) by simp
  from rs.ins_list_canonical [OF rs_ok_default le(1) room [OF assms(4)] rs_ok_default le(2)
      room [OF assms(5)] refl this s(1) s']
  have "RangeSet_iter s = RangeSet_iter s'" .
  moreover have "rs_covered s = covered rs"
    using s(2) by (simp add: rs_covered_def covered_points)
  ultimately show ?thesis using s(1) s' by blast
qed

theorem RangeSet_insert_canonical_witness:
  "\<exists>s s'. fold_res RangeSet_insert [(0, 2), (5, 9), (2, 4)] RangeSet_default = Inr s \<and>
    fold_res RangeSet_insert [(7, 9), (0, 4), (5, 8)] RangeSet_default = Inr s' \<and>
    RangeSet_iter s = RangeSet_iter s'"
proof -
  have "covered [(0, 2), (5, 9), (2, 4)] = covered [(7, 9), (0, 4), (5, 8)]"
    by (simp add: set_eq_iff) presburger
  moreover have "proper_ranges [(0, 2), (5, 9), (2, 4)]" "proper_ranges [(7, 9), (0, 4), (5, 8)]"
    by (simp_all add: proper_ranges_def)
  ultimately show ?thesis
    using RangeSet_insert_canonical [of "[(0, 2), (5, 9), (2, 4)]" "[(7, 9), (0, 4), (5, 8)]"]
    by force
qed

text \<open>Removing every value up to \<open>largest\<close> leaves exactly the larger values of the set, in
  both representations; it does not fail below \<open>u64::MAX\<close>.\<close>

lemma RangeSet_remove_until_correct:
  assumes "rs_ok rset" "proper_ranges (RangeSet_iter rset)" "largest < usize_max"
  shows "\<exists>rset'. RangeSet_remove_until largest rset = Inr rset' \<and> rs_ok rset' \<and>
    rs_covered rset' = {x \<in> rs_covered rset. largest < x}"
proof -
  have "wf_ranges (RangeSet_iter rset)" using assms(1) by (simp add: rs_ok_def)
  from inline_remove_until_props [OF this assms(2), of largest]
  show ?thesis using RangeSet_remove_until_iter [OF assms] by (auto simp: rs_covered_def)
qed

lemma RangeSet_remove_until_correct_example:
  "\<exists>rset'. RangeSet_remove_until 5
      (BTree \<lparr>t_inner = [(0, 2), (4, 8), (10, 12), (20, 30)], t_capacity = 16\<rparr>) = Inr rset' \<and>
    rs_covered rset' = {6, 7, 10, 11} \<union> {20..<30}"
proof -
  let ?r = "BTree \<lparr>t_inner = [(0, 2), (4, 8), (10, 12), (20, 30)], t_capacity = 16\<rparr>"
  have "rs_ok ?r" "proper_ranges (RangeSet_iter ?r)"
    by (auto simp: rs_ok_def wf_ranges_Cons proper_ranges_def)
  moreover have "(5::nat) < usize_max" by simp
  ultimately
  have "\<exists>r'. RangeSet_remove_until 5 ?r = Inr r' \<and> rs_covered r' = {x \<in> rs_covered ?r. 5 < x}"
    using RangeSet_remove_until_correct [of ?r 5] by blast
  moreover have "{x \<in> rs_covered ?r. 5 < x} = {6, 7, 10, 11} \<union> {20..<30}"
    by (auto simp: rs_covered_def)
  ultimately show ?thesis by (simp only:)
qed

text \<open>The missing ranges of a set are exactly the values that are not in it but lie
  between two values that are. This is what a flexicast receiver reports as lost.\<close>

lemma RangeSet_get_missing_correct:
  assumes "rs_ok rset" "proper_ranges (RangeSet_iter rset)" "rs_capacity rset \<le> usize_max"
  shows "\<exists>m. RangeSet_get_missing rset = Inr m \<and> rs_ok m \<and>
    rs_covered m = {x. x \<notin> rs_covered rset \<and>
      (\<exists>y \<in> rs_covered rset. y < x) \<and> (\<exists>z \<in> rs_covered rset. x < z)}"
proof -
  let ?g = "range_gaps (RangeSet_iter rset)"
  have wf: "wf_ranges (RangeSet_iter rset)" "length (RangeSet_iter rset) \<le> usize_max"
    using assms(1,3) by (auto simp: rs_ok_def)
  have "\<forall>r \<in> set ?g. fst r \<le> snd r"
    using range_gaps_proper [OF wf(1)] by (auto simp: proper_ranges_def)
  moreover have "length (RangeSet_iter RangeSet_default) + length ?g \<le> rs_capacity RangeSet_default"
    using wf(2) by (simp add: range_gaps_length RangeSet_default_def)
  ultimately obtain m where "RangeSet_get_missing rset = Inr m" "rs_ok m"
    "points (RangeSet_iter m) = points ?g"
    using rs.ins_list [OF rs_ok_default, of ?g] by (auto simp: RangeSet_get_missing_def RangeSet_default_def)
  moreover from this have "rs_covered m = covered ?g" by (simp add: rs_covered_def covered_points)
  ultimately show ?thesis
    using covered_range_gaps [OF wf(1) assms(2)] by (auto simp: rs_covered_def)
qed

lemma RangeSet_get_missing_correct_example:
  "\<exists>m. RangeSet_get_missing (Inline \<lparr>i_inner = [(0, 2), (5, 6)], i_capacity = 16\<rparr>) = Inr m \<and>
    3 \<in> rs_covered m \<and> 5 \<notin> rs_covered m"
proof -
  let ?r = "Inline \<lparr>i_inner = [(0, 2), (5, 6)], i_capacity = 16\<rparr>"
  have ok: "rs_ok ?r" "proper_ranges (RangeSet_iter ?r)" "rs_capacity ?r \<le> usize_max"
    by (auto simp: rs_ok_def wf_ranges_Cons proper_ranges_def)
  have "rs_covered ?r = {0, 1, 5}" by (auto simp: rs_covered_def)
  then show ?thesis using RangeSet_get_missing_correct [OF ok] by auto
qed

text \<open>Flattening a range set lists its values once each in ascending order, and the number
  of elements reported is the number of values covered.\<close>

lemma RangeSet_flatten_correct:
  assumes "rs_ok rset"
  shows "sorted_wrt (<) (RangeSet_flatten rset) \<and> set (RangeSet_flatten rset) = rs_covered rset \<and>
    RangeSet_nb_elements rset = card (rs_covered rset)"
proof -
  have "wf_ranges (RangeSet_iter rset)" using assms by (simp add: rs_ok_def)
  note fl = flatten_ranges [OF this]
  then have "distinct (RangeSet_flatten rset)"
    by (simp add: flatten_eq strict_sorted_iff)
  then have "length (RangeSet_flatten rset) = card (set (RangeSet_flatten rset))"
    by (simp add: distinct_card)
  with fl show ?thesis by (simp add: RangeSet_nb_elements_def rs_covered_def flatten_eq)
qed

lemma RangeSet_flatten_correct_example:
  "RangeSet_nb_elements (Inline \<lparr>i_inner = [(0, 2), (5, 6)], i_capacity = 16\<rparr>) = 3"
proof -
  let ?r = "Inline \<lparr>i_inner = [(0, 2), (5, 6)], i_capacity = 16\<rparr>"
  have "rs_ok ?r" by (auto simp: rs_ok_def wf_ranges_Cons)
  moreover have "rs_covered ?r = {0, 1, 5}" by (auto simp: rs_covered_def)
  ultimately show ?thesis using RangeSet_flatten_correct [of ?r] by simp
qed

end
