(* ===== verification/Range_Buf.thy ===== *)
theory Range_Buf
  imports Prelude
begin

text \<open>
  \<open>RangeBuf\<close> of \<open>quiche/src/stream/mod.rs\<close>: a view of a shared byte vector at an offset of a
  stream. The vector is immutable, so sharing is plain copying here. Every subtraction, slice
  and assertion of the source that can panic does so in the model; the invariant \<open>rb_wf\<close>,
  which all constructors establish, excludes it.
\<close>

section \<open>Operations\<close>

record range_buf =
  rb_data :: "8 word list"
  rb_start :: nat
  rb_pos :: nat
  rb_len :: nat
  rb_off :: nat
  rb_fin :: bool

definition RangeBuf_from :: "8 word list \<Rightarrow> nat \<Rightarrow> bool \<Rightarrow> range_buf" where
  "RangeBuf_from buf off fin =
     \<lparr>rb_data = buf, rb_start = 0, rb_pos = 0, rb_len = length buf, rb_off = off, rb_fin = fin\<rparr>"

definition RangeBuf_off :: "range_buf \<Rightarrow> nat result" where
  "RangeBuf_off r = try_bind (checked_sub (rb_off r) (rb_start r)) (\<lambda>d. checked_add d (rb_pos r))"

definition RangeBuf_len :: "range_buf \<Rightarrow> nat result" where
  "RangeBuf_len r =
     try_bind (checked_sub (rb_pos r) (rb_start r)) (\<lambda>d. checked_sub (rb_len r) d)"

definition RangeBuf_max_off :: "range_buf \<Rightarrow> nat result" where
  "RangeBuf_max_off r =
     try_bind (RangeBuf_off r) (\<lambda>o'. try_bind (RangeBuf_len r) (\<lambda>l. checked_add o' l))"

definition RangeBuf_is_empty :: "range_buf \<Rightarrow> bool result" where
  "RangeBuf_is_empty r = try_bind (RangeBuf_len r) (\<lambda>l. Inr (l = 0))"

definition RangeBuf_consume :: "nat \<Rightarrow> range_buf \<Rightarrow> range_buf result" where
  "RangeBuf_consume count r = try_bind (checked_add (rb_pos r) count) (\<lambda>p. Inr (r\<lparr>rb_pos := p\<rparr>))"

text \<open>Returns the first part, which stays in place, and the second.\<close>

definition RangeBuf_split_off :: "nat \<Rightarrow> range_buf \<Rightarrow> (range_buf \<times> range_buf) result" where
  "RangeBuf_split_off at r =
     (if at \<le> rb_len r then
        Inr (r\<lparr>rb_pos := min (rb_pos r) (rb_start r + at), rb_len := at, rb_fin := False\<rparr>,
             \<lparr>rb_data = rb_data r, rb_start = rb_start r + at,
              rb_pos = max (rb_pos r) (rb_start r + at), rb_len = rb_len r - at,
              rb_off = rb_off r + at, rb_fin = rb_fin r\<rparr>)
      else panic)"

text \<open>\<open>&self.data[self.pos..self.start + self.len]\<close>.\<close>

definition RangeBuf_deref :: "range_buf \<Rightarrow> 8 word list result" where
  "RangeBuf_deref r =
     (if rb_pos r \<le> rb_start r + rb_len r \<and> rb_start r + rb_len r \<le> length (rb_data r)
      then Inr (drop (rb_pos r) (take (rb_start r + rb_len r) (rb_data r)))
      else panic)"

text \<open>\<open>Ord\<close> and \<open>PartialEq\<close> compare the offset field only, in inverted order.\<close>

definition RangeBuf_cmp_less :: "range_buf \<Rightarrow> range_buf \<Rightarrow> bool" where
  "RangeBuf_cmp_less r other \<longleftrightarrow> rb_off other < rb_off r"

section \<open>Well-formed buffers\<close>

definition rb_wf :: "range_buf \<Rightarrow> bool" where
  "rb_wf r \<longleftrightarrow> rb_start r \<le> rb_pos r \<and> rb_pos r \<le> rb_start r + rb_len r \<and>
     rb_start r + rb_len r \<le> length (rb_data r) \<and> rb_start r \<le> rb_off r \<and>
     rb_off r + rb_len r < u64_size"

text \<open>What a buffer stands for: the stream offset of its first unread byte, and its unread
  bytes.\<close>

definition rb_first :: "range_buf \<Rightarrow> nat" where
  "rb_first r = rb_off r + (rb_pos r - rb_start r)"

definition rb_bytes :: "range_buf \<Rightarrow> 8 word list" where
  "rb_bytes r = drop (rb_pos r) (take (rb_start r + rb_len r) (rb_data r))"

lemma rb_wf_from [simp]: "off + length buf < u64_size \<Longrightarrow> rb_wf (RangeBuf_from buf off fin)"
  by (simp add: rb_wf_def RangeBuf_from_def)

lemma rb_bytes_from [simp]: "rb_bytes (RangeBuf_from buf off fin) = buf"
  by (simp add: rb_bytes_def RangeBuf_from_def)

lemma rb_first_from [simp]: "rb_first (RangeBuf_from buf off fin) = off"
  by (simp add: rb_first_def RangeBuf_from_def)

lemma rb_fin_from [simp]: "rb_fin (RangeBuf_from buf off fin) = fin"
  by (simp add: RangeBuf_from_def)

lemma length_rb_bytes:
  "rb_wf r \<Longrightarrow> length (rb_bytes r) = rb_len r - (rb_pos r - rb_start r)"
  by (auto simp: rb_wf_def rb_bytes_def)

lemma RangeBuf_off_eq [simp]: "rb_wf r \<Longrightarrow> RangeBuf_off r = Inr (rb_first r)"
  by (auto simp: rb_wf_def RangeBuf_off_def rb_first_def checked_add_def)

lemma RangeBuf_len_eq [simp]: "rb_wf r \<Longrightarrow> RangeBuf_len r = Inr (length (rb_bytes r))"
  by (auto simp: rb_wf_def RangeBuf_len_def rb_bytes_def)

lemma rb_first_bound: "rb_wf r \<Longrightarrow> rb_first r + length (rb_bytes r) = rb_off r + rb_len r"
  by (auto simp: length_rb_bytes) (auto simp: rb_wf_def rb_first_def)

lemma RangeBuf_max_off_eq [simp]:
  assumes "rb_wf r"
  shows "RangeBuf_max_off r = Inr (rb_first r + length (rb_bytes r))"
proof -
  have "rb_first r + length (rb_bytes r) < u64_size"
    using rb_first_bound [OF assms] assms by (simp add: rb_wf_def)
  with assms show ?thesis by (simp add: RangeBuf_max_off_def)
qed

lemma RangeBuf_deref_eq [simp]: "rb_wf r \<Longrightarrow> RangeBuf_deref r = Inr (rb_bytes r)"
  by (simp add: rb_wf_def RangeBuf_deref_def rb_bytes_def)

lemma RangeBuf_consume_eq:
  assumes "rb_wf r" "n \<le> length (rb_bytes r)"
  shows "\<exists>r'. RangeBuf_consume n r = Inr r' \<and> rb_wf r' \<and> rb_first r' = rb_first r + n \<and>
    rb_bytes r' = drop n (rb_bytes r) \<and> rb_fin r' = rb_fin r \<and> rb_off r' = rb_off r"
proof -
  have n: "rb_pos r + n \<le> rb_start r + rb_len r" "rb_start r \<le> rb_pos r"
    using assms by (auto simp: length_rb_bytes rb_wf_def)
  moreover have "rb_start r + rb_len r < u64_size" using assms(1) by (auto simp: rb_wf_def)
  ultimately have "RangeBuf_consume n r = Inr (r\<lparr>rb_pos := rb_pos r + n\<rparr>)"
    by (simp add: RangeBuf_consume_def)
  then show ?thesis
    using assms(1) n by (auto simp: rb_wf_def rb_first_def rb_bytes_def add.commute)
qed

section \<open>Properties\<close>

text \<open>Splitting a buffer at an index inside it never fails and loses nothing: the two parts
  are well formed, their bytes concatenate to the bytes of the whole, the second starts in the
  stream where the first ends, and only the second can carry the end-of-stream flag.\<close>

lemma split_off_partition:
  assumes "rb_wf r" "at \<le> rb_len r"
  shows "\<exists>l h. RangeBuf_split_off at r = Inr (l, h) \<and> rb_wf l \<and> rb_wf h \<and>
    rb_bytes l @ rb_bytes h = rb_bytes r \<and>
    (rb_bytes l \<noteq> [] \<longrightarrow> rb_first l = rb_first r) \<and>
    (rb_bytes h \<noteq> [] \<longrightarrow> rb_first h = rb_first r + length (rb_bytes l)) \<and>
    \<not> rb_fin l \<and> (rb_fin h \<longleftrightarrow> rb_fin r)"
proof (cases "rb_pos r \<le> rb_start r + at")
  case True
  let ?d = "rb_data r" and ?p = "rb_pos r" and ?m = "rb_start r + at" and ?e = "rb_start r + rb_len r"
  have "drop ?p (take ?m ?d) @ drop ?m (take ?e ?d) = drop ?p (take ?e ?d)"
  proof -
    have le: "?m \<le> ?e" using assms(2) by simp
    have "take ?e ?d = take ?m ?d @ drop ?m (take ?e ?d)"
      by (metis append_take_drop_id le min.absorb1 take_take)
    moreover have "?p - length (take ?m ?d) = 0"
      using True assms by (auto simp: rb_wf_def)
    ultimately show ?thesis by (metis drop_0 drop_append)
  qed
  with True assms show ?thesis
    by (auto simp: RangeBuf_split_off_def rb_wf_def rb_first_def rb_bytes_def)
next
  case False
  with assms show ?thesis
    by (auto simp: RangeBuf_split_off_def rb_wf_def rb_first_def rb_bytes_def)
qed

lemma split_off_partition_example:
  "\<exists>l h. RangeBuf_split_off 2 (RangeBuf_from [1, 2, 3] 10 True) = Inr (l, h) \<and>
     rb_bytes l @ rb_bytes h = [1, 2, 3] \<and> \<not> rb_fin l \<and> rb_fin h"
proof -
  have "rb_wf (RangeBuf_from [1, 2, 3] 10 True)" by simp
  moreover have "2 \<le> rb_len (RangeBuf_from [1, 2, 3] 10 True)" by (simp add: RangeBuf_from_def)
  ultimately show ?thesis using split_off_partition [of "RangeBuf_from [1, 2, 3] 10 True" 2] by auto
qed

end
