(* ===== verification/Flow_Control.thy ===== *)
theory Flow_Control
  imports Prelude
begin

text \<open>
  \<open>quiche/src/flowcontrol.rs\<close>: the receive window of a stream or of the connection, field by
  field, with the overflow of every addition, subtraction and multiplication as a panic.
\<close>

section \<open>Flow control\<close>

abbreviation (input) WINDOW_INCREASE_FACTOR :: nat where "WINDOW_INCREASE_FACTOR \<equiv> 2"
abbreviation (input) WINDOW_TRIGGER_FACTOR :: nat where "WINDOW_TRIGGER_FACTOR \<equiv> 2"

record flow_control =
  consumed :: nat
  max_data :: nat
  window :: nat
  max_window :: nat
  last_update :: "nat option"

definition FlowControl_new :: "nat \<Rightarrow> nat \<Rightarrow> nat \<Rightarrow> flow_control" where
  "FlowControl_new maxd win max_win =
     \<lparr>consumed = 0, max_data = maxd, window = win, max_window = max_win, last_update = None\<rparr>"

definition add_consumed :: "nat \<Rightarrow> flow_control \<Rightarrow> flow_control result" where
  "add_consumed n fc = try_bind (checked_add (consumed fc) n) (\<lambda>c. Inr (fc\<lparr>consumed := c\<rparr>))"

definition should_update_max_data :: "flow_control \<Rightarrow> bool result" where
  "should_update_max_data fc =
     try_bind (checked_sub (max_data fc) (consumed fc)) (\<lambda>available_window.
       Inr (available_window < window fc div 2))"

definition max_data_next :: "flow_control \<Rightarrow> nat result" where
  "max_data_next fc = checked_add (consumed fc) (window fc)"

definition update_max_data :: "nat \<Rightarrow> flow_control \<Rightarrow> flow_control result" where
  "update_max_data now fc =
     try_bind (max_data_next fc) (\<lambda>m. Inr (fc\<lparr>max_data := m, last_update := Some now\<rparr>))"

definition checked_mul :: "nat \<Rightarrow> nat \<Rightarrow> nat result" where
  "checked_mul a b = (if a * b < u64_size then Inr (a * b) else panic)"

definition autotune_window :: "nat \<Rightarrow> nat \<Rightarrow> flow_control \<Rightarrow> flow_control result" where
  "autotune_window now rtt fc =
     (case last_update fc of
        None \<Rightarrow> Inr fc
      | Some t \<Rightarrow>
          if now - t < rtt * WINDOW_TRIGGER_FACTOR
          then try_bind (checked_mul (window fc) WINDOW_INCREASE_FACTOR) (\<lambda>w.
                 Inr (fc\<lparr>window := min w (max_window fc)\<rparr>))
          else Inr fc)"

definition ensure_window_lower_bound :: "nat \<Rightarrow> flow_control \<Rightarrow> flow_control" where
  "ensure_window_lower_bound min_window fc =
     (if min_window > window fc then fc\<lparr>window := min_window\<rparr> else fc)"

text \<open>The peer respects the limit it was given: it has consumed no more than \<open>max_data\<close>. The
  connection's limits are transport parameters, hence below \<open>2 ^ 62\<close>.\<close>

definition fc_inv :: "flow_control \<Rightarrow> bool" where
  "fc_inv fc \<longleftrightarrow> consumed fc \<le> max_data fc \<and> window fc < varint_limit \<and>
     max_window fc < varint_limit"

lemma fc_inv_new:
  "win < varint_limit \<Longrightarrow> max_win < varint_limit \<Longrightarrow> fc_inv (FlowControl_new maxd win max_win)"
  by (simp add: fc_inv_def FlowControl_new_def)

lemma add_consumed_inv:
  "fc_inv fc \<Longrightarrow> n \<le> max_data fc - consumed fc \<Longrightarrow> max_data fc < u64_size \<Longrightarrow>
     \<exists>fc'. add_consumed n fc = Inr fc' \<and> fc_inv fc' \<and> max_data fc' = max_data fc"
  by (auto simp: add_consumed_def fc_inv_def checked_add_def)

lemma update_max_data_inv:
  "fc_inv fc \<Longrightarrow> update_max_data now fc = Inr fc' \<Longrightarrow> fc_inv fc'"
  by (auto simp: update_max_data_def max_data_next_def fc_inv_def checked_add_eq_Inr)

lemma autotune_window_inv:
  "fc_inv fc \<Longrightarrow> \<exists>fc'. autotune_window now rtt fc = Inr fc' \<and> fc_inv fc' \<and>
     max_data fc' = max_data fc \<and> consumed fc' = consumed fc"
  by (auto simp: autotune_window_def fc_inv_def checked_mul_def split: option.splits)

section \<open>Runs of the window\<close>

text \<open>What the connection does with a window: bytes within the limit are consumed, the limit is
  raised when the window asks for it, and the window is tuned.\<close>

datatype fc_event = Consume nat | UpdateMaxData nat | Autotune nat nat | EnsureBound nat

fun fc_step :: "fc_event \<Rightarrow> flow_control \<Rightarrow> flow_control result" where
  "fc_step (Consume n) fc =
     (if n \<le> max_data fc - consumed fc then add_consumed n fc else err FlowControlError)"
| "fc_step (UpdateMaxData now) fc =
     try_bind (should_update_max_data fc) (\<lambda>b. if b then update_max_data now fc else Inr fc)"
| "fc_step (Autotune now rtt) fc = autotune_window now rtt fc"
| "fc_step (EnsureBound w) fc = Inr (ensure_window_lower_bound w fc)"

definition fc_event_ok :: "fc_event \<Rightarrow> bool" where
  "fc_event_ok e \<longleftrightarrow> (case e of EnsureBound w \<Rightarrow> w < varint_limit | _ \<Rightarrow> True)"

lemma should_update_max_data_eq:
  "consumed fc \<le> max_data fc \<Longrightarrow>
     should_update_max_data fc = Inr (max_data fc - consumed fc < window fc div 2)"
  by (simp add: should_update_max_data_def)

lemma update_max_data_grows:
  assumes "consumed fc \<le> max_data fc" "max_data fc - consumed fc < window fc div 2"
  shows "max_data fc < consumed fc + window fc"
proof -
  have "window fc div 2 \<le> window fc" by simp
  with assms show ?thesis by linarith
qed

lemma fc_step_inv:
  assumes "fc_inv fc" "max_data fc < varint_limit + varint_limit" "fc_event_ok e" "fc_step e fc = Inr fc'"
  shows "fc_inv fc' \<and> max_data fc \<le> max_data fc' \<and> consumed fc \<le> consumed fc'"
proof (cases e)
  case (Consume n)
  with assms show ?thesis
    by (auto simp: add_consumed_def checked_add_eq_Inr fc_inv_def split: if_splits)
next
  case (UpdateMaxData now)
  show ?thesis
  proof (cases "max_data fc - consumed fc < window fc div 2")
    case True
    then have "update_max_data now fc = Inr fc'" "max_data fc < consumed fc + window fc"
      using assms UpdateMaxData update_max_data_grows [of fc]
      by (simp_all add: fc_inv_def should_update_max_data_eq)
    moreover from this have "fc_inv fc'" using update_max_data_inv assms(1) by blast
    ultimately show ?thesis
      by (auto simp: update_max_data_def max_data_next_def checked_add_eq_Inr)
  next
    case False
    with assms UpdateMaxData show ?thesis by (simp add: fc_inv_def should_update_max_data_eq)
  qed
next
  case (Autotune now rtt)
  with assms(4) autotune_window_inv [OF assms(1), of now rtt] show ?thesis by auto
next
  case (EnsureBound w)
  with assms show ?thesis
    by (auto simp: ensure_window_lower_bound_def fc_inv_def fc_event_ok_def)
qed

lemma fc_step_no_panic:
  assumes "fc_inv fc" "max_data fc < varint_limit + varint_limit"
  shows "fc_step e fc \<noteq> panic"
proof (cases e)
  case (Consume n)
  with assms add_consumed_inv [OF assms(1), of n] show ?thesis by auto
next
  case (UpdateMaxData now)
  have "consumed fc + window fc < u64_size" "consumed fc \<le> max_data fc"
    using assms by (simp_all add: fc_inv_def)
  with UpdateMaxData show ?thesis
    by (simp add: should_update_max_data_eq update_max_data_def max_data_next_def)
next
  case (Autotune now rtt)
  with autotune_window_inv [OF assms(1), of now rtt] show ?thesis by auto
qed simp



text \<open>When the window asks for an update, the update succeeds and raises the limit by more
  than half a window, to exactly one window above the consumed bytes; right after an update no
  further update is asked for.\<close>

lemma update_max_data_progress:
  assumes "should_update_max_data fc = Inr True" "consumed fc + window fc < u64_size"
  shows "\<exists>fc'. update_max_data now fc = Inr fc' \<and> max_data fc' = consumed fc + window fc \<and>
    max_data fc + window fc div 2 < max_data fc' + 1 \<and>
    should_update_max_data fc' = Inr False"
  using assms
  by (auto simp: should_update_max_data_def update_max_data_def max_data_next_def checked_sub_eq_Inr)

lemma update_max_data_progress_example:
  "\<exists>fc'. update_max_data 5 ((FlowControl_new 100 100 1000)\<lparr>consumed := 80\<rparr>) = Inr fc' \<and>
     max_data fc' = 180"
  using update_max_data_progress [of "(FlowControl_new 100 100 1000)\<lparr>consumed := 80\<rparr>" 5]
  by (auto simp: should_update_max_data_def FlowControl_new_def)

text \<open>Autotuning multiplies the window by two, not by one and a half, within two round
  trips of the last update, and then caps it by the maximum window: a window that
  \<open>ensure_window_lower_bound\<close> has put above that maximum is reduced.\<close>

lemma autotune_window_factor:
  assumes "last_update fc = Some t" "now - t < 2 * rtt" "window fc < varint_limit"
  shows "\<exists>fc'. autotune_window now rtt fc = Inr fc' \<and> window fc' = min (2 * window fc) (max_window fc) \<and>
    (max_window fc < window fc \<longrightarrow> window fc' < window fc)"
  using assms by (auto simp: autotune_window_def checked_mul_def mult.commute)

lemma autotune_window_factor_example:
  "\<exists>fc'. autotune_window 10 6 ((FlowControl_new 100 100 1000)\<lparr>last_update := Some 0\<rparr>) = Inr fc' \<and>
     window fc' = 200"
  using autotune_window_factor [of "(FlowControl_new 100 100 1000)\<lparr>last_update := Some 0\<rparr>" 0 10 6]
  by (auto simp: FlowControl_new_def)

end
