(* ===== verification/Dgram_Queue.thy ===== *)
theory Dgram_Queue
  imports Prelude
begin

text \<open>
  \<open>quiche/src/dgram.rs\<close>: the bounded queue of DATAGRAM payloads, and the interface of a
  bounded first-in first-out queue that it implements.
\<close>

section \<open>The queue\<close>

type_synonym bytes = "8 word list"

record datagram_queue =
  queue :: "bytes list option"
  queue_max_len :: nat
  queue_bytes_size :: nat

definition DatagramQueue_new :: "nat \<Rightarrow> datagram_queue" where
  "DatagramQueue_new n = \<lparr>queue = None, queue_max_len = n, queue_bytes_size = 0\<rparr>"

definition dq_len :: "datagram_queue \<Rightarrow> nat" where
  "dq_len q = (case queue q of None \<Rightarrow> 0 | Some ds \<Rightarrow> length ds)"

definition dq_is_full :: "datagram_queue \<Rightarrow> bool" where
  "dq_is_full q \<longleftrightarrow> dq_len q = queue_max_len q"

definition dq_is_empty :: "datagram_queue \<Rightarrow> bool" where
  "dq_is_empty q \<longleftrightarrow> dq_len q = 0"

definition dq_push :: "bytes \<Rightarrow> datagram_queue \<Rightarrow> datagram_queue result" where
  "dq_push d q =
     (if dq_is_full q then err Done
      else try_bind (checked_add (queue_bytes_size q) (length d)) (\<lambda>n.
        Inr (q\<lparr>queue_bytes_size := n, queue := Some ((case queue q of None \<Rightarrow> [] | Some ds \<Rightarrow> ds) @ [d])\<rparr>)))"

definition dq_front :: "datagram_queue \<Rightarrow> bytes option" where
  "dq_front q = (case queue q of None \<Rightarrow> None | Some [] \<Rightarrow> None | Some (d # _) \<Rightarrow> Some d)"

definition peek_front_len :: "datagram_queue \<Rightarrow> nat option" where
  "peek_front_len q = map_option length (dq_front q)"

text \<open>Returns the caller's buffer with the front bytes copied in and the number copied.\<close>

definition peek_front_bytes :: "bytes \<Rightarrow> nat \<Rightarrow> datagram_queue \<Rightarrow> (bytes \<times> nat) result" where
  "peek_front_bytes b len q =
     (case dq_front q of
        Some d \<Rightarrow>
          let n = min len (length d) in
          if length b < n then err BufferTooShort else Inr (take n d @ drop n b, n)
      | None \<Rightarrow> err Done)"

text \<open>The subtraction saturates, as on the natural numbers.\<close>

definition dq_pop :: "datagram_queue \<Rightarrow> bytes option \<times> datagram_queue" where
  "dq_pop q =
     (case queue q of
        Some (d # ds) \<Rightarrow> (Some d, q\<lparr>queue := Some ds, queue_bytes_size := queue_bytes_size q - length d\<rparr>)
      | _ \<Rightarrow> (None, q))"

definition has_pending :: "datagram_queue \<Rightarrow> bool" where
  "has_pending q \<longleftrightarrow> (case queue q of None \<Rightarrow> False | Some ds \<Rightarrow> ds \<noteq> [])"

definition dq_purge :: "(bytes \<Rightarrow> bool) \<Rightarrow> datagram_queue \<Rightarrow> datagram_queue" where
  "dq_purge f q =
     (case queue q of
        None \<Rightarrow> q
      | Some ds \<Rightarrow>
          let ds' = filter (\<lambda>d. \<not> f d) ds in
          q\<lparr>queue := Some ds', queue_bytes_size := foldl (\<lambda>total d. total + length d) 0 ds'\<rparr>)"

section \<open>Invariant\<close>

definition dq_items :: "datagram_queue \<Rightarrow> bytes list" where
  "dq_items q = (case queue q of None \<Rightarrow> [] | Some ds \<Rightarrow> ds)"

definition dq_inv :: "datagram_queue \<Rightarrow> bool" where
  "dq_inv q \<longleftrightarrow> length (dq_items q) \<le> queue_max_len q \<and>
     queue_bytes_size q = sum_list (map length (dq_items q))"

lemma dq_len_items: "dq_len q = length (dq_items q)"
  by (simp add: dq_len_def dq_items_def split: option.splits)

lemma foldl_length: "foldl (\<lambda>t d. t + length d) n ds = n + sum_list (map length ds)"
  by (induction ds arbitrary: n) auto

lemma dq_purge_items: "dq_items (dq_purge f q) = filter (\<lambda>d. \<not> f d) (dq_items q)"
  by (simp add: dq_purge_def dq_items_def Let_def split: option.splits)

lemma dq_pop_items:
  "dq_pop q = (None, q) \<and> dq_items q = [] \<or>
   (\<exists>d q'. dq_pop q = (Some d, q') \<and> dq_items q = d # dq_items q' \<and> queue_max_len q' = queue_max_len q \<and>
      queue_bytes_size q' = queue_bytes_size q - length d)"
proof (cases "queue q")
  case (Some ds)
  then show ?thesis by (cases ds) (simp_all add: dq_pop_def dq_items_def)
qed (simp add: dq_pop_def dq_items_def)

section \<open>The interface of a bounded queue\<close>

primrec pop_n :: "('q \<Rightarrow> 'd option \<times> 'q) \<Rightarrow> nat \<Rightarrow> 'q \<Rightarrow> 'd list \<times> 'q" where
  "pop_n pop 0 q = ([], q)"
| "pop_n pop (Suc n) q =
     (case pop q of (None, q') \<Rightarrow> ([], q')
      | (Some d, q') \<Rightarrow> (case pop_n pop n q' of (ds, q'') \<Rightarrow> (d # ds, q'')))"

locale bounded_fifo =
  fixes push :: "'d \<Rightarrow> 'q \<Rightarrow> 'q result"
    and pop :: "'q \<Rightarrow> 'd option \<times> 'q"
    and items :: "'q \<Rightarrow> 'd list"
    and capacity :: "'q \<Rightarrow> nat"
    and inv :: "'q \<Rightarrow> bool"
    and fits :: "'d \<Rightarrow> 'q \<Rightarrow> bool"
  assumes push_ok: "inv q \<Longrightarrow> length (items q) < capacity q \<Longrightarrow> fits d q \<Longrightarrow>
      \<exists>q'. push d q = Inr q' \<and> inv q' \<and> items q' = items q @ [d] \<and> capacity q' = capacity q"
    and push_full: "inv q \<Longrightarrow> length (items q) = capacity q \<Longrightarrow> push d q = err Done"
    and bounded: "inv q \<Longrightarrow> length (items q) \<le> capacity q"
    and pop_Nil: "inv q \<Longrightarrow> items q = [] \<Longrightarrow> pop q = (None, q)"
    and pop_Cons: "inv q \<Longrightarrow> items q = d # ds \<Longrightarrow>
      \<exists>q'. pop q = (Some d, q') \<and> inv q' \<and> items q' = ds \<and> capacity q' = capacity q"
begin

lemma pop_n_items:
  "inv q \<Longrightarrow> \<exists>q'. pop_n pop n q = (take n (items q), q') \<and> inv q' \<and> items q' = drop n (items q)"
proof (induction n arbitrary: q)
  case (Suc n)
  show ?case
  proof (cases "items q")
    case Nil
    with pop_Nil [OF Suc.prems] Suc.prems show ?thesis by simp
  next
    case (Cons d ds)
    obtain q1 where "pop q = (Some d, q1)" "inv q1" "items q1 = ds"
      using pop_Cons [OF Suc.prems Cons] by blast
    with Suc.IH [of q1] Cons show ?thesis by auto
  qed
qed simp

end

interpretation dq: bounded_fifo dq_push dq_pop dq_items queue_max_len dq_inv
  "\<lambda>d q. queue_bytes_size q + length d < u64_size"
proof
  fix q :: datagram_queue and d ds
  assume inv: "dq_inv q"
  show "length (dq_items q) \<le> queue_max_len q" using inv by (simp add: dq_inv_def)
  show "length (dq_items q) = queue_max_len q \<Longrightarrow> dq_push d q = err Done"
    by (simp add: dq_push_def dq_is_full_def dq_len_items)
  show "dq_items q = [] \<Longrightarrow> dq_pop q = (None, q)"
    using dq_pop_items [of q] by auto
  show "length (dq_items q) < queue_max_len q \<Longrightarrow> queue_bytes_size q + length d < u64_size \<Longrightarrow>
      \<exists>q'. dq_push d q = Inr q' \<and> dq_inv q' \<and> dq_items q' = dq_items q @ [d] \<and>
        queue_max_len q' = queue_max_len q"
    using inv
    by (auto simp: dq_push_def dq_is_full_def dq_len_items dq_inv_def dq_items_def split: option.splits)
  assume "dq_items q = d # ds"
  then show "\<exists>q'. dq_pop q = (Some d, q') \<and> dq_inv q' \<and> dq_items q' = ds \<and>
      queue_max_len q' = queue_max_len q"
    using dq_pop_items [of q] inv by (auto simp: dq_inv_def)
qed

section \<open>Properties\<close>



text \<open>Purging keeps exactly the datagrams the predicate does not select, in order, and
  restores the byte count.\<close>

lemma dq_purge_correct:
  assumes "dq_inv q"
  shows "dq_inv (dq_purge f q) \<and> dq_items (dq_purge f q) = filter (\<lambda>d. \<not> f d) (dq_items q)"
proof -
  have "queue_max_len (dq_purge f q) = queue_max_len q"
    "queue_bytes_size (dq_purge f q) = sum_list (map length (dq_items (dq_purge f q)))"
    using assms
    by (simp_all add: dq_inv_def dq_purge_def dq_items_def foldl_length Let_def split: option.splits)
  moreover have "length (filter (\<lambda>d. \<not> f d) (dq_items q)) \<le> queue_max_len q"
    using assms by (meson dq_inv_def le_trans length_filter_le)
  ultimately show ?thesis by (simp add: dq_inv_def dq_purge_items)
qed

lemma dq_purge_correct_example:
  "dq_items (dq_purge (\<lambda>d. d = [3]) \<lparr>queue = Some [[1, 2], [3]], queue_max_len = 2, queue_bytes_size = 3\<rparr>) =
     [[1, 2]]"
  using dq_purge_correct [of "\<lparr>queue = Some [[1, 2], [3]], queue_max_len = 2, queue_bytes_size = 3\<rparr>"
      "\<lambda>d. d = [3]"]
  by (simp add: dq_inv_def dq_items_def)

end
