(* ===== verification/Rtt.thy ===== *)
theory Rtt
  imports Prelude
begin

text \<open>
  \<open>quiche/src/minmax.rs\<close> (windowed minimum and maximum), \<open>quiche/src/recovery/rtt.rs\<close> (the
  round-trip estimator that uses it) and \<open>quiche/src/pmtud.rs\<close> (the path MTU search).

  Instants and durations are nanoseconds. \<open>duration_since\<close> saturates at zero, as subtraction
  on the natural numbers does. \<open>win.div_f32(n)\<close> is the exact quotient for the windows in
  whole seconds that the crate uses (\<open>RTT_WINDOW\<close> is 300 s). A \<open>Duration\<close> overflows beyond
  \<open>2 ^ 64\<close> seconds only, which is not modelled.
\<close>

section \<open>Windowed minimum\<close>

record minmax_sample =
  mm_time :: nat
  mm_value :: nat

text \<open>The array of three estimates.\<close>

record minmax =
  est0 :: minmax_sample
  est1 :: minmax_sample
  est2 :: minmax_sample

definition mm_sample :: "nat \<Rightarrow> nat \<Rightarrow> minmax_sample" where
  "mm_sample t v = \<lparr>mm_time = t, mm_value = v\<rparr>"

definition Minmax_reset :: "nat \<Rightarrow> nat \<Rightarrow> minmax \<Rightarrow> minmax" where
  "Minmax_reset t meas m = \<lparr>est0 = mm_sample t meas, est1 = mm_sample t meas, est2 = mm_sample t meas\<rparr>"

text \<open>\<open>now\<close> is the reading of the clock.\<close>

definition Minmax_new :: "nat \<Rightarrow> nat \<Rightarrow> minmax" where
  "Minmax_new now v = \<lparr>est0 = mm_sample now v, est1 = mm_sample now v, est2 = mm_sample now v\<rparr>"

definition Minmax_deref :: "minmax \<Rightarrow> nat" where
  "Minmax_deref m = mm_value (est0 m)"

definition mm_shift :: "minmax_sample \<Rightarrow> minmax \<Rightarrow> minmax" where
  "mm_shift val m = \<lparr>est0 = est1 m, est1 = est2 m, est2 = val\<rparr>"

definition subwin_update :: "nat \<Rightarrow> nat \<Rightarrow> nat \<Rightarrow> minmax \<Rightarrow> minmax" where
  "subwin_update win t meas m =
     (let val = mm_sample t meas;
          delta_time = t - mm_time (est0 m)
      in if delta_time > win then
           (let m1 = mm_shift val m
            in if t - mm_time (est0 m1) > win then mm_shift val m1 else m1)
         else if mm_time (est1 m) = mm_time (est0 m) \<and> delta_time > win div 4 then
           m\<lparr>est2 := val, est1 := val\<rparr>
         else if mm_time (est2 m) = mm_time (est1 m) \<and> delta_time > win div 2 then
           m\<lparr>est2 := val\<rparr>
         else m)"

definition running_min :: "nat \<Rightarrow> nat \<Rightarrow> nat \<Rightarrow> minmax \<Rightarrow> minmax" where
  "running_min win t meas m =
     (let val = mm_sample t meas;
          delta_time = t - mm_time (est2 m)
      in if meas \<le> mm_value (est0 m) \<or> delta_time > win then Minmax_reset t meas m
         else subwin_update win t meas
           (if meas \<le> mm_value (est1 m) then m\<lparr>est2 := val, est1 := val\<rparr>
            else if meas \<le> mm_value (est2 m) then m\<lparr>est2 := val\<rparr>
            else m))"

definition running_max :: "nat \<Rightarrow> nat \<Rightarrow> nat \<Rightarrow> minmax \<Rightarrow> minmax" where
  "running_max win t meas m =
     (let val = mm_sample t meas;
          delta_time = t - mm_time (est2 m)
      in if meas \<ge> mm_value (est0 m) \<or> delta_time > win then Minmax_reset t meas m
         else subwin_update win t meas
           (if meas \<ge> mm_value (est1 m) then m\<lparr>est2 := val, est1 := val\<rparr>
            else if meas \<ge> mm_value (est2 m) then m\<lparr>est2 := val\<rparr>
            else m))"

text \<open>The estimates are ordered by time, and by value (ascending for the minimum, descending for
  the maximum).\<close>

definition mm_times :: "nat \<Rightarrow> minmax \<Rightarrow> bool" where
  "mm_times now m \<longleftrightarrow> mm_time (est0 m) \<le> mm_time (est1 m) \<and> mm_time (est1 m) \<le> mm_time (est2 m) \<and>
     mm_time (est2 m) \<le> now"

definition mm_min_inv :: "nat \<Rightarrow> minmax \<Rightarrow> bool" where
  "mm_min_inv now m \<longleftrightarrow> mm_times now m \<and>
     mm_value (est0 m) \<le> mm_value (est1 m) \<and> mm_value (est1 m) \<le> mm_value (est2 m)"

definition mm_max_inv :: "nat \<Rightarrow> minmax \<Rightarrow> bool" where
  "mm_max_inv now m \<longleftrightarrow> mm_times now m \<and>
     mm_value (est0 m) \<ge> mm_value (est1 m) \<and> mm_value (est1 m) \<ge> mm_value (est2 m)"

lemmas mm_defs = running_min_def running_max_def subwin_update_def mm_shift_def Minmax_reset_def
  mm_sample_def mm_times_def Minmax_deref_def Let_def

section \<open>Round-trip estimation\<close>

abbreviation (input) INITIAL_RTT :: nat where "INITIAL_RTT \<equiv> 333000000"
abbreviation (input) RTT_WINDOW :: nat where "RTT_WINDOW \<equiv> 300000000000"

record rtt_stats =
  latest_rtt :: nat
  smoothed_rtt :: nat
  rttvar :: nat
  min_rtt :: minmax
  max_ack_delay :: nat
  first_rtt_sample :: "nat option"
  rtt_update_count :: nat

definition RttStats_new :: "nat \<Rightarrow> nat \<Rightarrow> rtt_stats" where
  "RttStats_new now delay =
     \<lparr>latest_rtt = 0, smoothed_rtt = INITIAL_RTT, rttvar = INITIAL_RTT div 2,
      min_rtt = Minmax_new now 0, max_ack_delay = delay, first_rtt_sample = None,
      rtt_update_count = 0\<rparr>"

definition abs_diff :: "nat \<Rightarrow> nat \<Rightarrow> nat" where
  "abs_diff a b = (if a \<le> b then b - a else a - b)"

definition update_rtt :: "nat \<Rightarrow> nat \<Rightarrow> nat \<Rightarrow> bool \<Rightarrow> rtt_stats \<Rightarrow> rtt_stats" where
  "update_rtt latest delay now handshake_confirmed r0 =
     (let r = r0\<lparr>latest_rtt := latest\<rparr> in
      if first_rtt_sample r = None then
        r\<lparr>min_rtt := Minmax_reset now latest (min_rtt r), smoothed_rtt := latest,
          rttvar := latest div 2, first_rtt_sample := Some now\<rparr>
      else
        (let m = running_min RTT_WINDOW now latest (min_rtt r);
             delay' = (if handshake_confirmed then min delay (max_ack_delay r) else delay);
             adjusted = (if latest \<ge> Minmax_deref m + delay' then latest - delay' else latest)
         in r\<lparr>min_rtt := m,
              rttvar := rttvar r * 3 div 4 + (abs_diff (smoothed_rtt r) adjusted mod u64_size) div 4,
              smoothed_rtt := smoothed_rtt r * 7 div 8 + adjusted div 8,
              rtt_update_count := rtt_update_count r + 1\<rparr>))"

definition RttStats_min_rtt :: "rtt_stats \<Rightarrow> nat option" where
  "RttStats_min_rtt r = (if Minmax_deref (min_rtt r) \<noteq> 0 then Some (Minmax_deref (min_rtt r)) else None)"

section \<open>Path MTU discovery\<close>

record pmtud =
  cur_size :: nat
  probe :: nat
  next_size :: bool
  enable :: bool

definition Pmtud_new :: "nat \<Rightarrow> pmtud" where
  "Pmtud_new sz = \<lparr>cur_size = sz, probe = 0, next_size = False, enable = False\<rparr>"

definition should_probe :: "bool \<Rightarrow> pmtud \<Rightarrow> pmtud" where
  "should_probe pmtu_next p = p\<lparr>next_size := pmtu_next\<rparr>"

definition set_probe_size :: "nat \<Rightarrow> pmtud \<Rightarrow> pmtud" where
  "set_probe_size pmtu_probe p = p\<lparr>probe := pmtu_probe\<rparr>"

definition set_current :: "nat \<Rightarrow> pmtud \<Rightarrow> pmtud" where
  "set_current pmtu p = p\<lparr>cur_size := pmtu\<rparr>"

definition update_probe_size :: "pmtud \<Rightarrow> pmtud result" where
  "update_probe_size p =
     try_bind (checked_sub (probe p) (cur_size p)) (\<lambda>d. Inr (p\<lparr>probe := cur_size p + d div 2\<rparr>))"

definition pmtu_probe_lost :: "pmtud \<Rightarrow> pmtud result" where
  "pmtu_probe_lost p = try_bind (update_probe_size p) (\<lambda>p. Inr (should_probe True p))"

primrec probes_lost :: "nat \<Rightarrow> pmtud \<Rightarrow> pmtud result" where
  "probes_lost 0 p = Inr p"
| "probes_lost (Suc n) p = try_bind (pmtu_probe_lost p) (probes_lost n)"

section \<open>Properties\<close>

lemma running_min_bound:
  assumes "mm_min_inv t0 m" "t0 \<le> t"
  shows "mm_min_inv t (running_min win t meas m) \<and> Minmax_deref (running_min win t meas m) \<le> meas \<and>
    t - mm_time (est0 (running_min win t meas m)) \<le> win \<and>
    est0 (running_min win t meas m) \<in> {mm_sample t meas, est0 m, est1 m, est2 m}"
  using assms unfolding mm_min_inv_def mm_defs by auto

text \<open>The windowed minimum keeps its three estimates in time and value order, its estimate
  is at most the new measurement, and the estimate was measured within the window. Reading it
  back is a true lower bound, not a stale one.\<close>

lemma running_min_correct:
  assumes "mm_min_inv t0 m" "t0 \<le> t"
  shows "mm_min_inv t (running_min win t meas m) \<and> Minmax_deref (running_min win t meas m) \<le> meas \<and>
    t - mm_time (est0 (running_min win t meas m)) \<le> win \<and>
    est0 (running_min win t meas m) \<in> {mm_sample t meas, est0 m, est1 m, est2 m}"
  using running_min_bound [OF assms] .

lemma running_min_correct_example:
  "Minmax_deref (running_min 100 50 7 (Minmax_new 0 5)) \<le> 7"
  using running_min_correct [of 0 "Minmax_new 0 5" 50 100 7]
  by (auto simp: mm_min_inv_def mm_times_def Minmax_new_def mm_sample_def)

text \<open>The windowed maximum has the mirrored guarantee.\<close>

lemma running_max_correct:
  assumes "mm_max_inv t0 m" "t0 \<le> t"
  shows "mm_max_inv t (running_max win t meas m) \<and> Minmax_deref (running_max win t meas m) \<ge> meas \<and>
    t - mm_time (est0 (running_max win t meas m)) \<le> win \<and>
    est0 (running_max win t meas m) \<in> {mm_sample t meas, est0 m, est1 m, est2 m}"
  using assms unfolding mm_max_inv_def mm_defs by auto

lemma running_max_correct_example:
  "Minmax_deref (running_max 100 50 7 (Minmax_new 0 9)) \<ge> 7"
  using running_max_correct [of 0 "Minmax_new 0 9" 50 100 7]
  by (auto simp: mm_max_inv_def mm_times_def Minmax_new_def mm_sample_def)



text \<open>Losing path MTU probes is a binary search: with a probe size at least the current
  size it never underflows, every loss halves the distance to the current size, and after
  enough losses the probe size is the current size.\<close>

lemma probes_lost_halves:
  assumes "cur_size p \<le> probe p"
  shows "\<exists>p'. probes_lost n p = Inr p' \<and> cur_size p' = cur_size p \<and>
    probe p' = cur_size p + (probe p - cur_size p) div 2 ^ n \<and>
    (probe p - cur_size p < 2 ^ n \<longrightarrow> probe p' = cur_size p')"
  using assms
proof (induction n arbitrary: p)
  case (Suc n)
  let ?p = "p\<lparr>probe := cur_size p + (probe p - cur_size p) div 2, next_size := True\<rparr>"
  have step: "pmtu_probe_lost p = Inr ?p"
    using Suc.prems by (simp add: pmtu_probe_lost_def update_probe_size_def should_probe_def)
  obtain p' where "probes_lost n ?p = Inr p'" "cur_size p' = cur_size p"
    "probe p' = cur_size p + (probe p - cur_size p) div 2 div 2 ^ n"
    using Suc.IH [of ?p] by auto
  with step show ?case by (auto simp: div_mult2_eq)
qed simp

lemma probes_lost_halves_example:
  "\<exists>p'. probes_lost 9 (set_probe_size 1500 (Pmtud_new 1200)) = Inr p' \<and> probe p' = 1200"
  using probes_lost_halves [of "set_probe_size 1500 (Pmtud_new 1200)" 9]
  by (simp add: set_probe_size_def Pmtud_new_def) blast

end
