(* ===== verification/Packet.thy ===== *)
theory Packet
  imports Codec
begin

unbundle bit_operations_syntax

text \<open>
  \<open>quiche/src/packet.rs\<close>: packet types and epochs, the long and short packet headers, the
  truncation and recovery of packet numbers, header protection, and the window that detects
  duplicate packets.

  The AEAD is not part of the sources. Header protection takes the function that computes the
  five mask bytes from the sample as an argument, and the length of the integrity tag of a
  Retry packet is an argument of the header parser.
\<close>

section \<open>Types and epochs\<close>

abbreviation (input) FORM_BIT :: byte where "FORM_BIT \<equiv> 0x80"
abbreviation (input) FIXED_BIT :: byte where "FIXED_BIT \<equiv> 0x40"
abbreviation (input) KEY_PHASE_BIT :: byte where "KEY_PHASE_BIT \<equiv> 0x04"
abbreviation (input) TYPE_MASK :: byte where "TYPE_MASK \<equiv> 0x30"
abbreviation (input) PKT_NUM_MASK :: byte where "PKT_NUM_MASK \<equiv> 0x03"
abbreviation (input) MAX_CID_LEN :: nat where "MAX_CID_LEN \<equiv> 20"
abbreviation (input) MAX_PKT_NUM_LEN :: nat where "MAX_PKT_NUM_LEN \<equiv> 4"
abbreviation (input) SAMPLE_LEN :: nat where "SAMPLE_LEN \<equiv> 16"

datatype epoch = EInitial | EHandshake | EApplication

datatype pkt_type = TInitial | TRetry | THandshake | ZeroRTT | VersionNegotiation | Short

fun from_epoch :: "epoch \<Rightarrow> pkt_type" where
  "from_epoch EInitial = TInitial"
| "from_epoch EHandshake = THandshake"
| "from_epoch EApplication = Short"

fun to_epoch :: "pkt_type \<Rightarrow> epoch result" where
  "to_epoch TInitial = Inr EInitial"
| "to_epoch ZeroRTT = Inr EApplication"
| "to_epoch THandshake = Inr EHandshake"
| "to_epoch Short = Inr EApplication"
| "to_epoch _ = err InvalidPacket"

section \<open>Headers\<close>

record header =
  ty :: pkt_type
  version :: nat
  dcid :: "byte list"
  scid :: "byte list"
  pkt_num :: nat
  h_pkt_num_len :: nat
  token :: "byte list option"
  versions :: "nat list option"
  key_phase :: bool

definition is_long :: "byte \<Rightarrow> bool" where
  "is_long b \<longleftrightarrow> b AND FORM_BIT \<noteq> 0"

abbreviation (input) PROTOCOL_VERSION_V1 :: nat where "PROTOCOL_VERSION_V1 \<equiv> 1"

definition version_is_supported :: "nat \<Rightarrow> bool" where
  "version_is_supported v \<longleftrightarrow> v = PROTOCOL_VERSION_V1"

definition parse_long_type :: "nat \<Rightarrow> byte \<Rightarrow> pkt_type result" where
  "parse_long_type v first =
     (if v = 0 then Inr VersionNegotiation
      else
        (let k = drop_bit 4 (first AND TYPE_MASK) in
         if k = 0 then Inr TInitial
         else if k = 1 then Inr ZeroRTT
         else if k = 2 then Inr THandshake
         else if k = 3 then Inr TRetry
         else err InvalidPacket))"

definition parse_cid :: "nat \<Rightarrow> byte list parser" where
  "parse_cid v b =
     try_bind (get_u8 b) (\<lambda>(len, b).
       if version_is_supported v \<and> len > MAX_CID_LEN then err InvalidPacket else get_bytes len b)"

text \<open>\<open>while b.cap() > 0\<close> read a version.\<close>

function parse_versions :: "nat list \<Rightarrow> nat list parser" where
  "parse_versions vs b =
     (if cap b > 0 then try_bind (get_u32 b) (\<lambda>(v, b'). parse_versions (vs @ [v]) b')
      else Inr (vs, b))"
  by pat_completeness auto
termination
  by (relation "measure (\<lambda>(vs, b). cap b)") (auto simp: get_u32_def get_u_eq cap_def split: if_splits)

declare parse_versions.simps [simp del]

definition parse_header_tail ::
  "nat \<Rightarrow> pkt_type \<Rightarrow> (byte list option \<times> nat list option) parser" where
  "parse_header_tail tag_len t b =
     (case t of
        TInitial \<Rightarrow> try_bind (get_bytes_with_varint_length b) (\<lambda>(tok, b). Inr ((Some tok, None), b))
      | TRetry \<Rightarrow>
          if cap b < tag_len then err InvalidPacket
          else try_bind (get_bytes (cap b - tag_len) b) (\<lambda>(tok, b). Inr ((Some tok, None), b))
      | VersionNegotiation \<Rightarrow> try_bind (parse_versions [] b) (\<lambda>(vs, b). Inr ((None, Some vs), b))
      | _ \<Rightarrow> Inr ((None, None), b))"

definition parse_short_header :: "nat \<Rightarrow> header parser" where
  "parse_short_header dcid_len b =
     try_bind (get_bytes dcid_len b) (\<lambda>(d, b).
       Inr (\<lparr>ty = Short, version = 0, dcid = d, scid = [], pkt_num = 0, h_pkt_num_len = 0,
             token = None, versions = None, key_phase = False\<rparr>, b))"

definition parse_long_header :: "nat \<Rightarrow> byte \<Rightarrow> header parser" where
  "parse_long_header tag_len first b =
     try_bind (get_u32 b) (\<lambda>(v, b).
     try_bind (parse_long_type v first) (\<lambda>t.
     try_bind (parse_cid v b) (\<lambda>(d, b).
     try_bind (parse_cid v b) (\<lambda>(s, b).
     try_bind (parse_header_tail tag_len t b) (\<lambda>(tail, b).
       Inr (\<lparr>ty = t, version = v, dcid = d, scid = s, pkt_num = 0, h_pkt_num_len = 0,
             token = fst tail, versions = snd tail, key_phase = False\<rparr>, b))))))"

definition Header_from_bytes :: "nat \<Rightarrow> nat \<Rightarrow> header parser" where
  "Header_from_bytes tag_len dcid_len b =
     try_bind (get_u8 b) (\<lambda>(first, b).
       if \<not> is_long (word_of_nat first) then parse_short_header dcid_len b
       else parse_long_header tag_len (word_of_nat first) b)"

definition short_first :: "header \<Rightarrow> byte" where
  "short_first h =
     (let first = (word_of_nat (h_pkt_num_len h - 1) AND NOT FORM_BIT) OR FIXED_BIT
      in if key_phase h then first OR KEY_PHASE_BIT else first AND NOT KEY_PHASE_BIT)"

fun long_type_bits :: "pkt_type \<Rightarrow> byte result" where
  "long_type_bits TInitial = Inr 0"
| "long_type_bits ZeroRTT = Inr 1"
| "long_type_bits THandshake = Inr 2"
| "long_type_bits TRetry = Inr 3"
| "long_type_bits _ = err InvalidPacket"

definition long_first :: "header \<Rightarrow> byte \<Rightarrow> byte" where
  "long_first h t = word_of_nat (h_pkt_num_len h - 1) OR (FORM_BIT OR FIXED_BIT OR push_bit 4 t)"

definition put_header_tail :: "header \<Rightarrow> octets \<Rightarrow> octets result" where
  "put_header_tail h out =
     (case ty h of
        TInitial \<Rightarrow>
          (case token h of
             Some v \<Rightarrow> put_all [put_varint (length v), put_bytes v] out
           | None \<Rightarrow> put_varint 0 out)
      | TRetry \<Rightarrow> (case token h of Some v \<Rightarrow> put_bytes v out | None \<Rightarrow> panic)
      | _ \<Rightarrow> Inr out)"

definition Header_to_bytes :: "header \<Rightarrow> octets \<Rightarrow> octets result" where
  "Header_to_bytes h out =
     (if ty h = Short then put_all [put_u8 (unat (short_first h)), put_bytes (dcid h)] out
      else
        try_bind (long_type_bits (ty h)) (\<lambda>t.
          put_all
            [put_u8 (unat (long_first h t)), put_u32 (version h),
             put_u8 (length (dcid h) mod 256), put_bytes (dcid h),
             put_u8 (length (scid h) mod 256), put_bytes (scid h),
             put_header_tail h] out))"

section \<open>Packet numbers\<close>

text \<open>\<open>u64::BITS - x.leading_zeros()\<close>: the number of significant bits.\<close>

fun bit_len :: "nat \<Rightarrow> nat" where
  "bit_len n = (if n = 0 then 0 else Suc (bit_len (n div 2)))"

declare bit_len.simps [simp del]

definition pkt_num_len :: "nat \<Rightarrow> nat \<Rightarrow> nat result" where
  "pkt_num_len pn largest_acked =
     try_bind (checked_add (pn - largest_acked) 1) (\<lambda>num_unacked.
       Inr ((bit_len num_unacked + 7) div 8))"

text \<open>The operands are below \<open>2 ^ 62\<close> and the length is at most four, so nothing overflows;
  the bit operations are on the low \<open>8 * pn_len\<close> bits.\<close>

definition decode_pkt_num :: "nat \<Rightarrow> nat \<Rightarrow> nat \<Rightarrow> nat" where
  "decode_pkt_num largest_pn truncated_pn pn_len =
     (let pn_nbits = pn_len * 8;
          expected_pn = largest_pn + 1;
          pn_win = 2 ^ pn_nbits;
          pn_hwin = pn_win div 2;
          candidate_pn = (expected_pn - expected_pn mod pn_win) OR truncated_pn
      in if candidate_pn + pn_hwin \<le> expected_pn \<and> candidate_pn < 2 ^ 62 - pn_win
         then candidate_pn + pn_win
         else if candidate_pn > expected_pn + pn_hwin \<and> candidate_pn \<ge> pn_win
         then candidate_pn - pn_win
         else candidate_pn)"

definition encode_pkt_num :: "nat \<Rightarrow> nat \<Rightarrow> octets \<Rightarrow> octets result" where
  "encode_pkt_num pn pn_len b =
     (if pn_len = 1 then put_u8 (pn mod 256) b
      else if pn_len = 2 then put_u16 (pn mod 65536) b
      else if pn_len = 3 then put_u24 (pn mod 4294967296) b
      else if pn_len = 4 then put_u32 (pn mod 4294967296) b
      else err InvalidPacket)"

definition get_pkt_num :: "nat \<Rightarrow> nat parser" where
  "get_pkt_num pn_len b =
     (if pn_len = 1 then get_u8 b else if pn_len = 2 then get_u16 b
      else if pn_len = 3 then get_u24 b else if pn_len = 4 then get_u32 b
      else err InvalidPacket)"

section \<open>Header protection\<close>

text \<open>\<open>new_mask\<close> stands for the cipher: five mask bytes from a sample, or an error.\<close>

type_synonym masker = "byte list \<Rightarrow> byte list result"

definition mask_first :: "byte list \<Rightarrow> byte \<Rightarrow> byte" where
  "mask_first msk first =
     (if is_long first then first XOR (msk ! 0 AND 0x0f) else first XOR (msk ! 0 AND 0x1f))"

text \<open>\<open>buf[i] ^= mask[i + 1]\<close> for the first \<open>n\<close> bytes.\<close>

definition mask_pn :: "byte list \<Rightarrow> nat \<Rightarrow> byte list \<Rightarrow> byte list" where
  "mask_pn msk n bs = map2 (XOR) (take n bs) (take n (tl msk)) @ drop n bs"

text \<open>\<open>b\<close> is the header, with the packet number in its last \<open>pn_len\<close> bytes (its offset is 0
  after the split in \<open>encrypt_pkt\<close>), \<open>payload\<close> the sealed payload. The slice of the payload
  panics when it is too short.\<close>

definition encrypt_hdr :: "masker \<Rightarrow> nat \<Rightarrow> byte list \<Rightarrow> octets \<Rightarrow> octets result" where
  "encrypt_hdr new_mask pn_len payload b =
     (if pn_len > MAX_PKT_NUM_LEN \<or> length payload < SAMPLE_LEN + (MAX_PKT_NUM_LEN - pn_len) then panic
      else
        try_bind (new_mask (take SAMPLE_LEN (drop (MAX_PKT_NUM_LEN - pn_len) payload))) (\<lambda>msk.
        try_bind (split_at 1 b) (\<lambda>(first, rest).
        try_bind (slice_last pn_len rest) (\<lambda>pn_buf.
          let f = mask_first msk (hd (buf first));
              pre = take (length (buf rest) - length pn_buf) (buf rest)
          in Inr (b\<lparr>buf := f # pre @ mask_pn msk pn_len pn_buf\<rparr>)))))"

text \<open>\<open>b\<close> is the packet with the offset at the packet number. Returns the packet with the
  protection removed, the offset after the packet number, the truncated packet number, its
  length, and the key phase bit.\<close>

definition decrypt_hdr ::
  "masker \<Rightarrow> octets \<Rightarrow> ((nat \<times> nat \<times> bool) \<times> octets) result" where
  "decrypt_hdr new_mask b =
     try_bind (split_at 1 b) (\<lambda>(first_buf, _).
     try_bind (peek_bytes (MAX_PKT_NUM_LEN + SAMPLE_LEN) b) (\<lambda>pn_and_sample.
     try_bind (new_mask (drop MAX_PKT_NUM_LEN pn_and_sample)) (\<lambda>msk.
       let first = mask_first msk (hd (buf first_buf));
           pn_len = unat (first AND PKT_NUM_MASK) + 1;
           b1 = b\<lparr>buf := take (off b) (buf b) @ mask_pn msk pn_len (drop (off b) (buf b))\<rparr>
       in try_bind (get_pkt_num pn_len b1) (\<lambda>(pn, b2).
            Inr ((pn, pn_len, first AND KEY_PHASE_BIT \<noteq> 0),
                 b2\<lparr>buf := first # tl (buf b2)\<rparr>)))))"

section \<open>Duplicate detection\<close>

record pkt_num_window =
  lower :: nat
  pn_window :: "128 word"

definition PktNumWindow_default :: pkt_num_window where
  "PktNumWindow_default = \<lparr>lower = 0, pn_window = 0\<rparr>"

text \<open>\<open>saturating_add\<close>, then \<open>- 1\<close>.\<close>

definition upper :: "pkt_num_window \<Rightarrow> nat" where
  "upper w = min (lower w + 128) usize_max - 1"

text \<open>\<open>checked_shl(diff as u32)\<close>: the cast keeps the low 32 bits.\<close>

definition checked_shl :: "128 word \<Rightarrow> nat \<Rightarrow> 128 word" where
  "checked_shl x diff =
     (let d = diff mod 4294967296 in if d < 128 then push_bit d x else 0)"

definition PktNumWindow_insert :: "nat \<Rightarrow> pkt_num_window \<Rightarrow> pkt_num_window" where
  "PktNumWindow_insert seq w =
     (if seq < lower w then w
      else
        (let w1 =
           (if seq > upper w then
              (let diff = seq - upper w
               in \<lparr>lower = lower w + diff, pn_window = checked_shl (pn_window w) diff\<rparr>)
            else w)
         in w1\<lparr>pn_window := pn_window w1 OR push_bit (upper w1 - seq) 1\<rparr>))"

definition PktNumWindow_contains :: "nat \<Rightarrow> pkt_num_window \<Rightarrow> bool" where
  "PktNumWindow_contains seq w =
     (if seq > upper w then False
      else if seq < lower w then True
      else pn_window w AND push_bit (upper w - seq) 1 \<noteq> 0)"

section \<open>Packet number recovery\<close>

lemma or_disjoint_add: "t < 2 ^ k \<Longrightarrow> (q * 2 ^ k) OR t = q * 2 ^ k + (t :: nat)"
proof -
  assume "t < 2 ^ k"
  then have t: "take_bit k t = t" by (simp add: take_bit_nat_eq_self_iff)
  have "push_bit k q AND take_bit k t = 0"
    by (rule bit_eqI) (auto simp: bit_simps)
  then have "push_bit k q + take_bit k t = push_bit k q OR take_bit k t"
    by (simp add: disjunctive_add_eq_or)
  then show ?thesis by (simp add: t push_bit_eq_mult)
qed

lemma bit_len_unique: "0 < k \<Longrightarrow> 2 ^ (k - 1) \<le> n \<Longrightarrow> n < 2 ^ k \<Longrightarrow> bit_len n = k"
proof (induction k arbitrary: n)
  case (Suc k)
  show ?case
  proof (cases "k = 0")
    case True
    with Suc.prems have "n = 1" by simp
    then show ?thesis using True by (simp add: bit_len.simps [of "Suc 0"] bit_len.simps [of 0])
  next
    case False
    then have "(2::nat) ^ k = 2 * 2 ^ (k - 1)" by (cases k) auto
    then have "2 ^ (k - 1) \<le> n div 2" "n div 2 < 2 ^ k" "n \<noteq> 0" using Suc.prems by auto
    with Suc.IH [of "n div 2"] False show ?thesis by (subst bit_len.simps) simp
  qed
qed simp

lemma decode_candidate:
  "decode_pkt_num largest (pn mod 2 ^ (len * 8)) len =
     (let e = largest + 1; w = 2 ^ (len * 8); h = w div 2; c = e div w * w + pn mod w
      in if c + h \<le> e \<and> c < 2 ^ 62 - w then c + w
         else if c > e + h \<and> c \<ge> w then c - w else c)"
proof -
  let ?w = "2 ^ (len * 8) :: nat"
  have "e - e mod ?w = e div ?w * ?w" for e by (simp add: minus_mod_eq_div_mult)
  then show ?thesis
    using or_disjoint_add [of "pn mod ?w" "len * 8"] by (simp add: decode_pkt_num_def Let_def)
qed

lemma block_neighbours:
  fixes e pn w :: nat
  assumes "0 < w" "pn \<le> e + w" "e < pn + w"
  shows "pn div w = e div w \<or> pn div w = e div w + 1 \<or> pn div w + 1 = e div w"
proof -
  have "pn div w \<le> (e + w) div w" using assms by (intro div_le_mono)
  moreover have "e div w \<le> (pn + w) div w" using assms by (intro div_le_mono) simp
  moreover have "(x + w) div w = x div w + 1" for x
    using assms(1) div_add_self2 [of w x] by simp
  ultimately show ?thesis by (simp only:) linarith
qed

lemma decode_pkt_num_window:
  assumes "len \<in> {1, 2, 3, 4}" "pn < 2 ^ 62"
    and "pn \<le> largest + 1 + 2 ^ (len * 8) div 2" "largest + 1 < pn + 2 ^ (len * 8) div 2"
  shows "decode_pkt_num largest (pn mod 2 ^ (len * 8)) len = pn"
proof -
  define w :: nat where "w = 2 ^ (len * 8)"
  define e where "e = largest + 1"
  define h where "h = w div 2"
  have w: "w = 2 * h" "0 < h" "w < 2 ^ 62"
    using assms(1) by (auto simp: w_def h_def)
  have rng: "pn \<le> e + h" "e < pn + h" using assms(3,4) by (simp_all add: e_def h_def w_def)
  have pn: "pn = pn div w * w + pn mod w" by (rule div_mult_mod_eq [symmetric])
  have "pn div w = e div w \<or> pn div w = e div w + 1 \<or> pn div w + 1 = e div w"
    using w rng by (intro block_neighbours) auto
  then have "e div w * w + pn mod w = pn \<or> e div w * w + pn mod w + w = pn \<or>
      e div w * w + pn mod w = pn + w"
  proof (elim disjE)
    assume "pn div w = e div w"
    then show ?thesis using pn by simp
  next
    assume "pn div w = e div w + 1"
    then have "pn = (e div w + 1) * w + pn mod w" using pn by simp
    then show ?thesis by (simp add: algebra_simps)
  next
    assume "pn div w + 1 = e div w"
    then have "e div w * w = pn div w * w + w" by (metis add_mult_distrib mult_1)
    then show ?thesis using pn by simp
  qed
  moreover define c where "c = e div w * w + pn mod w"
  ultimately consider "c = pn" | "c + w = pn" | "c = pn + w" by auto
  then have "(if c + h \<le> e \<and> c < 2 ^ 62 - w then c + w
      else if c > e + h \<and> c \<ge> w then c - w else c) = pn"
    using w rng assms(2) by cases simp_all
  then show ?thesis
    unfolding c_def h_def e_def w_def by (simp only: decode_candidate Let_def)
qed

lemma be_bytes_mod: "n \<le> k \<Longrightarrow> be_bytes n (v mod 256 ^ k) = be_bytes n v"
proof (induction n)
  case (Suc n)
  obtain c where k: "k = n + Suc c" using Suc.prems by (auto simp: le_iff_add)
  have "v mod 256 ^ k div 256 ^ n = v div 256 ^ n mod (256 * 256 ^ c)"
  proof -
    have "(256::nat) ^ k = 256 ^ n * (256 * 256 ^ c)" by (simp add: k power_add)
    then show ?thesis by (simp only: mod_mult2_eq [of v "256 ^ n"]) simp
  qed
  then have "v mod 256 ^ k div 256 ^ n mod 256 = v div 256 ^ n mod 256"
    by (simp add: mod_mod_cancel)
  then have "(word_of_nat (v mod 256 ^ k div 256 ^ n) :: byte) = word_of_nat (v div 256 ^ n)"
    by (simp add: word_of_nat_eq_iff take_bit_eq_mod)
  with Suc show ?case by simp
qed simp

text \<open>C34: A packet number truncated to \<open>n\<close> bytes is recovered exactly by a receiver whose next
  expected packet number is less than half of the \<open>n\<close>-byte range away.\<close>

theorem decode_pkt_num_correct:
  assumes "len \<in> {1, 2, 3, 4}" "pn < 2 ^ 62" "octets_wf b" "encode_pkt_num pn len b = Inr b'"
    and "pn \<le> largest + 1 + 2 ^ (len * 8) div 2" "largest + 1 < pn + 2 ^ (len * 8) div 2"
  shows "\<exists>t. get_pkt_num len (b'\<lparr>off := off b\<rparr>) = Inr (t, b') \<and> decode_pkt_num largest t len = pn"
proof -
  let ?t = "pn mod 2 ^ (len * 8)"
  have em: "emits (encode_pkt_num pn len) (be_bytes len pn)"
    using assms(1) be_bytes_mod [of 1 1 pn] be_bytes_mod [of 2 2 pn] be_bytes_mod [of 3 4 pn]
      be_bytes_mod [of 4 4 pn]
    by (auto simp: emits_def encode_pkt_num_def put_u8_def put_u16_def put_u24_def put_u32_def put_u_eq)
  note D = emitsD [OF em assms(3,4)]
  have "(256::nat) ^ len = 2 ^ (len * 8)" using assms(1) by auto
  then have "be_val (be_bytes len pn) = ?t" by (simp add: be_val_be_bytes_mod)
  then have "get_u len (b'\<lparr>off := off b\<rparr>) = Inr (?t, b')"
    using D(1,2) by (simp add: get_u_eq)
  then have "get_pkt_num len (b'\<lparr>off := off b\<rparr>) = Inr (?t, b')"
    using assms(1) by (auto simp: get_pkt_num_def get_u8_def get_u16_def get_u24_def get_u32_def)
  then show ?thesis using decode_pkt_num_window [OF assms(1,2,5,6)] by blast
qed

theorem decode_pkt_num_correct_witness:
  "\<exists>t. get_pkt_num 2 \<lparr>buf = [0x9b, 0x32], off = 0\<rparr> = Inr (t, \<lparr>buf = [0x9b, 0x32], off = 2\<rparr>) \<and>
     decode_pkt_num 0xa82f30ea t 2 = 0xa82f9b32"
proof -
  have "encode_pkt_num 0xa82f9b32 2 \<lparr>buf = [0, 0], off = 0\<rparr> = Inr \<lparr>buf = [0x9b, 0x32], off = 2\<rparr>"
    by (simp add: encode_pkt_num_def put_u16_def put_u_def be_bytes_numerals)
  from decode_pkt_num_correct [OF _ _ _ this, where largest = "0xa82f30ea"] show ?thesis
    by (simp add: octets_wf_def)
qed

text \<open>C37: The encoder can choose too few bytes. When the packet number is between 130 and 254
  above the largest acknowledged one, \<open>pkt_num_len\<close> gives one byte (it lacks the extra bit for
  the half window), and a receiver that knows exactly the acknowledged packet number
  recovers a packet number that is 256 too small.\<close>

theorem pkt_num_len_too_short:
  assumes "130 \<le> d" "d \<le> 254" "256 \<le> largest + d" "largest + d < 2 ^ 62 - 256"
  shows "pkt_num_len (largest + d) largest = Inr 1 \<and>
    decode_pkt_num largest ((largest + d) mod 256) 1 = largest + d - 256"
proof -
  have "bit_len (d + 1) = 8" using assms(1,2) by (intro bit_len_unique) simp_all
  then have len: "pkt_num_len (largest + d) largest = Inr 1"
    using assms(2) by (simp add: pkt_num_len_def)
  define e pn where "e = largest + 1" and "pn = largest + d"
  have rng: "e + 128 < pn" "pn \<le> e + 253" "256 \<le> pn" "pn < 2 ^ 62 - 256"
    using assms by (simp_all add: e_def pn_def)
  define c where "c = e div 256 * 256 + pn mod 256"
  have pn: "pn = pn div 256 * 256 + pn mod 256" by (rule div_mult_mod_eq [symmetric])
  have "pn div 256 = e div 256 \<or> pn div 256 = e div 256 + 1 \<or> pn div 256 + 1 = e div 256"
    using rng by (intro block_neighbours) auto
  moreover have "e div 256 \<le> pn div 256" using rng by (intro div_le_mono) simp
  ultimately have "pn div 256 = e div 256 \<or> pn div 256 = e div 256 + 1" by linarith
  then have "c = pn \<or> c + 256 = pn" unfolding c_def using pn by linarith
  then have "(if c + 128 \<le> e \<and> c < 2 ^ 62 - 256 then c + 256
      else if c > e + 128 \<and> c \<ge> 256 then c - 256 else c) = pn - 256"
    using rng by auto
  moreover have "decode_pkt_num largest (pn mod 256) 1 =
      (if c + 128 \<le> e \<and> c < 2 ^ 62 - 256 then c + 256
       else if c > e + 128 \<and> c \<ge> 256 then c - 256 else c)"
    using decode_candidate [of largest pn 1] by (simp add: c_def e_def Let_def)
  ultimately show ?thesis using len by (simp add: pn_def)
qed

theorem pkt_num_len_too_short_witness:
  "pkt_num_len 1200 1000 = Inr 1 \<and> decode_pkt_num 1000 (1200 mod 256) 1 = 944"
  using pkt_num_len_too_short [of 200 1000] by simp

section \<open>The duplicate window\<close>

lemma window_bit: "k < 128 \<Longrightarrow> ((w :: 128 word) AND push_bit k 1 \<noteq> 0) = bit w k"
  by (simp add: push_bit_of_1 and_exp_eq_0_iff_not_bit)

lemma bit_push_one: "k < 128 \<Longrightarrow> bit (push_bit n 1 :: 128 word) k \<longleftrightarrow> n = k"
  by (auto simp: bit_simps)

lemma contains_eq:
  "lower w + 128 \<le> usize_max \<Longrightarrow> lower w \<le> x \<Longrightarrow> x \<le> lower w + 127 \<Longrightarrow>
     PktNumWindow_contains x w \<longleftrightarrow> bit (pn_window w) (lower w + 127 - x)"
proof -
  assume wf: "lower w + 128 \<le> usize_max" "lower w \<le> x" "x \<le> lower w + 127"
  then have "upper w = lower w + 127" by (simp add: upper_def)
  with wf show ?thesis
    using window_bit [of "lower w + 127 - x" "pn_window w"]
    by (simp add: PktNumWindow_contains_def del: push_bit_of_1)
qed

text \<open>Sliding the window to the right by a distance below \<open>2 ^ 32\<close>.\<close>

definition slide :: "nat \<Rightarrow> pkt_num_window \<Rightarrow> pkt_num_window" where
  "slide seq w =
     (if seq > upper w
      then \<lparr>lower = lower w + (seq - upper w), pn_window = checked_shl (pn_window w) (seq - upper w)\<rparr>
      else w)"

lemma slide_contains:
  assumes "lower w + 128 \<le> usize_max" "seq < usize_max" "seq - upper w < 4294967296"
  shows "lower (slide seq w) + 128 \<le> usize_max" "upper (slide seq w) = max seq (upper w)"
    "PktNumWindow_contains x (slide seq w) \<longleftrightarrow> PktNumWindow_contains x w \<or> x < lower (slide seq w)"
proof -
  have up: "upper w = lower w + 127" using assms(1) by (simp add: upper_def)
  show lo: "lower (slide seq w) + 128 \<le> usize_max" "upper (slide seq w) = max seq (upper w)"
    using assms up by (auto simp: slide_def upper_def)
  show "PktNumWindow_contains x (slide seq w) \<longleftrightarrow> PktNumWindow_contains x w \<or> x < lower (slide seq w)"
  proof (cases "seq > upper w \<and> lower (slide seq w) \<le> x \<and> x \<le> seq")
    case True
    define d where "d = seq - upper w"
    have l: "lower (slide seq w) = lower w + d" "pn_window (slide seq w) = checked_shl (pn_window w) d"
      using True by (simp_all add: slide_def d_def)
    have "PktNumWindow_contains x (slide seq w) \<longleftrightarrow>
        bit (checked_shl (pn_window w) d) (lower w + d + 127 - x)"
    proof -
      have "x \<le> lower (slide seq w) + 127" using True up l(1) by (simp add: d_def)
      with contains_eq [OF lo(1), of x] True show ?thesis by (simp add: l)
    qed
    also have "\<dots> \<longleftrightarrow> d < 128 \<and> x \<le> upper w \<and> bit (pn_window w) (lower w + 127 - x)"
      using assms(3) True up l(1)
      by (auto simp: checked_shl_def d_def bit_simps Let_def split: if_splits)
    also have "\<dots> \<longleftrightarrow> PktNumWindow_contains x w"
      using contains_eq [OF assms(1), of x] True up l(1)
      by (auto simp: PktNumWindow_contains_def upper_def)
    finally show ?thesis using True by simp
  next
    case False
    then show ?thesis
      using lo(2) up by (auto simp: PktNumWindow_contains_def slide_def upper_def split: if_splits)
  qed
qed

text \<open>C31: After inserting a packet number, the window reports exactly the packet numbers it
  reported before, the new one, and those that fell off its left edge: a duplicate is always
  detected, whatever is inserted afterwards, and within the window a packet that was never
  inserted is never reported. The distance to the right edge must be below \<open>2 ^ 32\<close>, the
  width of the cast of the shift.\<close>

theorem pkt_num_window_insert:
  assumes "lower w + 128 \<le> usize_max" "seq < usize_max" "seq - upper w < 4294967296"
  shows "PktNumWindow_contains x (PktNumWindow_insert seq w) \<longleftrightarrow>
    x = seq \<or> PktNumWindow_contains x w \<or> x < lower (PktNumWindow_insert seq w)"
proof (cases "seq < lower w")
  case True
  with assms(1) show ?thesis by (auto simp: PktNumWindow_insert_def PktNumWindow_contains_def upper_def)
next
  case False
  note sl = slide_contains [OF assms]
  let ?s = "slide seq w"
  have ins: "PktNumWindow_insert seq w =
      ?s\<lparr>pn_window := pn_window ?s OR push_bit (upper ?s - seq) 1\<rparr>" (is "_ = ?i")
    using False by (simp add: PktNumWindow_insert_def slide_def Let_def)
  have up: "upper ?s = lower ?s + 127" "upper ?i = upper ?s" using sl(1) by (simp_all add: upper_def)
  have seq: "lower ?s \<le> seq" "seq \<le> upper ?s"
    using False sl(2) up assms(1) by (auto simp: slide_def upper_def split: if_splits)
  have "PktNumWindow_contains x ?i \<longleftrightarrow> x = seq \<or> PktNumWindow_contains x ?s"
  proof (cases "lower ?s \<le> x \<and> x \<le> upper ?s")
    case True
    then have k: "upper ?s - x < 128" using up(1) by linarith
    have "PktNumWindow_contains x ?i \<longleftrightarrow> bit (pn_window ?s OR push_bit (upper ?s - seq) 1) (upper ?s - x)"
      using True up k by (simp add: PktNumWindow_contains_def window_bit del: push_bit_of_1)
    also have "\<dots> \<longleftrightarrow> bit (pn_window ?s) (upper ?s - x) \<or> upper ?s - seq = upper ?s - x"
      by (simp add: bit_or_iff bit_push_one [OF k] del: push_bit_of_1)
    also have "upper ?s - seq = upper ?s - x \<longleftrightarrow> x = seq" using True seq by linarith
    also have "bit (pn_window ?s) (upper ?s - x) \<longleftrightarrow> PktNumWindow_contains x ?s"
      using True k by (simp add: PktNumWindow_contains_def window_bit del: push_bit_of_1)
    finally show ?thesis by auto
  next
    case False
    then show ?thesis using seq up by (auto simp: PktNumWindow_contains_def)
  qed
  then show ?thesis using sl(3) [of x] ins by auto
qed

theorem pkt_num_window_insert_witness:
  "PktNumWindow_contains 5 (PktNumWindow_insert 5 PktNumWindow_default) \<and>
   \<not> PktNumWindow_contains 6 (PktNumWindow_insert 5 PktNumWindow_default)"
  using pkt_num_window_insert [of PktNumWindow_default 5 5] pkt_num_window_insert [of PktNumWindow_default 5 6]
  by (simp add: PktNumWindow_default_def upper_def PktNumWindow_contains_def PktNumWindow_insert_def)

section \<open>Header protection is undone\<close>

lemma xor_and_keep: "(b XOR (m AND k)) AND f = b AND (f :: byte)" if "k AND f = 0"
proof (rule bit_word_eqI)
  fix n assume "n < LENGTH(8)"
  have "\<not> (bit k n \<and> bit f n)" using that by (metis bit_and_iff bit_0_eq bot_apply bot_bool_def)
  then show "bit ((b XOR (m AND k)) AND f) n = bit (b AND f) n"
    by (auto simp: bit_and_iff bit_xor_iff)
qed

lemma is_long_mask [simp]: "is_long (mask_first m b) = is_long b"
  by (simp add: is_long_def mask_first_def xor_and_keep)

lemma mask_first_twice [simp]: "mask_first m (mask_first m b) = b"
proof -
  have "mask_first m b = (if is_long b then b XOR (m ! 0 AND 0x0f) else b XOR (m ! 0 AND 0x1f))"
    by (simp add: mask_first_def)
  moreover have "mask_first m c = (if is_long c then c XOR (m ! 0 AND 0x0f) else c XOR (m ! 0 AND 0x1f))" for c
    by (simp add: mask_first_def)
  ultimately show ?thesis using is_long_mask [of m b] by (simp add: xor.assoc)
qed

lemma length_mask_pn: "n \<le> length bs \<Longrightarrow> n < length m \<Longrightarrow> length (mask_pn m n bs) = length bs"
  by (cases m) (auto simp: mask_pn_def min_def)

lemma map2_xor_twice:
  "length xs \<le> length ys \<Longrightarrow> map2 (XOR) (map2 (XOR) xs ys) ys = (xs :: byte list)"
proof (induction xs arbitrary: ys)
  case (Cons x xs)
  then show ?case by (cases ys) (auto simp: xor.assoc)
qed simp

lemma mask_pn_twice:
  assumes "n = length xs" "n < length m"
  shows "mask_pn m n (mask_pn m n xs @ ys) = xs @ ys"
proof -
  have len: "length (map2 (XOR) xs (take n (tl m))) = n" using assms by (cases m) auto
  have "mask_pn m n xs = map2 (XOR) xs (take n (tl m))" using assms(1) by (simp add: mask_pn_def)
  with len assms show ?thesis by (simp add: mask_pn_def map2_xor_twice)
qed



section \<open>Header round trip\<close>

definition header_ok :: "header \<Rightarrow> bool" where
  "header_ok h \<longleftrightarrow> version h < 4294967296 \<and> (ty h \<in> {TInitial, ZeroRTT, THandshake, TRetry} \<longrightarrow> version h \<noteq> 0) \<and>
     ty h \<in> {TInitial, ZeroRTT, THandshake, TRetry, Short} \<and>
     length (dcid h) \<le> MAX_CID_LEN \<and> length (scid h) \<le> MAX_CID_LEN \<and> h_pkt_num_len h \<le> 4 \<and>
     (ty h = TRetry \<longrightarrow> token h \<noteq> None) \<and>
     (case token h of Some t \<Rightarrow> length t < varint_limit | None \<Rightarrow> True)"

text \<open>What the parser gives back: the packet number and the key phase are still protected, a
  missing Initial token is read as an empty one, and types without a token have none.\<close>

definition header_read :: "header \<Rightarrow> header" where
  "header_read h =
     (if ty h = Short then
        \<lparr>ty = Short, version = 0, dcid = dcid h, scid = [], pkt_num = 0, h_pkt_num_len = 0,
         token = None, versions = None, key_phase = False\<rparr>
      else
        \<lparr>ty = ty h, version = version h, dcid = dcid h, scid = scid h, pkt_num = 0, h_pkt_num_len = 0,
         token = (case ty h of TInitial \<Rightarrow> Some (case token h of Some t \<Rightarrow> t | None \<Rightarrow> [])
                  | TRetry \<Rightarrow> token h | _ \<Rightarrow> None),
         versions = None, key_phase = False\<rparr>)"

definition tail_bytes :: "header \<Rightarrow> byte list" where
  "tail_bytes h =
     (case ty h of
        TInitial \<Rightarrow> (case token h of Some v \<Rightarrow> varint_bytes (length v) @ v | None \<Rightarrow> varint_bytes 0)
      | TRetry \<Rightarrow> (case token h of Some v \<Rightarrow> v | None \<Rightarrow> [])
      | _ \<Rightarrow> [])"

definition header_bytes :: "header \<Rightarrow> byte list" where
  "header_bytes h =
     (if ty h = Short then be_bytes 1 (unat (short_first h)) @ dcid h
      else be_bytes 1 (unat (long_first h (case long_type_bits (ty h) of Inr t \<Rightarrow> t | Inl _ \<Rightarrow> 0))) @
        be_bytes 4 (version h) @ be_bytes 1 (length (dcid h)) @ dcid h @
        be_bytes 1 (length (scid h)) @ scid h @ tail_bytes h)"

lemma emits_tail: "header_ok h \<Longrightarrow> emits (put_header_tail h) (tail_bytes h)"
proof (cases "ty h")
  case TInitial
  assume ok: "header_ok h"
  show ?thesis
  proof (cases "token h")
    case None
    then show ?thesis
      using TInitial emits_varint [of 0] by (simp add: put_header_tail_def tail_bytes_def emits_def)
  next
    case (Some v)
    with ok have "emits (put_all [put_varint (length v), put_bytes v]) (varint_bytes (length v) @ v @ [])"
      by (intro emits_all_Cons emits_prims emits_all_Nil) (simp add: header_ok_def)
    with Some TInitial show ?thesis by (simp add: put_header_tail_def tail_bytes_def emits_def)
  qed
qed (auto simp: put_header_tail_def tail_bytes_def emits_def header_ok_def split: option.splits)

lemma emits_header:
  assumes "header_ok h"
  shows "emits (Header_to_bytes h) (header_bytes h)"
proof (cases "ty h = Short")
  case True
  have "emits (put_all [put_u8 (unat (short_first h)), put_bytes (dcid h)])
      (be_bytes 1 (unat (short_first h)) @ dcid h @ [])"
    by (intro emits_all_Cons emits_prims emits_all_Nil)
  with True show ?thesis by (simp add: Header_to_bytes_def header_bytes_def emits_def)
next
  case False
  then obtain t where t: "long_type_bits (ty h) = Inr t"
    using assms by (auto simp: header_ok_def)
  have mod: "length (dcid h) mod 256 = length (dcid h)" "length (scid h) mod 256 = length (scid h)"
    using assms by (auto simp: header_ok_def)
  have "emits (put_all [put_u8 (unat (long_first h t)), put_u32 (version h), put_u8 (length (dcid h)),
      put_bytes (dcid h), put_u8 (length (scid h)), put_bytes (scid h), put_header_tail h])
      (be_bytes 1 (unat (long_first h t)) @ be_bytes 4 (version h) @ be_bytes 1 (length (dcid h)) @ dcid h @
        be_bytes 1 (length (scid h)) @ scid h @ tail_bytes h @ [])"
    by (intro emits_all_Cons emits_prims emits_all_Nil emits_tail assms)
  with False t mod show ?thesis by (simp add: Header_to_bytes_def header_bytes_def emits_def)
qed

lemma short_first_not_long: "h_pkt_num_len h \<le> 4 \<Longrightarrow> \<not> is_long (short_first h)"
proof -
  assume "h_pkt_num_len h \<le> 4"
  then have "h_pkt_num_len h - 1 \<in> {0, 1, 2, 3}" by auto
  then show ?thesis by (auto simp: is_long_def short_first_def Let_def)
qed

lemma long_first_type:
  assumes "h_pkt_num_len h \<le> 4" "long_type_bits (ty h) = Inr t" "v \<noteq> 0"
  shows "is_long (long_first h t)" "parse_long_type v (long_first h t) = Inr (ty h)"
proof -
  have n: "h_pkt_num_len h - 1 \<in> {0, 1, 2, 3}" using assms(1) by auto
  have t: "(ty h, t) \<in> {(TInitial, 0), (ZeroRTT, 1), (THandshake, 2), (TRetry, 3)}"
    using assms(2) by (cases "ty h") auto
  show "is_long (long_first h t)"
    using n t by (auto simp: is_long_def long_first_def)
  show "parse_long_type v (long_first h t) = Inr (ty h)"
    using n t assms(3) by (auto simp: parse_long_type_def long_first_def Let_def)
qed

lemma reads_cid: "length c \<le> MAX_CID_LEN \<Longrightarrow> reads (parse_cid v) (be_bytes 1 (length c) @ c) c"
  unfolding parse_cid_def
  by (rule reads_bind [OF reads_u8]) (simp_all add: reads_bytes)

text \<open>The bytes after the header: a Retry token ends \<open>tag_len\<close> bytes before the end of the
  packet.\<close>

definition header_follow :: "nat \<Rightarrow> header \<Rightarrow> byte list \<Rightarrow> bool" where
  "header_follow tag_len h r \<longleftrightarrow> (ty h = TRetry \<longrightarrow> length r = tag_len)"

lemma reads_tail:
  assumes ok: "header_ok h" and long: "ty h \<noteq> Short"
  shows "reads_if (header_follow tag_len h) (parse_header_tail tag_len (ty h)) (tail_bytes h)
    (token (header_read h), None)"
proof (cases "ty h")
  case TInitial
  let ?v = "case token h of Some t \<Rightarrow> t | None \<Rightarrow> []"
  have "reads get_bytes_with_varint_length (varint_bytes (length ?v) @ ?v) ?v"
    using ok by (intro reads_bytes_with_varint_length) (auto simp: header_ok_def split: option.splits)
  moreover have "tail_bytes h = varint_bytes (length ?v) @ ?v"
    using TInitial by (simp add: tail_bytes_def split: option.splits)
  ultimately have "reads (parse_header_tail tag_len (ty h)) (tail_bytes h) (token (header_read h), None)"
    using TInitial reads_map [of get_bytes_with_varint_length "varint_bytes (length ?v) @ ?v" ?v
        "(Some ?v, None)" "\<lambda>t. (Some t, None)"]
    by (simp add: parse_header_tail_def [abs_def] header_read_def)
  then show ?thesis by (rule reads_weaken)
next
  case TRetry
  then obtain v where v: "token h = Some v" using ok by (auto simp: header_ok_def)
  then show ?thesis
    using TRetry by (simp add: reads_if_def parse_header_tail_def tail_bytes_def header_follow_def
        header_read_def get_bytes_eq cap_as_ref)
qed (use ok long in \<open>auto simp: header_ok_def parse_header_tail_def tail_bytes_def header_read_def
      reads_if_def\<close>)

lemma header_read_long:
  "ty h \<noteq> Short \<Longrightarrow> header_read h =
     \<lparr>ty = ty h, version = version h, dcid = dcid h, scid = scid h, pkt_num = 0, h_pkt_num_len = 0,
      token = token (header_read h), versions = None, key_phase = False\<rparr>"
  by (simp add: header_read_def)

lemma reads_long_header:
  assumes ok: "header_ok h" and long: "ty h \<noteq> Short" and t: "long_type_bits (ty h) = Inr t"
  shows "reads_if (header_follow tag_len h) (parse_long_header tag_len (long_first h t))
    (be_bytes 4 (version h) @ be_bytes 1 (length (dcid h)) @ dcid h @
      be_bytes 1 (length (scid h)) @ scid h @ tail_bytes h) (header_read h)"
proof -
  have h: "version h < 4294967296" "version h \<noteq> 0" "length (dcid h) \<le> 20" "length (scid h) \<le> 20"
    "h_pkt_num_len h \<le> 4"
    using ok long by (auto simp: header_ok_def)
  have tail: "reads_if (header_follow tag_len h) (\<lambda>b. try_bind (parse_header_tail tag_len (ty h) b) (\<lambda>(tail, b).
       Inr (\<lparr>ty = ty h, version = version h, dcid = dcid h, scid = scid h, pkt_num = 0, h_pkt_num_len = 0,
             token = fst tail, versions = snd tail, key_phase = False\<rparr>, b))) (tail_bytes h) (header_read h)"
    using reads_tail [OF ok long, of tag_len] header_read_long [OF long]
    unfolding reads_if_def by (simp add: header_read_def long)
  show ?thesis
    unfolding parse_long_header_def
    apply (rule reads_bind [OF reads_u32 [OF h(1)]])
    apply (simp only: long_first_type(2) [OF h(5) t h(2)] try_bind_Inr)
    apply (simp only: append_assoc [symmetric, of "be_bytes 1 _" _ ])
    apply (rule reads_bind [OF reads_cid [OF h(3)]])
    apply (rule reads_bind [OF reads_cid [OF h(4)]])
    apply (rule tail)
    done
qed

lemma reads_header:
  assumes ok: "header_ok h"
  shows "reads_if (header_follow tag_len h) (Header_from_bytes tag_len (length (dcid h)))
    (header_bytes h) (header_read h)"
proof (cases "ty h = Short")
  case True
  have "reads (\<lambda>b. try_bind (get_u8 b) (\<lambda>(first, b).
       if \<not> is_long (word_of_nat first) then parse_short_header (length (dcid h)) b
       else parse_long_header tag_len (word_of_nat first) b))
      (be_bytes 1 (unat (short_first h)) @ dcid h) (header_read h)"
  proof (rule reads_bind [OF reads_u8])
    have "reads (parse_short_header (length (dcid h))) (dcid h) (header_read h)"
      unfolding parse_short_header_def
      by (rule reads_map [OF reads_bytes]) (simp_all add: header_read_def True)
    then show "reads (\<lambda>b. if \<not> is_long (word_of_nat (unat (short_first h))) then parse_short_header (length (dcid h)) b
        else parse_long_header tag_len (word_of_nat (unat (short_first h))) b) (dcid h) (header_read h)"
      using short_first_not_long [of h] ok by (simp add: header_ok_def)
  qed simp
  with True show ?thesis
    unfolding Header_from_bytes_def header_bytes_def by (simp add: reads_weaken)
next
  case False
  then obtain t where t: "long_type_bits (ty h) = Inr t"
    using ok by (auto simp: header_ok_def)
  have v: "version h \<noteq> 0" "h_pkt_num_len h \<le> 4" using ok False by (auto simp: header_ok_def)
  have "reads_if (header_follow tag_len h) (\<lambda>b. try_bind (get_u8 b) (\<lambda>(first, b).
       if \<not> is_long (word_of_nat first) then parse_short_header (length (dcid h)) b
       else parse_long_header tag_len (word_of_nat first) b))
      (be_bytes 1 (unat (long_first h t)) @ be_bytes 4 (version h) @ be_bytes 1 (length (dcid h)) @ dcid h @
      be_bytes 1 (length (scid h)) @ scid h @ tail_bytes h) (header_read h)"
    by (rule reads_bind [OF reads_u8])
      (use reads_long_header [OF ok False t] long_first_type(1) [OF v(2) t v(1)] in simp_all)
  with False t show ?thesis
    unfolding Header_from_bytes_def header_bytes_def by simp
qed

text \<open>C33: A packet header written by \<open>to_bytes\<close> is read back by \<open>from_bytes\<close>: same type, version,
  connection IDs and token, with the offset after the header. A Retry token is delimited by the
  integrity tag that follows it.\<close>

theorem header_roundtrip:
  assumes "header_ok h" "octets_wf b" "Header_to_bytes h b = Inr b'" "ty h = TRetry \<longrightarrow> cap b' = tag_len"
  shows "Header_from_bytes tag_len (length (dcid h)) (b'\<lparr>off := off b\<rparr>) = Inr (header_read h, b')"
proof -
  note D = emitsD [OF emits_header [OF assms(1)] assms(2,3)]
  have "header_follow tag_len h (as_ref b')"
    using assms(4) by (simp add: header_follow_def cap_as_ref)
  with readsD [OF reads_header [OF assms(1), of tag_len] D(1)] D(2) show ?thesis by simp
qed

theorem header_roundtrip_witness:
  "Header_from_bytes 16 2 \<lparr>buf = [0x43, 7, 8, 0], off = 0\<rparr> =
     Inr (\<lparr>ty = Short, version = 0, dcid = [7, 8], scid = [], pkt_num = 0, h_pkt_num_len = 0,
          token = None, versions = None, key_phase = False\<rparr>, \<lparr>buf = [0x43, 7, 8, 0], off = 3\<rparr>)"
proof -
  let ?h = "\<lparr>ty = Short, version = 1, dcid = [7, 8], scid = [], pkt_num = 77, h_pkt_num_len = 4,
    token = None, versions = None, key_phase = False\<rparr>"
  have "Header_to_bytes ?h \<lparr>buf = [0, 0, 0, 0], off = 0\<rparr> = Inr \<lparr>buf = [0x43, 7, 8, 0], off = 3\<rparr>"
    by (simp add: Header_to_bytes_def put_u8_def put_u_def put_bytes_def cap_def short_first_def Let_def)
  moreover have "header_ok ?h" by (simp add: header_ok_def)
  ultimately show ?thesis
    using header_roundtrip [of ?h "\<lparr>buf = [0, 0, 0, 0], off = 0\<rparr>" "\<lparr>buf = [0x43, 7, 8, 0], off = 3\<rparr>" 16]
    by (simp add: octets_wf_def header_read_def numeral_2_eq_2)
qed

end
