(* ===== verification/Frame.thy ===== *)
theory Frame
  imports Ranges Range_Buf Packet
begin

unbundle bit_operations_syntax

text \<open>
  \<open>quiche/src/frame.rs\<close>: the QUIC frames with the multipath and flexicast extensions, their
  parser, their serialiser, the predicted wire length, and the table of frames allowed per
  packet type. A parser takes the buffer and returns the value with the advanced buffer.
\<close>

section \<open>Frames\<close>

record ecn_counts =
  ect0_count :: nat
  ect1_count :: nat
  ecn_ce_count :: nat

text \<open>\<open>crypto/mod.rs\<close>.\<close>

datatype algorithm = AES128_GCM | AES256_GCM | ChaCha20_Poly1305

text \<open>\<open>flexicast/congestion/mod.rs\<close>: the congestion windows of a receiver, and the
  quality-of-service flags, a two-bit \<open>bitflags\<close> set.\<close>

record fc_congestion_info =
  ci_cwnd :: nat
  ci_mc_cwnds :: "(byte list \<times> nat) list"
  ci_rtt :: nat

type_synonym fc_qos = nat

text \<open>\<open>FcQos::from_bits\<close> rejects bits outside the declared flags 0x01 and 0x02.\<close>

definition FcQos_from_bits :: "nat \<Rightarrow> fc_qos option" where
  "FcQos_from_bits v = (if v < 4 then Some v else None)"

datatype frame =
    Padding nat
  | Ping "nat option"
  | ACK nat range_set "ecn_counts option"
  | ResetStream nat nat nat
  | StopSending nat nat
  | Crypto range_buf
  | CryptoHeader nat nat
  | NewToken "byte list"
  | Stream nat range_buf
  | StreamHeader nat nat nat bool
  | MaxData nat
  | MaxStreamData nat nat
  | MaxStreamsBidi nat
  | MaxStreamsUni nat
  | DataBlocked nat
  | StreamDataBlocked nat nat
  | StreamsBlockedBidi nat
  | StreamsBlockedUni nat
  | NewConnectionId nat nat "byte list" "byte list"
  | RetireConnectionId nat
  | PathChallenge "byte list"
  | PathResponse "byte list"
  | ConnectionClose nat nat "byte list"
  | ApplicationClose nat "byte list"
  | HandshakeDone
  | Datagram "byte list"
  | DatagramHeader nat
  | PathAck nat nat range_set "ecn_counts option"
  | PathAbandon nat nat
  | PathBackup nat nat
  | PathAvailable nat nat
  | PathNewConnectionId nat nat nat "byte list" "byte list"
  | PathRetireConnectionId nat nat
  | MaxPathId nat
  | PathsBlocked nat
  | McAnnounce "byte list" nat nat nat "byte list" "byte list" nat nat "byte list" "nat option" fc_qos
  | McState "byte list" nat nat
  | McKey "byte list" "byte list" algorithm nat
  | FcCongestionInfo fc_congestion_info

abbreviation (input) MC_ANNOUNCE_CODE :: nat where "MC_ANNOUNCE_CODE \<equiv> 0xf2"
abbreviation (input) MC_ANNOUNCE_BW_CODE :: nat where "MC_ANNOUNCE_BW_CODE \<equiv> 0xf3"
abbreviation (input) MC_STATE_CODE :: nat where "MC_STATE_CODE \<equiv> 0xf4"
abbreviation (input) MC_KEY_CODE :: nat where "MC_KEY_CODE \<equiv> 0xf5"
abbreviation (input) MC_CONGESTION_INFO_CODE :: nat where "MC_CONGESTION_INFO_CODE \<equiv> 0xf9"
abbreviation (input) MAX_STREAM_SIZE :: nat where "MAX_STREAM_SIZE \<equiv> varint_limit"

definition Algorithm_from_u8 :: "nat \<Rightarrow> algorithm result" where
  "Algorithm_from_u8 v =
     (if v = 0 then Inr AES128_GCM else if v = 1 then Inr AES256_GCM
      else if v = 2 then Inr ChaCha20_Poly1305 else err CryptoFail)"

fun Algorithm_to_u8 :: "algorithm \<Rightarrow> nat" where
  "Algorithm_to_u8 AES128_GCM = 0"
| "Algorithm_to_u8 AES256_GCM = 1"
| "Algorithm_to_u8 ChaCha20_Poly1305 = 2"

section \<open>Parsing\<close>

text \<open>Runs of \<open>b.get_varint()?\<close>.\<close>

definition get_varint1 :: "(nat \<Rightarrow> 'a) \<Rightarrow> 'a parser" where
  "get_varint1 f b = try_bind (get_varint b) (\<lambda>(x, b). Inr (f x, b))"

definition get_varint2 :: "(nat \<Rightarrow> nat \<Rightarrow> 'a) \<Rightarrow> 'a parser" where
  "get_varint2 f b = try_bind (get_varint b) (\<lambda>(x, b). get_varint1 (f x) b)"

definition get_varint3 :: "(nat \<Rightarrow> nat \<Rightarrow> nat \<Rightarrow> 'a) \<Rightarrow> 'a parser" where
  "get_varint3 f b = try_bind (get_varint b) (\<lambda>(x, b). get_varint2 (f x) b)"

text \<open>The loop of the padding arm.\<close>

function parse_padding :: "nat \<Rightarrow> frame parser" where
  "parse_padding len b =
     (if peek_u8 b = Inr 0 then try_bind (get_u8 b) (\<lambda>(_, b'). parse_padding (len + 1) b')
      else Inr (Padding len, b))"
  by pat_completeness auto
termination
  by (relation "measure (\<lambda>(len, b). cap b)") (auto simp: get_u8_def get_u_eq cap_def as_ref_def split: if_splits)

declare parse_padding.simps [simp del]

text \<open>The loop of \<open>parse_common_ack_frame\<close> over the remaining blocks.\<close>

primrec parse_ack_blocks :: "nat \<Rightarrow> nat \<Rightarrow> range_set \<Rightarrow> range_set parser" where
  "parse_ack_blocks 0 smallest_ack rset b = Inr (rset, b)"
| "parse_ack_blocks (Suc n) smallest_ack rset b =
     try_bind (get_varint b) (\<lambda>(gap, b).
       if smallest_ack < 2 + gap then err InvalidFrame
       else
         (let largest_ack = (smallest_ack - gap) - 2 in
          try_bind (get_varint b) (\<lambda>(ack_block, b).
            if largest_ack < ack_block then err InvalidFrame
            else
              (let smallest_ack = largest_ack - ack_block in
               try_bind (RangeSet_insert (smallest_ack, largest_ack + 1) rset) (\<lambda>rset.
                 parse_ack_blocks n smallest_ack rset b)))))"

definition parse_ecn :: "bool \<Rightarrow> ecn_counts option parser" where
  "parse_ecn has_ecn b =
     (if has_ecn
      then get_varint3 (\<lambda>e0 e1 ce. Some \<lparr>ect0_count = e0, ect1_count = e1, ecn_ce_count = ce\<rparr>) b
      else Inr (None, b))"

definition parse_common_ack_frame ::
  "bool \<Rightarrow> (nat \<times> range_set \<times> ecn_counts option) parser" where
  "parse_common_ack_frame has_ecn b =
     try_bind (get_varint b) (\<lambda>(largest_ack, b).
     try_bind (get_varint b) (\<lambda>(ack_delay, b).
     try_bind (get_varint b) (\<lambda>(block_count, b).
     try_bind (get_varint b) (\<lambda>(ack_block, b).
       if largest_ack < ack_block then err InvalidFrame
       else
         (let smallest_ack = largest_ack - ack_block in
          try_bind (RangeSet_insert (smallest_ack, largest_ack + 1) RangeSet_default) (\<lambda>rset.
          try_bind (parse_ack_blocks block_count smallest_ack rset b) (\<lambda>(rset, b).
          try_bind (parse_ecn has_ecn b) (\<lambda>(ecn, b).
            Inr ((ack_delay, rset, ecn), b)))))))))"

definition parse_ack_frame :: "nat \<Rightarrow> frame parser" where
  "parse_ack_frame t b =
     try_bind (parse_common_ack_frame (t AND 1 \<noteq> 0) b) (\<lambda>((ack_delay, rset, ecn), b).
       Inr (ACK ack_delay rset ecn, b))"

definition parse_path_ack_frame :: "nat \<Rightarrow> frame parser" where
  "parse_path_ack_frame t b =
     try_bind (get_varint b) (\<lambda>(path_identifier, b).
     try_bind (parse_common_ack_frame (t AND 1 \<noteq> 0) b) (\<lambda>((ack_delay, rset, ecn), b).
       Inr (PathAck path_identifier ack_delay rset ecn, b)))"

text \<open>The offset and length of a STREAM frame are optional on the wire.\<close>

definition parse_stream_frame :: "nat \<Rightarrow> frame parser" where
  "parse_stream_frame t b =
     try_bind (get_varint b) (\<lambda>(stream_id, b).
     try_bind (if t AND 0x04 \<noteq> 0 then get_varint b else Inr (0, b)) (\<lambda>(offset, b).
     try_bind (if t AND 0x02 \<noteq> 0 then get_varint b else Inr (cap b, b)) (\<lambda>(len, b).
       if offset + len \<ge> MAX_STREAM_SIZE then err InvalidFrame
       else
         try_bind (get_bytes len b) (\<lambda>(bs, b).
           Inr (Stream stream_id (RangeBuf_from bs offset (t AND 0x01 \<noteq> 0)), b)))))"

definition parse_datagram_frame :: "nat \<Rightarrow> frame parser" where
  "parse_datagram_frame t b =
     try_bind (if t AND 0x01 \<noteq> 0 then get_varint b else Inr (cap b, b)) (\<lambda>(len, b).
     try_bind (get_bytes len b) (\<lambda>(bs, b). Inr (Datagram bs, b)))"

definition parse_crypto :: "frame parser" where
  "parse_crypto b =
     try_bind (get_varint b) (\<lambda>(offset, b).
     try_bind (get_bytes_with_varint_length b) (\<lambda>(bs, b).
       Inr (Crypto (RangeBuf_from bs offset False), b)))"

definition parse_new_token :: "frame parser" where
  "parse_new_token b =
     try_bind (get_varint b) (\<lambda>(len, b).
       if len = 0 then err InvalidFrame
       else try_bind (get_bytes len b) (\<lambda>(bs, b). Inr (NewToken bs, b)))"

text \<open>The connection ID and the reset token of the two NEW_CONNECTION_ID frames.\<close>

definition parse_cid_token :: "(byte list \<Rightarrow> byte list \<Rightarrow> frame) \<Rightarrow> frame parser" where
  "parse_cid_token f b =
     try_bind (get_u8 b) (\<lambda>(conn_id_len, b).
       if \<not> (1 \<le> conn_id_len \<and> conn_id_len \<le> MAX_CID_LEN) then err InvalidFrame
       else
         try_bind (get_bytes conn_id_len b) (\<lambda>(conn_id, b).
         try_bind (get_bytes 16 b) (\<lambda>(reset_token, b). Inr (f conn_id reset_token, b))))"

definition parse_new_connection_id :: "frame parser" where
  "parse_new_connection_id b =
     try_bind (get_varint b) (\<lambda>(seq_num, b).
     try_bind (get_varint b) (\<lambda>(retire_prior_to, b).
       parse_cid_token (NewConnectionId seq_num retire_prior_to) b))"

definition parse_path_new_connection_id :: "frame parser" where
  "parse_path_new_connection_id b =
     try_bind (get_varint b) (\<lambda>(path_id, b).
     try_bind (get_varint b) (\<lambda>(seq_num, b).
     try_bind (get_varint b) (\<lambda>(retire_prior_to, b).
       parse_cid_token (PathNewConnectionId path_id seq_num retire_prior_to) b)))"

definition parse_connection_close :: "frame parser" where
  "parse_connection_close b =
     try_bind (get_varint b) (\<lambda>(error_code, b).
     try_bind (get_varint b) (\<lambda>(frame_type, b).
     try_bind (get_bytes_with_varint_length b) (\<lambda>(reason, b).
       Inr (ConnectionClose error_code frame_type reason, b))))"

definition parse_application_close :: "frame parser" where
  "parse_application_close b =
     try_bind (get_varint b) (\<lambda>(error_code, b).
     try_bind (get_bytes_with_varint_length b) (\<lambda>(reason, b).
       Inr (ApplicationClose error_code reason, b)))"

text \<open>\<open>FcQos::from_bits(b.get_u8()?).unwrap()\<close> panics on an unknown bit.\<close>

definition parse_mc_announce :: "nat \<Rightarrow> frame parser" where
  "parse_mc_announce t b =
     try_bind (get_bytes_with_u8_length b) (\<lambda>(channel_id, b).
     try_bind (get_u8 b) (\<lambda>(probe_path, b).
     try_bind (get_u8 b) (\<lambda>(is_ipv6_addr, b).
     try_bind (get_u8 b) (\<lambda>(reset_stream_on_join, b).
     try_bind (get_bytes 4 b) (\<lambda>(source_ip, b).
     try_bind (get_bytes 4 b) (\<lambda>(group_ip, b).
     try_bind (get_u16 b) (\<lambda>(udp_port, b).
     try_bind (get_u64 b) (\<lambda>(expiration_timer, b).
     try_bind (get_varint b) (\<lambda>(key_len, b).
     try_bind (get_bytes key_len b) (\<lambda>(public_key, b).
     try_bind (if t = MC_ANNOUNCE_BW_CODE then get_varint1 Some b else Inr (None, b)) (\<lambda>(bitrate, b).
     try_bind (get_u8 b) (\<lambda>(bits, b).
       case FcQos_from_bits bits of
         None \<Rightarrow> panic
       | Some qos \<Rightarrow>
           Inr (McAnnounce channel_id is_ipv6_addr probe_path reset_stream_on_join source_ip group_ip
                  udp_port expiration_timer public_key bitrate qos, b)))))))))))))"

definition parse_mc_state :: "frame parser" where
  "parse_mc_state b =
     try_bind (get_bytes_with_u8_length b) (\<lambda>(channel_id, b). get_varint2 (McState channel_id) b)"

definition parse_mc_key :: "frame parser" where
  "parse_mc_key b =
     try_bind (get_bytes_with_u8_length b) (\<lambda>(channel_id, b).
     try_bind (get_varint b) (\<lambda>(key_len, b).
     try_bind (get_bytes key_len b) (\<lambda>(key, b).
     try_bind (get_u8 b) (\<lambda>(code, b).
     try_bind (Algorithm_from_u8 code) (\<lambda>algo.
       get_varint1 (McKey channel_id key algo) b)))))"

primrec parse_mc_cwnds :: "nat \<Rightarrow> (byte list \<times> nat) list parser" where
  "parse_mc_cwnds 0 b = Inr ([], b)"
| "parse_mc_cwnds (Suc n) b =
     try_bind (get_bytes_with_u8_length b) (\<lambda>(channel_id, b).
     try_bind (get_u32 b) (\<lambda>(mc_cwnd, b).
     try_bind (parse_mc_cwnds n b) (\<lambda>(rest, b). Inr ((channel_id, mc_cwnd) # rest, b))))"

definition parse_congestion_info :: "frame parser" where
  "parse_congestion_info b =
     try_bind (get_u32 b) (\<lambda>(cwnd, b).
     try_bind (get_varint b) (\<lambda>(rtt, b).
     try_bind (get_u8 b) (\<lambda>(sz, b).
     try_bind (parse_mc_cwnds sz b) (\<lambda>(mc_cwnds, b).
       Inr (FcCongestionInfo \<lparr>ci_cwnd = cwnd, ci_mc_cwnds = mc_cwnds, ci_rtt = rtt\<rparr>, b)))))"

text \<open>The match on the frame type, in three parts.\<close>

definition parse_frame_mc :: "nat \<Rightarrow> frame parser" where
  "parse_frame_mc t b =
     (if t = MC_ANNOUNCE_CODE \<or> t = MC_ANNOUNCE_BW_CODE then parse_mc_announce t b
      else if t = MC_STATE_CODE then parse_mc_state b
      else if t = MC_KEY_CODE then parse_mc_key b
      else if t = MC_CONGESTION_INFO_CODE then parse_congestion_info b
      else err InvalidFrame)"

definition parse_frame_mp :: "nat \<Rightarrow> frame parser" where
  "parse_frame_mp t b =
     (if t = 0x15228c00 \<or> t = 0x15228c01 then parse_path_ack_frame t b
      else if t = 0x15228c05 then get_varint2 PathAbandon b
      else if t = 0x15228c07 then get_varint2 PathBackup b
      else if t = 0x15228c08 then get_varint2 PathAvailable b
      else if t = 0x15228c09 then parse_path_new_connection_id b
      else if t = 0x15228c0a then get_varint2 PathRetireConnectionId b
      else if t = 0x15228c0c then get_varint1 MaxPathId b
      else if t = 0x15228c0d then get_varint1 PathsBlocked b
      else parse_frame_mc t b)"

definition parse_frame_quic :: "nat \<Rightarrow> frame parser" where
  "parse_frame_quic t b =
     (if t = 0x00 then parse_padding 1 b
      else if t = 0x01 then Inr (Ping None, b)
      else if t = 0x02 \<or> t = 0x03 then parse_ack_frame t b
      else if t = 0x04 then get_varint3 ResetStream b
      else if t = 0x05 then get_varint2 StopSending b
      else if t = 0x06 then parse_crypto b
      else if t = 0x07 then parse_new_token b
      else if 0x08 \<le> t \<and> t \<le> 0x0f then parse_stream_frame t b
      else if t = 0x10 then get_varint1 MaxData b
      else if t = 0x11 then get_varint2 MaxStreamData b
      else if t = 0x12 then get_varint1 MaxStreamsBidi b
      else if t = 0x13 then get_varint1 MaxStreamsUni b
      else if t = 0x14 then get_varint1 DataBlocked b
      else if t = 0x15 then get_varint2 StreamDataBlocked b
      else if t = 0x16 then get_varint1 StreamsBlockedBidi b
      else if t = 0x17 then get_varint1 StreamsBlockedUni b
      else if t = 0x18 then parse_new_connection_id b
      else if t = 0x19 then get_varint1 RetireConnectionId b
      else if t = 0x1a then try_bind (get_bytes 8 b) (\<lambda>(d, b). Inr (PathChallenge d, b))
      else if t = 0x1b then try_bind (get_bytes 8 b) (\<lambda>(d, b). Inr (PathResponse d, b))
      else if t = 0x1c then parse_connection_close b
      else if t = 0x1d then parse_application_close b
      else if t = 0x1e then Inr (HandshakeDone, b)
      else if t = 0x30 \<or> t = 0x31 then parse_datagram_frame t b
      else parse_frame_mp t b)"

text \<open>The frames each packet type may carry.\<close>

definition any_pkt_frame :: "frame \<Rightarrow> bool" where
  "any_pkt_frame f = (case f of Padding _ \<Rightarrow> True | Ping _ \<Rightarrow> True | _ \<Rightarrow> False)"

definition zero_rtt_forbidden :: "frame \<Rightarrow> bool" where
  "zero_rtt_forbidden f =
     (case f of ACK _ _ _ \<Rightarrow> True | Crypto _ \<Rightarrow> True | HandshakeDone \<Rightarrow> True | NewToken _ \<Rightarrow> True
      | PathResponse _ \<Rightarrow> True | RetireConnectionId _ \<Rightarrow> True | ConnectionClose _ _ _ \<Rightarrow> True
      | PathAck _ _ _ _ \<Rightarrow> True | PathAbandon _ _ \<Rightarrow> True | PathBackup _ _ \<Rightarrow> True
      | PathAvailable _ _ \<Rightarrow> True | PathNewConnectionId _ _ _ _ _ \<Rightarrow> True
      | PathRetireConnectionId _ _ \<Rightarrow> True | MaxPathId _ \<Rightarrow> True | PathsBlocked _ \<Rightarrow> True
      | _ \<Rightarrow> False)"

definition handshake_frame :: "frame \<Rightarrow> bool" where
  "handshake_frame f =
     (case f of ACK _ _ _ \<Rightarrow> True | Crypto _ \<Rightarrow> True | ConnectionClose _ _ _ \<Rightarrow> True | _ \<Rightarrow> False)"

definition frame_allowed :: "pkt_type \<Rightarrow> frame \<Rightarrow> bool" where
  "frame_allowed pkt f =
     (if any_pkt_frame f then True
      else if pkt = ZeroRTT \<and> zero_rtt_forbidden f then False
      else if handshake_frame f then True
      else if pkt = Short then True
      else if pkt = ZeroRTT then True
      else False)"

definition Frame_from_bytes :: "pkt_type \<Rightarrow> frame parser" where
  "Frame_from_bytes pkt b =
     try_bind (get_varint b) (\<lambda>(frame_type, b).
     try_bind (parse_frame_quic frame_type b) (\<lambda>(frame, b).
       if \<not> frame_allowed pkt frame then err InvalidPacket else Inr (frame, b)))"

section \<open>Serialisation\<close>

definition encode_crypto_header :: "nat \<Rightarrow> nat \<Rightarrow> octets \<Rightarrow> octets result" where
  "encode_crypto_header offset len =
     put_all [put_varint 0x06, put_varint offset, put_varint_with_len len 2]"

definition stream_type :: "bool \<Rightarrow> nat" where
  "stream_type fin = (let t = 0x08 OR 0x04 OR 0x02 in if fin then t OR 0x01 else t)"

definition encode_stream_header :: "nat \<Rightarrow> nat \<Rightarrow> nat \<Rightarrow> bool \<Rightarrow> octets \<Rightarrow> octets result" where
  "encode_stream_header stream_id offset len fin =
     put_all [put_varint (stream_type fin), put_varint stream_id, put_varint offset,
       put_varint_with_len len 2]"

definition encode_dgram_header :: "nat \<Rightarrow> octets \<Rightarrow> octets result" where
  "encode_dgram_header len = put_all [put_varint (0x30 OR 0x01), put_varint_with_len len 2]"

text \<open>The loop over the older blocks, from the newest to the oldest. Each subtraction of the
  source is checked: an empty, adjacent or overlapping range panics.\<close>

fun put_ack_blocks :: "nat \<Rightarrow> range list \<Rightarrow> octets \<Rightarrow> octets result" where
  "put_ack_blocks smallest_ack [] b = Inr b"
| "put_ack_blocks smallest_ack ((s, e) # blocks) b =
     try_bind (try_bind (checked_sub smallest_ack e) (\<lambda>d. checked_sub d 1)) (\<lambda>gap.
     try_bind (try_bind (checked_sub e 1) (\<lambda>d. checked_sub d s)) (\<lambda>ack_block.
     try_bind (put_varint gap b) (\<lambda>b.
     try_bind (put_varint ack_block b) (\<lambda>b.
       put_ack_blocks s blocks b))))"

definition put_ecn :: "ecn_counts option \<Rightarrow> octets \<Rightarrow> octets result" where
  "put_ecn ecn =
     (case ecn of None \<Rightarrow> Inr
      | Some c \<Rightarrow> put_all [put_varint (ect0_count c), put_varint (ect1_count c), put_varint (ecn_ce_count c)])"

definition common_ack_to_bytes ::
  "nat \<Rightarrow> range_set \<Rightarrow> ecn_counts option \<Rightarrow> octets \<Rightarrow> octets result" where
  "common_ack_to_bytes ack_delay rset ecn b =
     (case rev (RangeSet_iter rset) of
        [] \<Rightarrow> panic
      | (s, e) # it \<Rightarrow>
          try_bind (checked_sub e 1) (\<lambda>largest.
          try_bind (checked_sub largest s) (\<lambda>ack_block.
            put_all [put_varint largest, put_varint ack_delay, put_varint (length it),
              put_varint ack_block, put_ack_blocks s it, put_ecn ecn] b)))"

text \<open>The bytes of a \<open>RangeBuf\<close> after its header.\<close>

definition put_range_buf ::
  "(nat \<Rightarrow> nat \<Rightarrow> octets \<Rightarrow> octets result) \<Rightarrow> range_buf \<Rightarrow> octets \<Rightarrow> octets result" where
  "put_range_buf hdr d b =
     try_bind (RangeBuf_off d) (\<lambda>offset.
     try_bind (RangeBuf_len d) (\<lambda>len.
     try_bind (hdr offset len b) (\<lambda>b.
     try_bind (RangeBuf_deref d) (\<lambda>bs. put_bytes bs b))))"

definition put_mc_announce ::
  "byte list \<Rightarrow> nat \<Rightarrow> nat \<Rightarrow> nat \<Rightarrow> byte list \<Rightarrow> byte list \<Rightarrow> nat \<Rightarrow> nat \<Rightarrow> byte list \<Rightarrow> nat option \<Rightarrow>
     fc_qos \<Rightarrow> octets \<Rightarrow> octets result" where
  "put_mc_announce channel_id is_ipv6_addr probe_path reset_stream_on_join source_ip group_ip
     udp_port expiration_timer public_key bitrate qos =
     put_all
       [put_varint (if bitrate \<noteq> None then MC_ANNOUNCE_BW_CODE else MC_ANNOUNCE_CODE),
        put_u8 (length channel_id mod 256), put_bytes channel_id,
        put_u8 probe_path, put_u8 is_ipv6_addr, put_u8 reset_stream_on_join,
        put_bytes source_ip, put_bytes group_ip, put_u16 udp_port, put_u64 expiration_timer,
        put_varint (length public_key), put_bytes public_key,
        (case bitrate of Some bw \<Rightarrow> put_varint bw | None \<Rightarrow> Inr),
        put_u8 qos]"

definition put_mc_state :: "byte list \<Rightarrow> nat \<Rightarrow> nat \<Rightarrow> octets \<Rightarrow> octets result" where
  "put_mc_state channel_id action action_data =
     put_all [put_varint MC_STATE_CODE, put_u8 (length channel_id mod 256), put_bytes channel_id,
       put_varint action, put_varint action_data]"

definition put_mc_key :: "byte list \<Rightarrow> byte list \<Rightarrow> algorithm \<Rightarrow> nat \<Rightarrow> octets \<Rightarrow> octets result" where
  "put_mc_key channel_id key algo first_pn =
     put_all [put_varint MC_KEY_CODE, put_u8 (length channel_id mod 256), put_bytes channel_id,
       put_varint (length key), put_bytes key, put_u8 (Algorithm_to_u8 algo), put_varint first_pn]"

definition put_congestion_info :: "fc_congestion_info \<Rightarrow> octets \<Rightarrow> octets result" where
  "put_congestion_info info =
     put_all
       ([put_varint MC_CONGESTION_INFO_CODE, put_u32 (ci_cwnd info mod 4294967296),
         put_varint (ci_rtt info mod u64_size), put_u8 (length (ci_mc_cwnds info) mod 256)] @
        concat (map (\<lambda>(channel_id, mc_cwnd).
          [put_u8 (length channel_id mod 256), put_bytes channel_id, put_u32 (mc_cwnd mod 4294967296)])
          (ci_mc_cwnds info)))"

definition put_new_connection_id :: "nat list \<Rightarrow> byte list \<Rightarrow> byte list \<Rightarrow> octets \<Rightarrow> octets result" where
  "put_new_connection_id nums conn_id reset_token =
     put_all (map put_varint nums @
       [put_u8 (length conn_id mod 256), put_bytes conn_id, put_bytes reset_token])"

text \<open>The multipath and flexicast arms.\<close>

fun put_frame_ext :: "frame \<Rightarrow> octets \<Rightarrow> octets result" where
  "put_frame_ext (PathAck path_identifier ack_delay rset ecn) =
     put_all [put_varint (if ecn = None then 0x15228c00 else 0x15228c01), put_varint path_identifier,
       common_ack_to_bytes ack_delay rset ecn]"
| "put_frame_ext (PathAbandon path_id error_code) =
     put_all [put_varint 0x15228c05, put_varint path_id, put_varint error_code]"
| "put_frame_ext (PathBackup path_id seq_num) =
     put_all [put_varint 0x15228c07, put_varint path_id, put_varint seq_num]"
| "put_frame_ext (PathAvailable path_id seq_num) =
     put_all [put_varint 0x15228c08, put_varint path_id, put_varint seq_num]"
| "put_frame_ext (PathNewConnectionId path_id seq_num retire_prior_to conn_id reset_token) =
     put_new_connection_id [0x15228c09, path_id, seq_num, retire_prior_to] conn_id reset_token"
| "put_frame_ext (PathRetireConnectionId path_id seq_num) =
     put_all [put_varint 0x15228c0a, put_varint path_id, put_varint seq_num]"
| "put_frame_ext (MaxPathId max_path_id) = put_all [put_varint 0x15228c0c, put_varint max_path_id]"
| "put_frame_ext (PathsBlocked max_path_id) = put_all [put_varint 0x15228c0d, put_varint max_path_id]"
| "put_frame_ext (McAnnounce channel_id v6 probe rst sip gip port timer key bitrate qos) =
     put_mc_announce channel_id v6 probe rst sip gip port timer key bitrate qos"
| "put_frame_ext (McState channel_id action action_data) = put_mc_state channel_id action action_data"
| "put_frame_ext (McKey channel_id key algo first_pn) = put_mc_key channel_id key algo first_pn"
| "put_frame_ext (FcCongestionInfo info) = put_congestion_info info"
| "put_frame_ext _ = Inr"

fun put_frame_quic :: "frame \<Rightarrow> octets \<Rightarrow> octets result" where
  "put_frame_quic (Padding len) = put_all (replicate len (put_varint 0x00))"
| "put_frame_quic (Ping _) = put_varint 0x01"
| "put_frame_quic (ACK ack_delay rset ecn) =
     put_all [put_varint (if ecn = None then 0x02 else 0x03), common_ack_to_bytes ack_delay rset ecn]"
| "put_frame_quic (ResetStream stream_id error_code final_size) =
     put_all [put_varint 0x04, put_varint stream_id, put_varint error_code, put_varint final_size]"
| "put_frame_quic (StopSending stream_id error_code) =
     put_all [put_varint 0x05, put_varint stream_id, put_varint error_code]"
| "put_frame_quic (Crypto d) = put_range_buf encode_crypto_header d"
| "put_frame_quic (CryptoHeader _ _) = Inr"
| "put_frame_quic (NewToken tok) = put_all [put_varint 0x07, put_varint (length tok), put_bytes tok]"
| "put_frame_quic (Stream stream_id d) =
     put_range_buf (\<lambda>offset len. encode_stream_header stream_id offset len (rb_fin d)) d"
| "put_frame_quic (StreamHeader _ _ _ _) = Inr"
| "put_frame_quic (MaxData m) = put_all [put_varint 0x10, put_varint m]"
| "put_frame_quic (MaxStreamData stream_id m) = put_all [put_varint 0x11, put_varint stream_id, put_varint m]"
| "put_frame_quic (MaxStreamsBidi m) = put_all [put_varint 0x12, put_varint m]"
| "put_frame_quic (MaxStreamsUni m) = put_all [put_varint 0x13, put_varint m]"
| "put_frame_quic (DataBlocked limit) = put_all [put_varint 0x14, put_varint limit]"
| "put_frame_quic (StreamDataBlocked stream_id limit) =
     put_all [put_varint 0x15, put_varint stream_id, put_varint limit]"
| "put_frame_quic (StreamsBlockedBidi limit) = put_all [put_varint 0x16, put_varint limit]"
| "put_frame_quic (StreamsBlockedUni limit) = put_all [put_varint 0x17, put_varint limit]"
| "put_frame_quic (NewConnectionId seq_num retire_prior_to conn_id reset_token) =
     put_new_connection_id [0x18, seq_num, retire_prior_to] conn_id reset_token"
| "put_frame_quic (RetireConnectionId seq_num) = put_all [put_varint 0x19, put_varint seq_num]"
| "put_frame_quic (PathChallenge d) = put_all [put_varint 0x1a, put_bytes d]"
| "put_frame_quic (PathResponse d) = put_all [put_varint 0x1b, put_bytes d]"
| "put_frame_quic (ConnectionClose error_code frame_type reason) =
     put_all [put_varint 0x1c, put_varint error_code, put_varint frame_type,
       put_varint (length reason), put_bytes reason]"
| "put_frame_quic (ApplicationClose error_code reason) =
     put_all [put_varint 0x1d, put_varint error_code, put_varint (length reason), put_bytes reason]"
| "put_frame_quic HandshakeDone = put_varint 0x1e"
| "put_frame_quic (Datagram d) = put_all [encode_dgram_header (length d), put_bytes d]"
| "put_frame_quic (DatagramHeader _) = Inr"
| "put_frame_quic f = put_frame_ext f"

text \<open>Returns the number of bytes written, \<open>before - b.cap()\<close>.\<close>

definition Frame_to_bytes :: "frame \<Rightarrow> octets \<Rightarrow> (nat \<times> octets) result" where
  "Frame_to_bytes f b = try_bind (put_frame_quic f b) (\<lambda>b'. Inr (cap b - cap b', b'))"

section \<open>Predicted length\<close>

definition len_sum :: "nat result list \<Rightarrow> nat result" where
  "len_sum xs = fold_res (\<lambda>r acc. try_bind r (\<lambda>x. checked_add acc x)) xs 0"

fun ack_blocks_len :: "nat \<Rightarrow> range list \<Rightarrow> nat result list" where
  "ack_blocks_len smallest_ack [] = []"
| "ack_blocks_len smallest_ack ((s, e) # blocks) =
     try_bind (try_bind (checked_sub smallest_ack e) (\<lambda>d. checked_sub d 1)) varint_len #
     try_bind (try_bind (checked_sub e 1) (\<lambda>d. checked_sub d s)) varint_len #
     ack_blocks_len s blocks"

definition ecn_len :: "ecn_counts option \<Rightarrow> nat result list" where
  "ecn_len ecn =
     (case ecn of None \<Rightarrow> []
      | Some c \<Rightarrow> [varint_len (ect0_count c), varint_len (ect1_count c), varint_len (ecn_ce_count c)])"

definition common_ack_wire_len :: "nat \<Rightarrow> range_set \<Rightarrow> ecn_counts option \<Rightarrow> nat result list" where
  "common_ack_wire_len ack_delay rset ecn =
     (case rev (RangeSet_iter rset) of
        [] \<Rightarrow> [panic]
      | (s, e) # it \<Rightarrow>
          [try_bind (checked_sub e 1) varint_len, varint_len ack_delay, varint_len (length it),
           try_bind (try_bind (checked_sub e 1) (\<lambda>d. checked_sub d s)) varint_len] @
          ack_blocks_len s it @ ecn_len ecn)"

definition mc_announce_wire_len :: "byte list \<Rightarrow> byte list \<Rightarrow> nat option \<Rightarrow> nat result list" where
  "mc_announce_wire_len channel_id public_key bitrate =
     [varint_len (if bitrate \<noteq> None then MC_ANNOUNCE_BW_CODE else MC_ANNOUNCE_CODE), Inr 1,
      Inr (length channel_id), Inr 1, Inr 1, Inr 1, Inr 4, Inr 4, Inr 2, Inr 8,
      varint_len (length public_key), Inr (length public_key), Inr 1]"

definition congestion_info_wire_len :: "fc_congestion_info \<Rightarrow> nat result list" where
  "congestion_info_wire_len info =
     [varint_len MC_CONGESTION_INFO_CODE, Inr 4, varint_len (ci_rtt info mod u64_size), Inr 1,
      len_sum (map (\<lambda>(channel_id, _). Inr (1 + length channel_id + 4)) (ci_mc_cwnds info))]"

fun wire_len_ext :: "frame \<Rightarrow> nat result list" where
  "wire_len_ext (PathAck path_identifier ack_delay rset ecn) =
     Inr 4 # varint_len path_identifier # common_ack_wire_len ack_delay rset ecn"
| "wire_len_ext (PathAbandon path_id error_code) = [Inr 4, varint_len path_id, varint_len error_code]"
| "wire_len_ext (PathBackup path_id seq_num) = [Inr 4, varint_len path_id, varint_len seq_num]"
| "wire_len_ext (PathAvailable path_id seq_num) = [Inr 4, varint_len path_id, varint_len seq_num]"
| "wire_len_ext (PathNewConnectionId path_id seq_num retire_prior_to conn_id reset_token) =
     [Inr 4, varint_len path_id, varint_len seq_num, varint_len retire_prior_to, Inr 1,
      Inr (length conn_id), Inr (length reset_token)]"
| "wire_len_ext (PathRetireConnectionId path_id seq_num) = [Inr 4, varint_len path_id, varint_len seq_num]"
| "wire_len_ext (MaxPathId max_path_id) = [Inr 4, varint_len max_path_id]"
| "wire_len_ext (PathsBlocked max_path_id) = [Inr 4, varint_len max_path_id]"
| "wire_len_ext (McAnnounce channel_id _ _ _ _ _ _ _ key bitrate _) =
     mc_announce_wire_len channel_id key bitrate"
| "wire_len_ext (McState channel_id action action_data) =
     [varint_len MC_STATE_CODE, Inr 1, Inr (length channel_id), varint_len action, varint_len action_data]"
| "wire_len_ext (McKey channel_id key _ first_pn) =
     [varint_len MC_KEY_CODE, Inr 1, Inr (length channel_id), varint_len (length key), Inr (length key),
      Inr 1, varint_len first_pn]"
| "wire_len_ext (FcCongestionInfo info) = congestion_info_wire_len info"
| "wire_len_ext _ = []"

fun wire_len_parts :: "frame \<Rightarrow> nat result list" where
  "wire_len_parts (Padding len) = [Inr len]"
| "wire_len_parts (Ping _) = [Inr 1]"
| "wire_len_parts (ACK ack_delay rset ecn) = Inr 1 # common_ack_wire_len ack_delay rset ecn"
| "wire_len_parts (ResetStream stream_id error_code final_size) =
     [Inr 1, varint_len stream_id, varint_len error_code, varint_len final_size]"
| "wire_len_parts (StopSending stream_id error_code) = [Inr 1, varint_len stream_id, varint_len error_code]"
| "wire_len_parts (Crypto d) = [Inr 1, try_bind (RangeBuf_off d) varint_len, Inr 2, RangeBuf_len d]"
| "wire_len_parts (CryptoHeader offset len) = [Inr 1, varint_len offset, Inr 2, Inr len]"
| "wire_len_parts (NewToken tok) = [Inr 1, varint_len (length tok), Inr (length tok)]"
| "wire_len_parts (Stream stream_id d) =
     [Inr 1, varint_len stream_id, try_bind (RangeBuf_off d) varint_len, Inr 2, RangeBuf_len d]"
| "wire_len_parts (StreamHeader stream_id offset len _) =
     [Inr 1, varint_len stream_id, varint_len offset, Inr 2, Inr len]"
| "wire_len_parts (MaxData m) = [Inr 1, varint_len m]"
| "wire_len_parts (MaxStreamData stream_id m) = [Inr 1, varint_len stream_id, varint_len m]"
| "wire_len_parts (MaxStreamsBidi m) = [Inr 1, varint_len m]"
| "wire_len_parts (MaxStreamsUni m) = [Inr 1, varint_len m]"
| "wire_len_parts (DataBlocked limit) = [Inr 1, varint_len limit]"
| "wire_len_parts (StreamDataBlocked stream_id limit) = [Inr 1, varint_len stream_id, varint_len limit]"
| "wire_len_parts (StreamsBlockedBidi limit) = [Inr 1, varint_len limit]"
| "wire_len_parts (StreamsBlockedUni limit) = [Inr 1, varint_len limit]"
| "wire_len_parts (NewConnectionId seq_num retire_prior_to conn_id reset_token) =
     [Inr 1, varint_len seq_num, varint_len retire_prior_to, Inr 1, Inr (length conn_id),
      Inr (length reset_token)]"
| "wire_len_parts (RetireConnectionId seq_num) = [Inr 1, varint_len seq_num]"
| "wire_len_parts (PathChallenge _) = [Inr 1, Inr 8]"
| "wire_len_parts (PathResponse _) = [Inr 1, Inr 8]"
| "wire_len_parts (ConnectionClose error_code frame_type reason) =
     [Inr 1, varint_len error_code, varint_len frame_type, varint_len (length reason), Inr (length reason)]"
| "wire_len_parts (ApplicationClose error_code reason) =
     [Inr 1, varint_len error_code, varint_len (length reason), Inr (length reason)]"
| "wire_len_parts HandshakeDone = [Inr 1]"
| "wire_len_parts (Datagram d) = [Inr 1, Inr 2, Inr (length d)]"
| "wire_len_parts (DatagramHeader len) = [Inr 1, Inr 2, Inr len]"
| "wire_len_parts f = wire_len_ext f"

definition wire_len :: "frame \<Rightarrow> nat result" where
  "wire_len f = len_sum (wire_len_parts f)"

definition ack_eliciting :: "frame \<Rightarrow> bool" where
  "ack_eliciting f =
     (\<not> (case f of Padding _ \<Rightarrow> True | ACK _ _ _ \<Rightarrow> True | ApplicationClose _ _ \<Rightarrow> True
         | ConnectionClose _ _ _ \<Rightarrow> True | PathAck _ _ _ _ \<Rightarrow> True | _ \<Rightarrow> False))"

definition probing :: "frame \<Rightarrow> bool" where
  "probing f =
     (case f of Padding _ \<Rightarrow> True | NewConnectionId _ _ _ _ \<Rightarrow> True | PathChallenge _ \<Rightarrow> True
      | PathResponse _ \<Rightarrow> True | _ \<Rightarrow> False)"

section \<open>Frames that can be sent\<close>

text \<open>The conditions under which a frame is representable on the wire: integers below their
  limits, arrays of their fixed length, and a non-empty set of acknowledged ranges.\<close>

definition ecn_ok :: "ecn_counts option \<Rightarrow> bool" where
  "ecn_ok ecn = (case ecn of None \<Rightarrow> True
     | Some c \<Rightarrow> ect0_count c < varint_limit \<and> ect1_count c < varint_limit \<and> ecn_ce_count c < varint_limit)"

definition ack_ok :: "nat \<Rightarrow> range_set \<Rightarrow> ecn_counts option \<Rightarrow> bool" where
  "ack_ok ack_delay rset ecn \<longleftrightarrow> ack_delay < varint_limit \<and> ecn_ok ecn \<and>
     RangeSet_iter rset \<noteq> [] \<and> wf_ranges (RangeSet_iter rset) \<and> proper_ranges (RangeSet_iter rset) \<and>
     (\<forall>r \<in> set (RangeSet_iter rset). snd r \<le> varint_limit)"

definition rb_ok :: "range_buf \<Rightarrow> bool" where
  "rb_ok d \<longleftrightarrow> rb_wf d \<and> length (rb_bytes d) < 16384 \<and> rb_first d + length (rb_bytes d) < varint_limit"

definition cid_ok :: "byte list \<Rightarrow> byte list \<Rightarrow> bool" where
  "cid_ok conn_id reset_token \<longleftrightarrow> 1 \<le> length conn_id \<and> length conn_id \<le> MAX_CID_LEN \<and> length reset_token = 16"

definition nums_ok :: "nat list \<Rightarrow> bool" where
  "nums_ok ns \<longleftrightarrow> (\<forall>n \<in> set ns. n < varint_limit)"

definition info_ok :: "fc_congestion_info \<Rightarrow> bool" where
  "info_ok i \<longleftrightarrow> ci_cwnd i < 4294967296 \<and> ci_rtt i < varint_limit \<and> length (ci_mc_cwnds i) < 256 \<and>
     (\<forall>p \<in> set (ci_mc_cwnds i). length (fst p) < 256 \<and> snd p < 4294967296)"

fun valid_frame :: "frame \<Rightarrow> bool" where
  "valid_frame (Padding len) \<longleftrightarrow> 0 < len"
| "valid_frame (Ping _) \<longleftrightarrow> True"
| "valid_frame (ACK ack_delay rset ecn) \<longleftrightarrow> ack_ok ack_delay rset ecn"
| "valid_frame (ResetStream a b c) \<longleftrightarrow> nums_ok [a, b, c]"
| "valid_frame (StopSending a b) \<longleftrightarrow> nums_ok [a, b]"
| "valid_frame (Crypto d) \<longleftrightarrow> rb_ok d"
| "valid_frame (CryptoHeader _ _) \<longleftrightarrow> False"
| "valid_frame (NewToken tok) \<longleftrightarrow> tok \<noteq> [] \<and> length tok < varint_limit"
| "valid_frame (Stream s d) \<longleftrightarrow> s < varint_limit \<and> rb_ok d"
| "valid_frame (StreamHeader _ _ _ _) \<longleftrightarrow> False"
| "valid_frame (MaxData a) \<longleftrightarrow> nums_ok [a]"
| "valid_frame (MaxStreamData a b) \<longleftrightarrow> nums_ok [a, b]"
| "valid_frame (MaxStreamsBidi a) \<longleftrightarrow> nums_ok [a]"
| "valid_frame (MaxStreamsUni a) \<longleftrightarrow> nums_ok [a]"
| "valid_frame (DataBlocked a) \<longleftrightarrow> nums_ok [a]"
| "valid_frame (StreamDataBlocked a b) \<longleftrightarrow> nums_ok [a, b]"
| "valid_frame (StreamsBlockedBidi a) \<longleftrightarrow> nums_ok [a]"
| "valid_frame (StreamsBlockedUni a) \<longleftrightarrow> nums_ok [a]"
| "valid_frame (NewConnectionId a b c r) \<longleftrightarrow> nums_ok [a, b] \<and> cid_ok c r"
| "valid_frame (RetireConnectionId a) \<longleftrightarrow> nums_ok [a]"
| "valid_frame (PathChallenge d) \<longleftrightarrow> length d = 8"
| "valid_frame (PathResponse d) \<longleftrightarrow> length d = 8"
| "valid_frame (ConnectionClose a b r) \<longleftrightarrow> nums_ok [a, b, length r]"
| "valid_frame (ApplicationClose a r) \<longleftrightarrow> nums_ok [a, length r]"
| "valid_frame HandshakeDone \<longleftrightarrow> True"
| "valid_frame (Datagram d) \<longleftrightarrow> length d < 16384"
| "valid_frame (DatagramHeader _) \<longleftrightarrow> False"
| "valid_frame (PathAck p ack_delay rset ecn) \<longleftrightarrow> p < varint_limit \<and> ack_ok ack_delay rset ecn"
| "valid_frame (PathAbandon a b) \<longleftrightarrow> nums_ok [a, b]"
| "valid_frame (PathBackup a b) \<longleftrightarrow> nums_ok [a, b]"
| "valid_frame (PathAvailable a b) \<longleftrightarrow> nums_ok [a, b]"
| "valid_frame (PathNewConnectionId p a b c r) \<longleftrightarrow> nums_ok [p, a, b] \<and> cid_ok c r"
| "valid_frame (PathRetireConnectionId a b) \<longleftrightarrow> nums_ok [a, b]"
| "valid_frame (MaxPathId a) \<longleftrightarrow> nums_ok [a]"
| "valid_frame (PathsBlocked a) \<longleftrightarrow> nums_ok [a]"
| "valid_frame (McAnnounce c v6 probe rst sip gip port timer key bitrate qos) \<longleftrightarrow>
     length c < 256 \<and> v6 < 256 \<and> probe < 256 \<and> rst < 256 \<and> length sip = 4 \<and> length gip = 4 \<and>
     port < 65536 \<and> timer < u64_size \<and> length key < varint_limit \<and>
     (case bitrate of None \<Rightarrow> True | Some bw \<Rightarrow> bw < varint_limit) \<and> qos < 4"
| "valid_frame (McState c a b) \<longleftrightarrow> length c < 256 \<and> nums_ok [a, b]"
| "valid_frame (McKey c k algo pn) \<longleftrightarrow> length c < 256 \<and> nums_ok [length k, pn]"
| "valid_frame (FcCongestionInfo info) \<longleftrightarrow> info_ok info"

end
