(* ===== verification/Frame_Codec.thy ===== *)
theory Frame_Codec
  imports Frame
begin

text \<open>
  Correctness of the frame serialiser and parser of \<open>quiche/src/frame.rs\<close>: the bytes of every
  representable frame, the proof that \<open>to_bytes\<close> writes them and that \<open>from_bytes\<close> reads them
  back, the predicted length, and the instance of the \<open>wire_format\<close> interface.
\<close>

section \<open>The bytes of a frame\<close>

fun ack_block_bytes :: "nat \<Rightarrow> range list \<Rightarrow> byte list" where
  "ack_block_bytes smallest [] = []"
| "ack_block_bytes smallest ((s, e) # blocks) =
     varint_bytes (smallest - e - 1) @ varint_bytes (e - 1 - s) @ ack_block_bytes s blocks"

definition ecn_bytes :: "ecn_counts option \<Rightarrow> byte list" where
  "ecn_bytes ecn = (case ecn of None \<Rightarrow> []
     | Some c \<Rightarrow> varint_bytes (ect0_count c) @ varint_bytes (ect1_count c) @ varint_bytes (ecn_ce_count c))"

definition ack_bytes :: "nat \<Rightarrow> range_set \<Rightarrow> ecn_counts option \<Rightarrow> byte list" where
  "ack_bytes ack_delay rset ecn =
     (case rev (RangeSet_iter rset) of [] \<Rightarrow> []
      | (s, e) # it \<Rightarrow> varint_bytes (e - 1) @ varint_bytes ack_delay @ varint_bytes (length it) @
          varint_bytes (e - 1 - s) @ ack_block_bytes s it @ ecn_bytes ecn)"

definition cid_bytes :: "byte list \<Rightarrow> byte list \<Rightarrow> byte list" where
  "cid_bytes c r = be_bytes 1 (length c) @ c @ r"

definition cwnds_bytes :: "(byte list \<times> nat) list \<Rightarrow> byte list" where
  "cwnds_bytes cs = concat (map (\<lambda>(c, w). be_bytes 1 (length c) @ c @ be_bytes 4 w) cs)"

fun frame_code :: "frame \<Rightarrow> nat" where
  "frame_code (Padding _) = 0x00"
| "frame_code (Ping _) = 0x01"
| "frame_code (ACK _ _ ecn) = (if ecn = None then 0x02 else 0x03)"
| "frame_code (ResetStream _ _ _) = 0x04"
| "frame_code (StopSending _ _) = 0x05"
| "frame_code (Crypto _) = 0x06"
| "frame_code (CryptoHeader _ _) = 0x06"
| "frame_code (NewToken _) = 0x07"
| "frame_code (Stream _ d) = stream_type (rb_fin d)"
| "frame_code (StreamHeader _ _ _ fin) = stream_type fin"
| "frame_code (MaxData _) = 0x10"
| "frame_code (MaxStreamData _ _) = 0x11"
| "frame_code (MaxStreamsBidi _) = 0x12"
| "frame_code (MaxStreamsUni _) = 0x13"
| "frame_code (DataBlocked _) = 0x14"
| "frame_code (StreamDataBlocked _ _) = 0x15"
| "frame_code (StreamsBlockedBidi _) = 0x16"
| "frame_code (StreamsBlockedUni _) = 0x17"
| "frame_code (NewConnectionId _ _ _ _) = 0x18"
| "frame_code (RetireConnectionId _) = 0x19"
| "frame_code (PathChallenge _) = 0x1a"
| "frame_code (PathResponse _) = 0x1b"
| "frame_code (ConnectionClose _ _ _) = 0x1c"
| "frame_code (ApplicationClose _ _) = 0x1d"
| "frame_code HandshakeDone = 0x1e"
| "frame_code (Datagram _) = 0x31"
| "frame_code (DatagramHeader _) = 0x31"
| "frame_code (PathAck _ _ _ ecn) = (if ecn = None then 0x15228c00 else 0x15228c01)"
| "frame_code (PathAbandon _ _) = 0x15228c05"
| "frame_code (PathBackup _ _) = 0x15228c07"
| "frame_code (PathAvailable _ _) = 0x15228c08"
| "frame_code (PathNewConnectionId _ _ _ _ _) = 0x15228c09"
| "frame_code (PathRetireConnectionId _ _) = 0x15228c0a"
| "frame_code (MaxPathId _) = 0x15228c0c"
| "frame_code (PathsBlocked _) = 0x15228c0d"
| "frame_code (McAnnounce _ _ _ _ _ _ _ _ _ bitrate _) =
     (if bitrate \<noteq> None then MC_ANNOUNCE_BW_CODE else MC_ANNOUNCE_CODE)"
| "frame_code (McState _ _ _) = MC_STATE_CODE"
| "frame_code (McKey _ _ _ _) = MC_KEY_CODE"
| "frame_code (FcCongestionInfo _) = MC_CONGESTION_INFO_CODE"

fun frame_body :: "frame \<Rightarrow> byte list" where
  "frame_body (Padding len) = replicate (len - 1) 0"
| "frame_body (ACK ack_delay rset ecn) = ack_bytes ack_delay rset ecn"
| "frame_body (ResetStream a b c) = varint_bytes a @ varint_bytes b @ varint_bytes c"
| "frame_body (StopSending a b) = varint_bytes a @ varint_bytes b"
| "frame_body (Crypto d) = varint_bytes (rb_first d) @ varint_enc 2 (length (rb_bytes d)) @ rb_bytes d"
| "frame_body (NewToken tok) = varint_bytes (length tok) @ tok"
| "frame_body (Stream s d) =
     varint_bytes s @ varint_bytes (rb_first d) @ varint_enc 2 (length (rb_bytes d)) @ rb_bytes d"
| "frame_body (MaxData a) = varint_bytes a"
| "frame_body (MaxStreamData a b) = varint_bytes a @ varint_bytes b"
| "frame_body (MaxStreamsBidi a) = varint_bytes a"
| "frame_body (MaxStreamsUni a) = varint_bytes a"
| "frame_body (DataBlocked a) = varint_bytes a"
| "frame_body (StreamDataBlocked a b) = varint_bytes a @ varint_bytes b"
| "frame_body (StreamsBlockedBidi a) = varint_bytes a"
| "frame_body (StreamsBlockedUni a) = varint_bytes a"
| "frame_body (NewConnectionId a b c r) = varint_bytes a @ varint_bytes b @ cid_bytes c r"
| "frame_body (RetireConnectionId a) = varint_bytes a"
| "frame_body (PathChallenge d) = d"
| "frame_body (PathResponse d) = d"
| "frame_body (ConnectionClose a b r) =
     varint_bytes a @ varint_bytes b @ varint_bytes (length r) @ r"
| "frame_body (ApplicationClose a r) = varint_bytes a @ varint_bytes (length r) @ r"
| "frame_body (Datagram d) = varint_enc 2 (length d) @ d"
| "frame_body (PathAck p ack_delay rset ecn) = varint_bytes p @ ack_bytes ack_delay rset ecn"
| "frame_body (PathAbandon a b) = varint_bytes a @ varint_bytes b"
| "frame_body (PathBackup a b) = varint_bytes a @ varint_bytes b"
| "frame_body (PathAvailable a b) = varint_bytes a @ varint_bytes b"
| "frame_body (PathNewConnectionId p a b c r) =
     varint_bytes p @ varint_bytes a @ varint_bytes b @ cid_bytes c r"
| "frame_body (PathRetireConnectionId a b) = varint_bytes a @ varint_bytes b"
| "frame_body (MaxPathId a) = varint_bytes a"
| "frame_body (PathsBlocked a) = varint_bytes a"
| "frame_body (McAnnounce c v6 probe rst sip gip port timer key bitrate qos) =
     (be_bytes 1 (length c) @ c) @ be_bytes 1 probe @ be_bytes 1 v6 @ be_bytes 1 rst @ sip @ gip @
     be_bytes 2 port @ be_bytes 8 timer @ varint_bytes (length key) @ key @
     (case bitrate of None \<Rightarrow> [] | Some bw \<Rightarrow> varint_bytes bw) @ be_bytes 1 qos"
| "frame_body (McState c a b) = (be_bytes 1 (length c) @ c) @ varint_bytes a @ varint_bytes b"
| "frame_body (McKey c k algo pn) =
     (be_bytes 1 (length c) @ c) @ varint_bytes (length k) @ k @ be_bytes 1 (Algorithm_to_u8 algo) @
     varint_bytes pn"
| "frame_body (FcCongestionInfo i) =
     be_bytes 4 (ci_cwnd i) @ varint_bytes (ci_rtt i) @ be_bytes 1 (length (ci_mc_cwnds i)) @
     cwnds_bytes (ci_mc_cwnds i)"
| "frame_body _ = []"

definition frame_bytes :: "frame \<Rightarrow> byte list" where
  "frame_bytes f = varint_bytes (frame_code f) @ frame_body f"

section \<open>What the parser gives back\<close>

text \<open>The set of ranges that the ACK parser builds: three ranges or fewer are inline.\<close>

definition RangeSet_of :: "range list \<Rightarrow> range_set" where
  "RangeSet_of xs =
     (if length xs < MAX_INLINE_CAPACITY then Inline \<lparr>i_inner = xs, i_capacity = usize_max\<rparr>
      else BTree \<lparr>t_inner = xs, t_capacity = usize_max\<rparr>)"

text \<open>Metadata that is not on the wire is dropped, and buffers are rebased.\<close>

fun norm_frame :: "frame \<Rightarrow> frame" where
  "norm_frame (Ping _) = Ping None"
| "norm_frame (ACK ack_delay rset ecn) = ACK ack_delay (RangeSet_of (RangeSet_iter rset)) ecn"
| "norm_frame (PathAck p ack_delay rset ecn) = PathAck p ack_delay (RangeSet_of (RangeSet_iter rset)) ecn"
| "norm_frame (Crypto d) = Crypto (RangeBuf_from (rb_bytes d) (rb_first d) False)"
| "norm_frame (Stream s d) = Stream s (RangeBuf_from (rb_bytes d) (rb_first d) (rb_fin d))"
| "norm_frame f = f"

lemma RangeSet_iter_of [simp]: "RangeSet_iter (RangeSet_of xs) = xs"
  by (simp add: RangeSet_of_def)

section \<open>Acknowledgment ranges\<close>

lemma RangeSet_insert_front:
  assumes "wf_ranges ((a, b) # xs)" "length xs < usize_max"
  shows "RangeSet_insert (a, b) (RangeSet_of xs) = Inr (RangeSet_of ((a, b) # xs))"
proof -
  have wf: "wf_ranges xs" "a \<le> b" "\<forall>r \<in> set xs. b < fst r" using assms(1) by (auto simp: wf_ranges_Cons)
  have ins: "ins_range a b xs = (a, b) # xs"
  proof (cases xs)
    case (Cons r rs)
    then show ?thesis using wf by (cases r) (auto simp: wf_ranges_Cons)
  qed simp
  show ?thesis
  proof (cases "length xs < 4")
    case True
    then show ?thesis
      using InlineRangeSet_insert_eq [of "\<lparr>i_inner = xs, i_capacity = usize_max\<rparr>" a b] assms
      by (auto simp: RangeSet_of_def ins bt_of_list_id wf_ranges_bt_wf)
  next
    case False
    have "btree_insert_range (a, b) usize_max xs = (a, b) # xs"
      using btree_insert_range_eq [OF wf(1,2), of usize_max] assms(2) by (simp add: ins)
    with False show ?thesis by (simp add: RangeSet_of_def BTreeRangeSet_insert_def)
  qed
qed

lemma RangeSet_default_of: "RangeSet_default = RangeSet_of []"
  by (simp add: RangeSet_default_def RangeSet_of_def)

text \<open>The blocks from the newest to the oldest, below the smallest acknowledged value.\<close>

fun blocks_ok :: "nat \<Rightarrow> range list \<Rightarrow> bool" where
  "blocks_ok smallest [] \<longleftrightarrow> True"
| "blocks_ok smallest ((s, e) # blocks) \<longleftrightarrow> s < e \<and> e < smallest \<and> blocks_ok s blocks"

lemma blocks_ok_rev:
  "wf_ranges (xs @ [(s, e)]) \<Longrightarrow> proper_ranges (xs @ [(s, e)]) \<Longrightarrow> blocks_ok s (rev xs)"
proof (induction xs arbitrary: s e rule: rev_induct)
  case (snoc r xs)
  obtain s' e' where r: "r = (s', e')" by (cases r)
  have "wf_ranges (xs @ [(s', e')])" "proper_ranges (xs @ [(s', e')])" "e' < s" "s' < e'"
    using snoc.prems r by (auto simp: wf_ranges_def sorted_wrt_append proper_ranges_def)
  with snoc.IH [of s' e'] r show ?case by simp
qed simp

lemma emits_ack_blocks:
  "blocks_ok smallest blocks \<Longrightarrow> smallest \<le> varint_limit \<Longrightarrow>
     emits (put_ack_blocks smallest blocks) (ack_block_bytes smallest blocks)"
proof (induction smallest blocks rule: ack_block_bytes.induct)
  case (1 smallest)
  then show ?case by (simp add: emits_def)
next
  case (2 smallest s e blocks)
  then have IH: "emits (put_ack_blocks s blocks) (ack_block_bytes s blocks)"
    and b: "s < e" "e < smallest" "smallest \<le> varint_limit" by auto
  have "emits (\<lambda>b. try_bind (put_varint (smallest - e - 1) b)
      (\<lambda>b. try_bind (put_varint (e - 1 - s) b) (put_ack_blocks s blocks)))
      (varint_bytes (smallest - e - 1) @ varint_bytes (e - 1 - s) @ ack_block_bytes s blocks)"
    using b by (intro emits_bind emits_varint IH) auto
  with b show ?case by (simp add: emits_def)
qed

lemma reads_ack_blocks:
  "blocks_ok smallest blocks \<Longrightarrow> wf_ranges (rev blocks @ xs) \<Longrightarrow> smallest \<le> varint_limit \<Longrightarrow>
     length (rev blocks @ xs) < usize_max \<Longrightarrow>
     reads (parse_ack_blocks (length blocks) smallest (RangeSet_of xs)) (ack_block_bytes smallest blocks)
       (RangeSet_of (rev blocks @ xs))"
proof (induction smallest blocks arbitrary: xs rule: ack_block_bytes.induct)
  case (1 smallest)
  then show ?case by (simp add: reads_if_def)
next
  case (2 smallest s e blocks)
  have b: "s < e" "e < smallest" "blocks_ok s blocks" "smallest \<le> varint_limit" using 2 by auto
  have ins: "RangeSet_insert (s, e) (RangeSet_of xs) = Inr (RangeSet_of ((s, e) # xs))"
    using 2 by (intro RangeSet_insert_front) (auto simp: wf_ranges_def sorted_wrt_append)
  have IH: "reads (parse_ack_blocks (length blocks) s (RangeSet_of ((s, e) # xs))) (ack_block_bytes s blocks)
      (RangeSet_of (rev ((s, e) # blocks) @ xs))"
    using "2.IH" [of "(s, e) # xs"] 2 by simp
  define g k where "g = smallest - e - 1" and "k = e - 1 - s"
  have gk: "g < varint_limit" "k < varint_limit" using b by (auto simp: g_def k_def)
  have arith: "\<not> smallest < 2 + g" "smallest - g - 2 = e - 1" "\<not> e - 1 < k" "e - 1 - k = s" "e - 1 + 1 = e"
    using b by (auto simp: g_def k_def)
  show ?case
    unfolding reads_if_def
  proof (intro allI impI)
    fix o' r assume "as_ref o' = ack_block_bytes smallest ((s, e) # blocks) @ r"
    then have as: "as_ref o' = varint_bytes g @ varint_bytes k @ ack_block_bytes s blocks @ r"
      by (simp add: g_def k_def)
    have 1: "get_varint o' = Inr (g, adv (varint_size g) o')"
      using readsD [OF reads_varint [OF gk(1)], of o'] as by simp
    have 2: "get_varint (adv (varint_size g) o') = Inr (k, adv (varint_size k) (adv (varint_size g) o'))"
      using readsD [OF reads_varint [OF gk(2)], of "adv (varint_size g) o'"] as by simp
    have 3: "parse_ack_blocks (length blocks) s (RangeSet_of ((s, e) # xs)) (adv (varint_size k) (adv (varint_size g) o')) =
        Inr (RangeSet_of (rev ((s, e) # blocks) @ xs),
          adv (length (ack_block_bytes s blocks)) (adv (varint_size k) (adv (varint_size g) o')))"
      using readsD [OF IH, of "adv (varint_size k) (adv (varint_size g) o')" r] as by simp
    have len: "length (ack_block_bytes smallest ((s, e) # blocks)) =
        varint_size g + varint_size k + length (ack_block_bytes s blocks)"
      by (simp add: g_def k_def)
    show "parse_ack_blocks (length ((s, e) # blocks)) smallest (RangeSet_of xs) o' =
        Inr (RangeSet_of (rev ((s, e) # blocks) @ xs),
          adv (length (ack_block_bytes smallest ((s, e) # blocks))) o')"
      using 1 2 3 ins arith len by (simp add: adv_adv Let_def add.assoc)
  qed
qed

definition ack_norm :: "nat \<Rightarrow> range_set \<Rightarrow> ecn_counts option \<Rightarrow> nat \<times> range_set \<times> ecn_counts option" where
  "ack_norm ack_delay rset ecn = (ack_delay, RangeSet_of (RangeSet_iter rset), ecn)"

text \<open>The pieces of a valid acknowledgment.\<close>

lemma ack_ok_cases:
  assumes "ack_ok ack_delay rset ecn"
  obtains s e it where "rev (RangeSet_iter rset) = (s, e) # it" "s < e" "e \<le> varint_limit"
    "blocks_ok s it" "length it < varint_limit" "wf_ranges (rev it @ [(s, e)])"
    "RangeSet_iter rset = rev it @ [(s, e)]"
proof -
  let ?xs = "RangeSet_iter rset"
  have ok: "?xs \<noteq> []" "wf_ranges ?xs" "proper_ranges ?xs" "\<forall>r \<in> set ?xs. snd r \<le> varint_limit"
    using assms by (auto simp: ack_ok_def)
  obtain ys r where ys: "?xs = ys @ [r]" using ok(1) by (metis append_butlast_last_id)
  obtain s e where r: "r = (s, e)" by (cases r)
  have "0 + 2 * length ?xs \<le> varint_limit + 1"
    using ok by (intro ranges_count) auto
  then have "length (rev ys) < varint_limit" using ys by simp
  moreover have "blocks_ok s (rev ys)" using blocks_ok_rev [of ys s e] ok ys r by simp
  moreover have "s < e" "e \<le> varint_limit" using ok ys r by (auto simp: proper_ranges_def)
  ultimately show ?thesis using that [of s e "rev ys"] ys r ok(2) by simp
qed

lemma emits_ecn: "ecn_ok ecn \<Longrightarrow> emits (put_ecn ecn) (ecn_bytes ecn)"
proof (cases ecn)
  case (Some c)
  assume "ecn_ok ecn"
  then have "emits (put_all [put_varint (ect0_count c), put_varint (ect1_count c), put_varint (ecn_ce_count c)])
      (varint_bytes (ect0_count c) @ varint_bytes (ect1_count c) @ varint_bytes (ecn_ce_count c) @ [])"
    using Some by (intro emits_all_Cons emits_varint emits_all_Nil) (auto simp: ecn_ok_def)
  with Some show ?thesis by (simp add: put_ecn_def ecn_bytes_def)
qed (simp add: put_ecn_def ecn_bytes_def emits_def)

lemma emits_common_ack:
  assumes "ack_ok ack_delay rset ecn"
  shows "emits (common_ack_to_bytes ack_delay rset ecn) (ack_bytes ack_delay rset ecn)"
proof -
  obtain s e it where a: "rev (RangeSet_iter rset) = (s, e) # it" "s < e" "e \<le> varint_limit"
    "blocks_ok s it" "length it < varint_limit"
    using ack_ok_cases [OF assms] by metis
  have "emits (put_all [put_varint (e - 1), put_varint ack_delay, put_varint (length it),
      put_varint (e - 1 - s), put_ack_blocks s it, put_ecn ecn])
      (varint_bytes (e - 1) @ varint_bytes ack_delay @ varint_bytes (length it) @ varint_bytes (e - 1 - s) @
       ack_block_bytes s it @ ecn_bytes ecn @ [])"
    using a assms
    by (intro emits_all_Cons emits_varint emits_ack_blocks emits_ecn emits_all_Nil) (auto simp: ack_ok_def)
  moreover have "checked_sub e 1 = Inr (e - 1)" "checked_sub (e - 1) s = Inr (e - 1 - s)"
    using a(2) by auto
  ultimately show ?thesis using a(1) by (simp add: common_ack_to_bytes_def ack_bytes_def emits_def)
qed

lemma reads_varint1: "a < varint_limit \<Longrightarrow> reads (get_varint1 f) (varint_bytes a) (f a)"
  unfolding get_varint1_def by (rule reads_map [OF reads_varint]) auto

lemma reads_varint_2:
  "a < varint_limit \<Longrightarrow> b < varint_limit \<Longrightarrow> reads (get_varint2 f) (varint_bytes a @ varint_bytes b) (f a b)"
  unfolding get_varint2_def by (rule reads_bind [OF reads_varint reads_varint1])

lemma reads_varint_3:
  "a < varint_limit \<Longrightarrow> b < varint_limit \<Longrightarrow> c < varint_limit \<Longrightarrow>
     reads (get_varint3 f) (varint_bytes a @ varint_bytes b @ varint_bytes c) (f a b c)"
  unfolding get_varint3_def by (rule reads_bind [OF reads_varint reads_varint_2])

lemma reads_ecn: "ecn_ok ecn \<Longrightarrow> reads (parse_ecn (ecn \<noteq> None)) (ecn_bytes ecn) ecn"
proof (cases ecn)
  case None
  then show ?thesis by (simp add: parse_ecn_def [abs_def] ecn_bytes_def reads_return)
next
  case (Some c)
  assume "ecn_ok ecn"
  then have "reads (get_varint3 (\<lambda>e0 e1 ce. Some \<lparr>ect0_count = e0, ect1_count = e1, ecn_ce_count = ce\<rparr>))
      (ecn_bytes ecn) (Some \<lparr>ect0_count = ect0_count c, ect1_count = ect1_count c, ecn_ce_count = ecn_ce_count c\<rparr>)"
    using Some reads_varint_3 [of "ect0_count c" "ect1_count c" "ecn_ce_count c"
        "\<lambda>e0 e1 ce. Some \<lparr>ect0_count = e0, ect1_count = e1, ecn_ce_count = ce\<rparr>"]
    by (simp add: ecn_bytes_def ecn_ok_def)
  moreover have "\<lparr>ect0_count = ect0_count c, ect1_count = ect1_count c, ecn_ce_count = ecn_ce_count c\<rparr> = c"
    by (cases c) simp
  ultimately show ?thesis using Some by (simp add: parse_ecn_def [abs_def])
qed

lemma reads_common_ack:
  assumes ok: "ack_ok ack_delay rset ecn"
  shows "reads (parse_common_ack_frame (ecn \<noteq> None)) (ack_bytes ack_delay rset ecn)
    (ack_norm ack_delay rset ecn)"
proof -
  obtain s e it where a: "rev (RangeSet_iter rset) = (s, e) # it" "s < e" "e \<le> varint_limit"
    "blocks_ok s it" "length it < varint_limit" "wf_ranges (rev it @ [(s, e)])"
    "RangeSet_iter rset = rev it @ [(s, e)]"
    using ack_ok_cases [OF ok] by metis
  have lim: "e - 1 < varint_limit" "ack_delay < varint_limit" "e - 1 - s < varint_limit"
    using a ok by (auto simp: ack_ok_def)
  have ins: "RangeSet_insert (s, e) RangeSet_default = Inr (RangeSet_of [(s, e)])"
    using RangeSet_insert_front [of s e "[]"] a(2) by (simp add: RangeSet_default_of wf_ranges_Cons)
  have arith: "\<not> e - 1 < e - 1 - s" "e - 1 - (e - 1 - s) = s" "e - 1 + 1 = e" using a(2) by auto
  have blocks: "reads (parse_ack_blocks (length it) s (RangeSet_of [(s, e)])) (ack_block_bytes s it)
      (RangeSet_of (rev it @ [(s, e)]))"
    using a by (intro reads_ack_blocks) auto
  have rest: "reads (\<lambda>b. try_bind (parse_ack_blocks (length it) s (RangeSet_of [(s, e)]) b) (\<lambda>(rset, b).
      try_bind (parse_ecn (ecn \<noteq> None) b) (\<lambda>(ecn, b). Inr ((ack_delay, rset, ecn), b))))
      (ack_block_bytes s it @ ecn_bytes ecn) (ack_norm ack_delay rset ecn)"
    using ok by (intro reads_bind [OF blocks] reads_map [OF reads_ecn]) (auto simp: ack_ok_def ack_norm_def a(7))
  have "reads (parse_common_ack_frame (ecn \<noteq> None)) (varint_bytes (e - 1) @ varint_bytes ack_delay @
      varint_bytes (length it) @ varint_bytes (e - 1 - s) @ ack_block_bytes s it @ ecn_bytes ecn)
      (ack_norm ack_delay rset ecn)"
    unfolding parse_common_ack_frame_def [abs_def]
    by (rule reads_bind [OF reads_varint [OF lim(1)]] reads_bind [OF reads_varint [OF lim(2)]]
        reads_bind [OF reads_varint [OF a(5)]] reads_bind [OF reads_varint [OF lim(3)]])+
      (use rest ins arith in \<open>simp add: Let_def\<close>)
  with a(1) show ?thesis by (simp add: ack_bytes_def)
qed

section \<open>Writing a frame\<close>

declare put_all.simps [simp del]

lemma emits_all_one: "emits w xs \<Longrightarrow> emits (put_all [w]) xs"
  using emits_all_Cons [OF _ emits_all_Nil, of w xs] by simp

lemma nums_ok_simps [simp]: "nums_ok []" "nums_ok (n # ns) \<longleftrightarrow> n < varint_limit \<and> nums_ok ns"
  by (auto simp: nums_ok_def)

lemma emits_nums:
  "nums_ok ns \<Longrightarrow> emits (put_all (map put_varint ns)) (concat (map varint_bytes ns))"
proof (induction ns)
  case (Cons n ns)
  then show ?case using emits_all_Cons [OF emits_varint, of n "map put_varint ns"] by simp
qed (simp add: emits_all_Nil)

lemma emits_padding: "emits (put_all (replicate n (put_varint 0))) (replicate n 0)"
proof (induction n)
  case (Suc n)
  have "emits (put_varint 0) [0]"
    using emits_varint [of 0] by (simp add: varint_bytes_def varint_size_def varint_enc_def varint_tag_def)
  from emits_all_Cons [OF this Suc] show ?case by simp
qed (simp add: emits_all_Nil)

lemma emits_range_buf:
  assumes "rb_ok d" "emits (hdr (rb_first d) (length (rb_bytes d))) bs"
  shows "emits (put_range_buf hdr d) (bs @ rb_bytes d)"
  using assms emits_bind [OF assms(2) emits_bytes, of "rb_bytes d"]
  by (simp add: put_range_buf_def emits_def rb_ok_def)

lemma emits_new_cid:
  assumes "nums_ok ns" "cid_ok c r"
  shows "emits (put_new_connection_id ns c r) (concat (map varint_bytes ns) @ cid_bytes c r)"
proof -
  have "length c mod 256 = length c" using assms(2) by (simp add: cid_ok_def)
  moreover have "emits (put_all [put_u8 (length c), put_bytes c, put_bytes r]) (be_bytes 1 (length c) @ c @ r)"
    by (intro emits_all_Cons emits_all_one emits_prims)
  ultimately show ?thesis
    using emits_all_append [OF emits_nums [OF assms(1)]] by (simp add: put_new_connection_id_def cid_bytes_def)
qed

lemma emits_cwnds:
  "\<forall>p \<in> set cs. length (fst p) < 256 \<and> snd p < 4294967296 \<Longrightarrow>
     emits (put_all (concat (map (\<lambda>(c, w).
       [put_u8 (length c mod 256), put_bytes c, put_u32 (w mod 4294967296)]) cs))) (cwnds_bytes cs)"
proof (induction cs)
  case Nil
  then show ?case by (simp add: cwnds_bytes_def emits_all_Nil)
next
  case (Cons p cs)
  obtain c w where p: "p = (c, w)" by (cases p)
  have "emits (put_all [put_u8 (length c), put_bytes c, put_u32 w]) (be_bytes 1 (length c) @ c @ be_bytes 4 w)"
    by (intro emits_all_Cons emits_all_one emits_prims)
  from emits_all_append [OF this] Cons p show ?case by (simp add: cwnds_bytes_def)
qed

lemma emits_mc_announce:
  assumes "valid_frame (McAnnounce c v6 probe rst sip gip port timer key bitrate qos)" (is "valid_frame ?f")
  shows "emits (put_frame_quic ?f) (frame_bytes ?f)"
proof -
  have c: "length c mod 256 = length c" "length key < varint_limit" using assms by simp_all
  have br: "emits (case bitrate of Some bw \<Rightarrow> put_varint bw | None \<Rightarrow> Inr)
      (case bitrate of None \<Rightarrow> [] | Some bw \<Rightarrow> varint_bytes bw)"
    using assms by (cases bitrate) (auto simp: emits_skip emits_varint)
  show ?thesis
    unfolding frame_bytes_def put_frame_quic.simps put_frame_ext.simps put_mc_announce_def c(1) frame_body.simps frame_code.simps
      append_assoc
    by (intro emits_all_Cons emits_all_one emits_varint br emits_bytes emits_u8 emits_u16 emits_u64)
      (use c in simp_all)
qed

lemma emits_mc_state:
  assumes "valid_frame (McState c a d)"
  shows "emits (put_frame_quic (McState c a d)) (frame_bytes (McState c a d))"
proof -
  have c: "length c mod 256 = length c" "a < varint_limit" "d < varint_limit" using assms by simp_all
  show ?thesis
    unfolding frame_bytes_def put_frame_quic.simps put_frame_ext.simps put_mc_state_def c(1) frame_body.simps frame_code.simps
      append_assoc
    by (intro emits_all_Cons emits_all_one emits_varint emits_bytes emits_u8) (use c in simp_all)
qed

lemma emits_mc_key:
  assumes "valid_frame (McKey c k algo pn)"
  shows "emits (put_frame_quic (McKey c k algo pn)) (frame_bytes (McKey c k algo pn))"
proof -
  have c: "length c mod 256 = length c" "length k < varint_limit" "pn < varint_limit" using assms by simp_all
  show ?thesis
    unfolding frame_bytes_def put_frame_quic.simps put_frame_ext.simps put_mc_key_def c(1) frame_body.simps frame_code.simps
      append_assoc
    by (intro emits_all_Cons emits_all_one emits_varint emits_bytes emits_u8) (use c in simp_all)
qed

lemma emits_congestion_info:
  assumes "valid_frame (FcCongestionInfo i)"
  shows "emits (put_frame_quic (FcCongestionInfo i)) (frame_bytes (FcCongestionInfo i))"
proof -
  have i: "ci_cwnd i mod 4294967296 = ci_cwnd i" "ci_rtt i mod u64_size = ci_rtt i"
    "length (ci_mc_cwnds i) mod 256 = length (ci_mc_cwnds i)" "ci_rtt i < varint_limit"
    "\<forall>p \<in> set (ci_mc_cwnds i). length (fst p) < 256 \<and> snd p < 4294967296"
    using assms by (simp_all add: info_ok_def)
  have "emits (put_all [put_varint MC_CONGESTION_INFO_CODE, put_u32 (ci_cwnd i), put_varint (ci_rtt i),
      put_u8 (length (ci_mc_cwnds i))]) (varint_bytes MC_CONGESTION_INFO_CODE @ be_bytes 4 (ci_cwnd i) @
      varint_bytes (ci_rtt i) @ be_bytes 1 (length (ci_mc_cwnds i)))"
    by (intro emits_all_Cons emits_all_one emits_varint emits_u8 emits_u32) (use i in simp_all)
  from emits_all_append [OF this emits_cwnds [OF i(5)]] show ?thesis
    by (simp add: put_congestion_info_def i frame_bytes_def)
qed

lemma stream_type_simps [simp]: "stream_type True = 15" "stream_type False = 14"
  by (simp_all add: stream_type_def)

lemma emits_stream:
  assumes "valid_frame (Stream s d)"
  shows "emits (put_frame_quic (Stream s d)) (frame_bytes (Stream s d))"
proof -
  have "emits (encode_stream_header s (rb_first d) (length (rb_bytes d)) (rb_fin d))
      (varint_bytes (stream_type (rb_fin d)) @ varint_bytes s @ varint_bytes (rb_first d) @
       varint_enc 2 (length (rb_bytes d)))"
    unfolding encode_stream_header_def
    by (intro emits_all_Cons emits_all_one [OF emits_varint2] emits_varint)
      (use assms in \<open>auto simp: rb_ok_def stream_type_def Let_def\<close>)
  then show ?thesis
    using assms emits_range_buf [of d "\<lambda>offset len. encode_stream_header s offset len (rb_fin d)"
        "varint_bytes (stream_type (rb_fin d)) @ varint_bytes s @ varint_bytes (rb_first d) @
         varint_enc 2 (length (rb_bytes d))"]
    by (simp add: frame_bytes_def)
qed

lemma emits_crypto:
  assumes "valid_frame (Crypto d)"
  shows "emits (put_frame_quic (Crypto d)) (frame_bytes (Crypto d))"
proof -
  have "emits (encode_crypto_header (rb_first d) (length (rb_bytes d)))
      (varint_bytes 6 @ varint_bytes (rb_first d) @ varint_enc 2 (length (rb_bytes d)))"
    unfolding encode_crypto_header_def
    by (intro emits_all_Cons emits_all_one emits_varint emits_varint2)
      (use assms in \<open>simp_all add: rb_ok_def\<close>)
  from emits_range_buf [of d encode_crypto_header, OF _ this] assms show ?thesis
    by (simp add: frame_bytes_def)
qed

lemma emits_datagram: "emits (put_frame_quic (Datagram d)) (frame_bytes (Datagram d))"
proof -
  have "emits (encode_dgram_header (length d)) (varint_bytes 49 @ varint_enc 2 (length d))"
  proof -
    have "(0x30 OR 0x01 :: nat) = 49" by simp
    then show ?thesis
      unfolding encode_dgram_header_def
      by (simp only:) (intro emits_all_Cons emits_all_one emits_varint emits_varint2, simp)
  qed
  from emits_all_Cons [OF this emits_all_one [OF emits_bytes [of d]]] show ?thesis
    by (simp add: frame_bytes_def)
qed

lemma emits_frame: "valid_frame f \<Longrightarrow> emits (put_frame_quic f) (frame_bytes f)"
proof (induction f rule: valid_frame.induct)
  case (1 len)
  then have "replicate len 0 = varint_bytes 0 @ replicate (len - 1) 0"
    by (cases len) (simp_all add: varint_bytes_def varint_size_def varint_enc_def varint_tag_def)
  then show ?case using emits_padding [of len] by (simp add: frame_bytes_def)
next
  case (3 ack_delay rset ecn)
  then show ?case
    unfolding put_frame_quic.simps put_frame_ext.simps frame_bytes_def frame_code.simps frame_body.simps
    by (intro emits_all_Cons emits_all_one emits_varint emits_common_ack) auto
next
  case (28 p ack_delay rset ecn)
  then have "emits (put_all [put_varint (if ecn = None then 0x15228c00 else 0x15228c01), put_varint p,
      common_ack_to_bytes ack_delay rset ecn]) (varint_bytes (if ecn = None then 0x15228c00 else 0x15228c01) @
      varint_bytes p @ ack_bytes ack_delay rset ecn)"
    by (intro emits_all_Cons emits_all_one [OF emits_common_ack] emits_varint) auto
  then show ?case by (simp add: frame_bytes_def)
next
  case (6 d)
  then show ?case by (rule emits_crypto)
next
  case (9 s d)
  then show ?case by (rule emits_stream)
next
  case (19 a b c r)
  then show ?case using emits_new_cid [of "[24, a, b]" c r] by (simp add: frame_bytes_def)
next
  case (32 p a b c r)
  then show ?case using emits_new_cid [of "[354585609, p, a, b]" c r] by (simp add: frame_bytes_def)
next
  case (26 d)
  show ?case by (rule emits_datagram)
next
  case (36 c v6 probe rst sip gip port timer key bitrate qos)
  then show ?case by (rule emits_mc_announce)
next
  case (37 c a b)
  then show ?case by (rule emits_mc_state)
next
  case (38 c k algo pn)
  then show ?case by (rule emits_mc_key)
next
  case (39 info)
  then show ?case by (rule emits_congestion_info)
qed (simp_all add: frame_bytes_def,
    (intro emits_all_Cons [OF emits_varint] emits_all_one [OF emits_varint] emits_all_one [OF emits_bytes]
      emits_varint; simp)+)

section \<open>Reading a frame\<close>

text \<open>The parser selected by each frame type.\<close>

lemma parse_frame_dispatch:
  "parse_frame_quic 0 = parse_padding 1"
  "parse_frame_quic 1 = (\<lambda>b. Inr (Ping None, b))"
  "parse_frame_quic 2 = parse_ack_frame 2"
  "parse_frame_quic 3 = parse_ack_frame 3"
  "parse_frame_quic 4 = get_varint3 ResetStream"
  "parse_frame_quic 5 = get_varint2 StopSending"
  "parse_frame_quic 6 = parse_crypto"
  "parse_frame_quic 7 = parse_new_token"
  "parse_frame_quic 14 = parse_stream_frame 14"
  "parse_frame_quic 15 = parse_stream_frame 15"
  "parse_frame_quic 16 = get_varint1 MaxData"
  "parse_frame_quic 17 = get_varint2 MaxStreamData"
  "parse_frame_quic 18 = get_varint1 MaxStreamsBidi"
  "parse_frame_quic 19 = get_varint1 MaxStreamsUni"
  "parse_frame_quic 20 = get_varint1 DataBlocked"
  "parse_frame_quic 21 = get_varint2 StreamDataBlocked"
  "parse_frame_quic 22 = get_varint1 StreamsBlockedBidi"
  "parse_frame_quic 23 = get_varint1 StreamsBlockedUni"
  "parse_frame_quic 24 = parse_new_connection_id"
  "parse_frame_quic 25 = get_varint1 RetireConnectionId"
  "parse_frame_quic 26 = (\<lambda>b. try_bind (get_bytes 8 b) (\<lambda>(d, b). Inr (PathChallenge d, b)))"
  "parse_frame_quic 27 = (\<lambda>b. try_bind (get_bytes 8 b) (\<lambda>(d, b). Inr (PathResponse d, b)))"
  "parse_frame_quic 28 = parse_connection_close"
  "parse_frame_quic 29 = parse_application_close"
  "parse_frame_quic 30 = (\<lambda>b. Inr (HandshakeDone, b))"
  "parse_frame_quic 49 = parse_datagram_frame 49"
  "parse_frame_quic 354585600 = parse_path_ack_frame 354585600"
  "parse_frame_quic 354585601 = parse_path_ack_frame 354585601"
  "parse_frame_quic 354585605 = get_varint2 PathAbandon"
  "parse_frame_quic 354585607 = get_varint2 PathBackup"
  "parse_frame_quic 354585608 = get_varint2 PathAvailable"
  "parse_frame_quic 354585609 = parse_path_new_connection_id"
  "parse_frame_quic 354585610 = get_varint2 PathRetireConnectionId"
  "parse_frame_quic 354585612 = get_varint1 MaxPathId"
  "parse_frame_quic 354585613 = get_varint1 PathsBlocked"
  "parse_frame_quic 242 = parse_mc_announce 242"
  "parse_frame_quic 243 = parse_mc_announce 243"
  "parse_frame_quic 244 = parse_mc_state"
  "parse_frame_quic 245 = parse_mc_key"
  "parse_frame_quic 249 = parse_congestion_info"
  by (rule ext, simp add: parse_frame_quic_def parse_frame_mp_def parse_frame_mc_def)+

text \<open>A run of padding must be followed by something else.\<close>

definition frame_follow :: "frame \<Rightarrow> byte list \<Rightarrow> bool" where
  "frame_follow f r = (case f of Padding _ \<Rightarrow> r = [] \<or> hd r \<noteq> 0 | _ \<Rightarrow> True)"

lemma peek_u8_eq: "peek_u8 b = Inr 0 \<longleftrightarrow> as_ref b \<noteq> [] \<and> hd (as_ref b) = 0"
proof (cases "as_ref b")
  case (Cons x xs)
  then show ?thesis by (simp add: peek_u8_def peek_u_eq be_val_Cons unat_eq_0)
qed (simp add: peek_u8_def peek_u_eq)

lemma reads_padding:
  "reads_if (\<lambda>r. r = [] \<or> hd r \<noteq> 0) (parse_padding k) (replicate m 0) (Padding (k + m))"
proof (induction m arbitrary: k)
  case 0
  then show ?case by (simp add: reads_if_def parse_padding.simps peek_u8_eq)
next
  case (Suc m)
  show ?case
    unfolding reads_if_def
  proof (intro allI impI)
    fix b r assume b: "as_ref b = replicate (Suc m) 0 @ r" and r: "r = [] \<or> hd r \<noteq> 0"
    have "parse_padding k b = parse_padding (Suc k) (adv 1 b)"
      using b by (subst parse_padding.simps) (simp add: peek_u8_eq get_u8_def get_u_eq)
    also have "\<dots> = Inr (Padding (Suc k + m), adv m (adv 1 b))"
      using readsD [OF Suc.IH [of "Suc k"], of "adv 1 b" r] b r by simp
    finally show "parse_padding k b = Inr (Padding (k + Suc m), adv (length (replicate (Suc m) 0)) b)"
      by (simp add: adv_adv)
  qed
qed

lemma reads_cid_token:
  assumes "cid_ok c r"
  shows "reads (parse_cid_token f) (cid_bytes c r) (f c r)"
proof -
  have c: "1 \<le> length c" "length c \<le> 20" "length c < 256" "16 = length r" using assms by (auto simp: cid_ok_def)
  have "reads (\<lambda>b. try_bind (get_bytes (length c) b) (\<lambda>(conn_id, b).
      try_bind (get_bytes 16 b) (\<lambda>(reset_token, b). Inr (f conn_id reset_token, b)))) (c @ r) (f c r)"
    by (rule reads_bind [OF reads_bytes [OF refl] reads_map [OF reads_bytes [OF c(4)] refl]])
  with c(1,2) show ?thesis
    unfolding parse_cid_token_def [abs_def] cid_bytes_def
    by (intro reads_bind [OF reads_u8 [OF c(3)]]) simp
qed

lemma reads_ack_frame:
  assumes "ack_ok ack_delay rset ecn" "t AND 1 \<noteq> 0 \<longleftrightarrow> ecn \<noteq> None"
  shows "reads (parse_ack_frame t) (ack_bytes ack_delay rset ecn) (norm_frame (ACK ack_delay rset ecn))"
proof -
  have "parse_ack_frame t = (\<lambda>b. try_bind (parse_common_ack_frame (ecn \<noteq> None) b)
      (\<lambda>(p, b). Inr (case p of (d, rs, e) \<Rightarrow> ACK d rs e, b)))"
    using assms(2) by (auto simp: parse_ack_frame_def [abs_def] split_def intro!: ext)
  then show ?thesis
    using reads_map [OF reads_common_ack [OF assms(1)], of _ "\<lambda>(d, rs, e). ACK d rs e"]
    by (simp add: ack_norm_def)
qed

lemma reads_path_ack_frame:
  assumes "p < varint_limit" "ack_ok ack_delay rset ecn" "t AND 1 \<noteq> 0 \<longleftrightarrow> ecn \<noteq> None"
  shows "reads (parse_path_ack_frame t) (varint_bytes p @ ack_bytes ack_delay rset ecn)
    (norm_frame (PathAck p ack_delay rset ecn))"
proof -
  have "parse_path_ack_frame t = (\<lambda>b. try_bind (get_varint b) (\<lambda>(i, b).
      try_bind (parse_common_ack_frame (ecn \<noteq> None) b)
        (\<lambda>(q, b). Inr (case q of (d, rs, e) \<Rightarrow> PathAck i d rs e, b))))"
    using assms(3) by (auto simp: parse_path_ack_frame_def [abs_def] split_def intro!: ext)
  moreover have "reads (\<lambda>b. try_bind (parse_common_ack_frame (ecn \<noteq> None) b)
      (\<lambda>(q, b). Inr (case q of (d, rs, e) \<Rightarrow> PathAck p d rs e, b))) (ack_bytes ack_delay rset ecn)
      (norm_frame (PathAck p ack_delay rset ecn))"
    using reads_map [OF reads_common_ack [OF assms(2)], of _ "\<lambda>(d, rs, e). PathAck p d rs e"]
    by (simp add: ack_norm_def)
  ultimately show ?thesis
    by (simp only:) (rule reads_bind [OF reads_varint [OF assms(1)]])
qed

lemma reads_stream:
  assumes "valid_frame (Stream s d)"
  shows "reads (parse_stream_frame (stream_type (rb_fin d))) (frame_body (Stream s d)) (norm_frame (Stream s d))"
proof -
  let ?t = "stream_type (rb_fin d)" and ?n = "length (rb_bytes d)"
  have t: "?t AND 4 \<noteq> 0" "?t AND 2 \<noteq> 0" "(?t AND 1 \<noteq> 0) = rb_fin d"
    by (cases "rb_fin d"; simp)+
  have ok: "s < varint_limit" "rb_first d < varint_limit" "?n < 16384" "\<not> rb_first d + ?n \<ge> varint_limit"
    using assms by (auto simp: rb_ok_def)
  show ?thesis
    unfolding parse_stream_frame_def [abs_def] frame_body.simps
    using t ok
    by (simp only: not_False_eq_True if_True)
      (intro reads_bind [OF reads_varint] reads_bind [OF reads_varint2], simp_all add: reads_map [OF reads_bytes])
qed

lemma reads_datagram:
  assumes "valid_frame (Datagram d)"
  shows "reads (parse_datagram_frame 49) (frame_body (Datagram d)) (Datagram d)"
proof -
  have "(49::nat) AND 1 \<noteq> 0" "length d < 16384" using assms by simp_all
  then show ?thesis
    unfolding parse_datagram_frame_def [abs_def] frame_body.simps
    by (simp only: not_False_eq_True if_True)
      (intro reads_bind [OF reads_varint2], simp_all add: reads_map [OF reads_bytes])
qed

lemma reads_crypto:
  assumes "valid_frame (Crypto d)"
  shows "reads parse_crypto (frame_body (Crypto d)) (norm_frame (Crypto d))"
proof -
  have "rb_first d < varint_limit" "length (rb_bytes d) < 16384" using assms by (auto simp: rb_ok_def)
  then show ?thesis
    unfolding parse_crypto_def [abs_def] frame_body.simps
    by (intro reads_bind [OF reads_varint] reads_map [OF reads_bytes_with_varint2_length]) simp_all
qed

lemma reads_new_token:
  assumes "valid_frame (NewToken tok)"
  shows "reads parse_new_token (frame_body (NewToken tok)) (NewToken tok)"
proof -
  have "length tok \<noteq> 0" "length tok < varint_limit" using assms by simp_all
  then show ?thesis
    unfolding parse_new_token_def [abs_def] frame_body.simps
    by (intro reads_bind [OF reads_varint]) (simp_all add: reads_map [OF reads_bytes])
qed

lemma reads_close:
  "valid_frame (ConnectionClose a b r) \<Longrightarrow>
     reads parse_connection_close (frame_body (ConnectionClose a b r)) (ConnectionClose a b r)"
  "valid_frame (ApplicationClose a r) \<Longrightarrow>
     reads parse_application_close (frame_body (ApplicationClose a r)) (ApplicationClose a r)"
  unfolding parse_connection_close_def [abs_def] parse_application_close_def [abs_def] frame_body.simps
  by (intro reads_bind [OF reads_varint] reads_map [OF reads_bytes_with_varint_length]; simp)+

lemma reads_new_cid:
  "valid_frame (NewConnectionId a b c r) \<Longrightarrow>
     reads parse_new_connection_id (frame_body (NewConnectionId a b c r)) (NewConnectionId a b c r)"
  "valid_frame (PathNewConnectionId p a b c r) \<Longrightarrow>
     reads parse_path_new_connection_id (frame_body (PathNewConnectionId p a b c r)) (PathNewConnectionId p a b c r)"
  unfolding parse_new_connection_id_def [abs_def] parse_path_new_connection_id_def [abs_def] frame_body.simps
  by (intro reads_bind [OF reads_varint] reads_cid_token; simp)+

lemma reads_mc_state:
  "valid_frame (McState c a b) \<Longrightarrow> reads parse_mc_state (frame_body (McState c a b)) (McState c a b)"
  unfolding parse_mc_state_def [abs_def] frame_body.simps
  by (intro reads_bind [OF reads_bytes_with_u8_length] reads_varint_2) simp_all

lemma Algorithm_roundtrip [simp]: "Algorithm_from_u8 (Algorithm_to_u8 a) = Inr a"
  by (cases a) (simp_all add: Algorithm_from_u8_def)

lemma reads_mc_key:
  assumes "valid_frame (McKey c k algo pn)"
  shows "reads parse_mc_key (frame_body (McKey c k algo pn)) (McKey c k algo pn)"
proof -
  have ok: "length c < 256" "length k < varint_limit" "pn < varint_limit" "Algorithm_to_u8 algo < 256"
    using assms by (simp, simp, simp, cases algo) simp_all
  show ?thesis
    unfolding parse_mc_key_def [abs_def] frame_body.simps
    by (intro reads_bind [OF reads_bytes_with_u8_length [OF ok(1)]] reads_bind [OF reads_varint [OF ok(2)]]
        reads_bind [OF reads_bytes [OF refl]] reads_bind [OF reads_u8 [OF ok(4)]])
      (simp add: reads_varint1 ok(3))
qed

lemma reads_mc_cwnds:
  "\<forall>p \<in> set cs. length (fst p) < 256 \<and> snd p < 4294967296 \<Longrightarrow>
     reads (parse_mc_cwnds (length cs)) (cwnds_bytes cs) cs"
proof (induction cs)
  case Nil
  then show ?case by (simp add: cwnds_bytes_def reads_if_def)
next
  case (Cons p cs)
  obtain c w where p: "p = (c, w)" by (cases p)
  have ok: "length c < 256" "w < 4294967296" using Cons.prems p by auto
  have IH: "reads (parse_mc_cwnds (length cs)) (cwnds_bytes cs) cs" using Cons by simp
  have "reads (\<lambda>b. try_bind (get_bytes_with_u8_length b) (\<lambda>(channel_id, b).
      try_bind (get_u32 b) (\<lambda>(mc_cwnd, b).
      try_bind (parse_mc_cwnds (length cs) b) (\<lambda>(rest, b). Inr ((channel_id, mc_cwnd) # rest, b)))))
      ((be_bytes 1 (length c) @ c) @ be_bytes 4 w @ cwnds_bytes cs) ((c, w) # cs)"
    by (intro reads_bind [OF reads_bytes_with_u8_length [OF ok(1)]] reads_bind [OF reads_u32 [OF ok(2)]]
        reads_map [OF IH] refl)
  then show ?case by (simp add: p cwnds_bytes_def reads_if_def)
qed

lemma reads_congestion_info:
  assumes "valid_frame (FcCongestionInfo i)"
  shows "reads parse_congestion_info (frame_body (FcCongestionInfo i)) (FcCongestionInfo i)"
proof -
  have ok: "ci_cwnd i < 4294967296" "ci_rtt i < varint_limit" "length (ci_mc_cwnds i) < 256"
    "\<forall>p \<in> set (ci_mc_cwnds i). length (fst p) < 256 \<and> snd p < 4294967296"
    using assms by (simp_all add: info_ok_def)
  show ?thesis
    unfolding parse_congestion_info_def [abs_def] frame_body.simps
    by (intro reads_bind [OF reads_u32 [OF ok(1)]] reads_bind [OF reads_varint [OF ok(2)]]
        reads_bind [OF reads_u8 [OF ok(3)]] reads_map [OF reads_mc_cwnds [OF ok(4)]]) simp
qed

lemma reads_mc_announce:
  assumes "valid_frame (McAnnounce c v6 probe rst sip gip port timer key bitrate qos)" (is "valid_frame ?f")
  shows "reads (parse_mc_announce (frame_code ?f)) (frame_body ?f) ?f"
proof -
  have ok: "length c < 256" "v6 < 256" "probe < 256" "rst < 256" "4 = length sip" "4 = length gip"
    "port < 65536" "timer < u64_size" "length key < varint_limit" "qos < 256" "qos < 4"
    "case bitrate of None \<Rightarrow> True | Some bw \<Rightarrow> bw < varint_limit"
    using assms by simp_all
  have br: "reads (\<lambda>b. if frame_code ?f = MC_ANNOUNCE_BW_CODE then get_varint1 Some b else Inr (None, b))
      (case bitrate of None \<Rightarrow> [] | Some bw \<Rightarrow> varint_bytes bw) bitrate"
    using ok(12) by (cases bitrate) (simp_all add: reads_return reads_varint1)
  show ?thesis
    unfolding parse_mc_announce_def [abs_def] frame_body.simps
    by (intro reads_bind [OF reads_bytes_with_u8_length [OF ok(1)]] reads_bind [OF reads_u8 [OF ok(3)]]
        reads_bind [OF reads_u8 [OF ok(2)]] reads_bind [OF reads_u8 [OF ok(4)]]
        reads_bind [OF reads_bytes [OF ok(5)]] reads_bind [OF reads_bytes [OF ok(6)]]
        reads_bind [OF reads_u16 [OF ok(7)]] reads_bind [OF reads_u64 [OF ok(8)]]
        reads_bind [OF reads_varint [OF ok(9)]] reads_bind [OF reads_bytes [OF refl]]
        reads_bind [OF br] reads_bind_eq [OF reads_u8 [OF ok(10)]])
      (use ok(11) in \<open>simp_all add: FcQos_from_bits_def reads_return\<close>)
qed

lemma reads_frame_body:
  "valid_frame f \<Longrightarrow> reads_if (frame_follow f) (parse_frame_quic (frame_code f)) (frame_body f) (norm_frame f)"
proof (induction f rule: valid_frame.induct)
  case (1 len)
  then show ?case
    using reads_padding [of 1 "len - 1"] by (simp add: parse_frame_dispatch frame_follow_def)
next
  case (3 ack_delay rset ecn)
  then have "reads (parse_frame_quic (frame_code (ACK ack_delay rset ecn))) (ack_bytes ack_delay rset ecn)
      (norm_frame (ACK ack_delay rset ecn))"
    using reads_ack_frame [of ack_delay rset ecn "frame_code (ACK ack_delay rset ecn)"]
    by (cases ecn) (simp_all add: parse_frame_dispatch)
  then show ?case by (simp add: reads_weaken)
next
  case (28 p ack_delay rset ecn)
  then have "reads (parse_frame_quic (frame_code (PathAck p ack_delay rset ecn)))
      (varint_bytes p @ ack_bytes ack_delay rset ecn) (norm_frame (PathAck p ack_delay rset ecn))"
    using reads_path_ack_frame [of p ack_delay rset ecn "frame_code (PathAck p ack_delay rset ecn)"]
    by (cases ecn) (simp_all add: parse_frame_dispatch)
  then show ?case by (simp add: reads_weaken)
next
  case (9 s d)
  have "parse_frame_quic (stream_type (rb_fin d)) = parse_stream_frame (stream_type (rb_fin d))"
    by (cases "rb_fin d") (simp_all add: parse_frame_dispatch)
  with reads_stream [OF 9] show ?case by (simp add: reads_weaken)
next
  case (36 c v6 probe rst sip gip port timer key bitrate qos)
  from reads_mc_announce [OF 36] show ?case
    by (cases bitrate) (simp_all add: parse_frame_dispatch reads_weaken)
next
  case (2 probe)
  then show ?case
    using reads_return [of "Ping None"] parse_frame_dispatch(2) by (simp add: frame_follow_def)
next
  case (6 d)
  from reads_crypto [OF 6] show ?case by (simp add: parse_frame_dispatch reads_weaken)
next
  case (8 tok)
  from reads_new_token [OF 8] show ?case by (simp add: parse_frame_dispatch reads_weaken)
next
  case (19 a b c r)
  from reads_new_cid(1) [OF 19] show ?case by (simp add: parse_frame_dispatch reads_weaken)
next
  case (32 p a b c r)
  from reads_new_cid(2) [OF 32] show ?case by (simp add: parse_frame_dispatch reads_weaken)
next
  case (23 a b r)
  from reads_close(1) [OF 23] show ?case by (simp add: parse_frame_dispatch reads_weaken)
next
  case (24 a r)
  from reads_close(2) [OF 24] show ?case by (simp add: parse_frame_dispatch reads_weaken)
next
  case (26 d)
  from reads_datagram [OF 26] show ?case by (simp add: parse_frame_dispatch reads_weaken)
next
  case (37 c a b)
  from reads_mc_state [OF 37] show ?case by (simp add: parse_frame_dispatch reads_weaken)
next
  case (38 c k algo pn)
  from reads_mc_key [OF 38] show ?case by (simp add: parse_frame_dispatch reads_weaken)
next
  case (39 info)
  from reads_congestion_info [OF 39] show ?case by (simp add: parse_frame_dispatch reads_weaken)
qed (simp_all add: parse_frame_dispatch reads_weaken reads_varint1 reads_varint_2 reads_varint_3
    reads_return reads_map [OF reads_bytes])

lemma frame_code_limit: "frame_code f < varint_limit"
  by (cases f) (simp_all add: stream_type_def Let_def)

lemma norm_frame_allowed: "frame_allowed pkt (norm_frame f) = frame_allowed pkt f"
  by (cases f)
    (simp_all add: frame_allowed_def any_pkt_frame_def zero_rtt_forbidden_def handshake_frame_def)

lemma reads_frame:
  assumes "valid_frame f" "frame_allowed pkt f"
  shows "reads_if (frame_follow f) (Frame_from_bytes pkt) (frame_bytes f) (norm_frame f)"
proof -
  have body: "reads_if (frame_follow f) (\<lambda>b. try_bind (parse_frame_quic (frame_code f) b) (\<lambda>(frame, b).
      if \<not> frame_allowed pkt frame then err InvalidPacket else Inr (frame, b))) (frame_body f) (norm_frame f)"
    using reads_frame_body [OF assms(1)] assms(2) by (simp add: reads_if_def norm_frame_allowed)
  show ?thesis
    unfolding Frame_from_bytes_def [abs_def] frame_bytes_def
    by (rule reads_bind [OF reads_varint [OF frame_code_limit]]) (rule body)
qed

interpretation fr: wire_format frame_bytes "Frame_from_bytes pkt" norm_frame
  "\<lambda>f. valid_frame f \<and> frame_allowed pkt f" frame_follow for pkt
proof unfold_locales
  fix f assume "valid_frame f \<and> frame_allowed pkt f"
  then show "reads_if (frame_follow f) (Frame_from_bytes pkt) (frame_bytes f) (norm_frame f)"
    by (simp add: reads_frame)
  show "frame_bytes f \<noteq> []" by (simp add: frame_bytes_def varint_bytes_def varint_enc_def)
qed

section \<open>Predicted lengths\<close>

lemma len_sum_Nil: "len_sum [] = Inr 0"
  by (simp add: len_sum_def)

lemma len_sum_Inr_acc:
  "acc + sum_list ns < u64_size \<Longrightarrow>
     fold_res (\<lambda>r acc. try_bind r (\<lambda>x. checked_add acc x)) (map Inr ns) acc = Inr (acc + sum_list ns)"
  by (induction ns arbitrary: acc) (auto simp: add.assoc)

lemma len_sum_Inr: "sum_list ns < u64_size \<Longrightarrow> len_sum (map Inr ns) = Inr (sum_list ns)"
  using len_sum_Inr_acc [of 0 ns] by (simp add: len_sum_def)

lemma ack_blocks_len_eq:
  "blocks_ok smallest blocks \<Longrightarrow> smallest \<le> varint_limit \<Longrightarrow>
     \<exists>ns. ack_blocks_len smallest blocks = map Inr ns \<and> sum_list ns = length (ack_block_bytes smallest blocks)"
proof (induction smallest blocks rule: ack_block_bytes.induct)
  case (2 smallest s e blocks)
  then obtain ns where ns: "ack_blocks_len s blocks = map Inr ns"
    "sum_list ns = length (ack_block_bytes s blocks)" by auto
  have "checked_sub smallest e = Inr (smallest - e)" "checked_sub (smallest - e) 1 = Inr (smallest - e - 1)"
    "checked_sub e 1 = Inr (e - 1)" "checked_sub (e - 1) s = Inr (e - 1 - s)"
    "varint_len (smallest - e - 1) = Inr (varint_size (smallest - e - 1))"
    "varint_len (e - 1 - s) = Inr (varint_size (e - 1 - s))"
    using 2 by (auto simp: checked_sub_def varint_len_eq)
  with ns show ?case
    by (intro exI [of _ "varint_size (smallest - e - 1) # varint_size (e - 1 - s) # ns"]) simp
qed simp

lemma common_ack_len_eq:
  assumes "ack_ok ack_delay rset ecn"
  shows "\<exists>ns. common_ack_wire_len ack_delay rset ecn = map Inr ns \<and> sum_list ns = length (ack_bytes ack_delay rset ecn)"
proof -
  obtain s e it where a: "rev (RangeSet_iter rset) = (s, e) # it" "s < e" "e \<le> varint_limit"
    "blocks_ok s it" "length it < varint_limit"
    using ack_ok_cases [OF assms] by metis
  obtain ns where ns: "ack_blocks_len s it = map Inr ns" "sum_list ns = length (ack_block_bytes s it)"
    using ack_blocks_len_eq [OF a(4)] a(2,3) by auto
  obtain es where es: "ecn_len ecn = map Inr es" "sum_list es = length (ecn_bytes ecn)"
  proof (cases ecn)
    case None
    then show ?thesis using that [of "[]"] by (simp add: ecn_len_def ecn_bytes_def)
  next
    case (Some c)
    then show ?thesis
      using that [of "[varint_size (ect0_count c), varint_size (ect1_count c), varint_size (ecn_ce_count c)]"] assms
      by (simp add: ecn_len_def ecn_bytes_def ack_ok_def ecn_ok_def varint_len_eq)
  qed
  have "checked_sub e 1 = Inr (e - 1)" "checked_sub (e - 1) s = Inr (e - 1 - s)"
    "varint_len (e - 1) = Inr (varint_size (e - 1))" "varint_len (e - 1 - s) = Inr (varint_size (e - 1 - s))"
    "varint_len ack_delay = Inr (varint_size ack_delay)" "varint_len (length it) = Inr (varint_size (length it))"
    using a assms by (simp_all add: varint_len_eq ack_ok_def)
  then show ?thesis
    using a(1) ns es
    by (intro exI [of _ "[varint_size (e - 1), varint_size ack_delay, varint_size (length it),
        varint_size (e - 1 - s)] @ ns @ es"]) (simp add: common_ack_wire_len_def ack_bytes_def)
qed

definition has_bitrate :: "frame \<Rightarrow> bool" where
  "has_bitrate f = (case f of McAnnounce _ _ _ _ _ _ _ _ _ bitrate _ \<Rightarrow> bitrate \<noteq> None | _ \<Rightarrow> False)"

lemma length_cwnds_bytes: "length (cwnds_bytes cs) = sum_list (map (\<lambda>(c, _). 1 + length c + 4) cs)"
  by (induction cs) (auto simp: cwnds_bytes_def)

lemma varint_sizes [simp]:
  "varint_size 0 = 1" "varint_size (Suc 0) = 1" "varint_size 2 = 1" "varint_size 3 = 1"
  "varint_size 4 = 1" "varint_size 5 = 1" "varint_size 6 = 1" "varint_size 7 = 1"
  "varint_size 14 = 1" "varint_size 15 = 1" "varint_size 16 = 1" "varint_size 17 = 1"
  "varint_size 18 = 1" "varint_size 19 = 1" "varint_size 20 = 1" "varint_size 21 = 1"
  "varint_size 22 = 1" "varint_size 23 = 1" "varint_size 24 = 1" "varint_size 25 = 1"
  "varint_size 26 = 1" "varint_size 27 = 1" "varint_size 28 = 1" "varint_size 29 = 1"
  "varint_size 30 = 1" "varint_size 49 = 1" "varint_size 242 = 2" "varint_size 243 = 2"
  "varint_size 244 = 2" "varint_size 245 = 2" "varint_size 249 = 2"
  "varint_size 354585600 = 4" "varint_size 354585601 = 4" "varint_size 354585605 = 4"
  "varint_size 354585607 = 4" "varint_size 354585608 = 4" "varint_size 354585609 = 4"
  "varint_size 354585610 = 4" "varint_size 354585612 = 4" "varint_size 354585613 = 4"
  by (simp_all add: varint_size_def)

lemma wire_len_parts_eq:
  assumes "valid_frame f" "\<not> has_bitrate f" "length (frame_bytes f) < u64_size"
  shows "\<exists>ns. wire_len_parts f = map Inr ns \<and> sum_list ns = length (frame_bytes f)"
  using assms
proof (induction f rule: valid_frame.induct)
  case (3 ack_delay rset ecn)
  then show ?case
    using common_ack_len_eq [of ack_delay rset ecn]
    by (auto simp: frame_bytes_def intro!: exI [of _ "1 # _"])
next
  case (28 p ack_delay rset ecn)
  then show ?case
    using common_ack_len_eq [of ack_delay rset ecn]
    by (auto simp: frame_bytes_def varint_len_eq intro!: exI [of _ "4 # varint_size p # _"])
next
  case (39 i)
  have "sum_list (map (\<lambda>(c, _). 1 + length c + 4) (ci_mc_cwnds i)) < u64_size"
    using 39 by (simp add: frame_bytes_def length_cwnds_bytes)
  then have "len_sum (map (\<lambda>(channel_id, _). Inr (1 + length channel_id + 4)) (ci_mc_cwnds i)) =
      Inr (sum_list (map (\<lambda>(c, _). 1 + length c + 4) (ci_mc_cwnds i)))"
    using len_sum_Inr [of "map (\<lambda>(c, _). 1 + length c + 4) (ci_mc_cwnds i)"]
    by (simp add: comp_def split_def)
  moreover have "ci_rtt i mod u64_size = ci_rtt i" "ci_rtt i < varint_limit" using 39 by (auto simp: info_ok_def)
  ultimately show ?case
    using 39
    by (intro exI [of _ "[2, 4, varint_size (ci_rtt i), 1, length (cwnds_bytes (ci_mc_cwnds i))]"])
      (simp add: congestion_info_wire_len_def frame_bytes_def length_cwnds_bytes varint_len_eq)
qed (auto simp: frame_bytes_def varint_len_eq rb_ok_def cid_ok_def cid_bytes_def mc_announce_wire_len_def
    has_bitrate_def Cons_eq_map_conv stream_type_def Let_def)

section \<open>Parsers that do not panic\<close>

definition np :: "'a result \<Rightarrow> bool" where
  "np r \<longleftrightarrow> r \<noteq> panic"

lemma np_Inr [intro!]: "np (Inr x)" and np_err [intro!]: "np (err e)"
  by (simp_all add: np_def)

lemma np_bind: "np p \<Longrightarrow> (\<And>x. p = Inr x \<Longrightarrow> np (q x)) \<Longrightarrow> np (try_bind p q)"
  by (cases p) (auto simp: np_def)

lemma np_bind_prod: "np p \<Longrightarrow> (\<And>x b. np (q x b)) \<Longrightarrow> np (try_bind p (\<lambda>(x, b). q x b))"
  by (rule np_bind) auto

lemma np_if: "(c \<Longrightarrow> np a) \<Longrightarrow> (\<not> c \<Longrightarrow> np b) \<Longrightarrow> np (if c then a else b)"
  by simp

lemma np_prims: "np (get_varint b)" "np (get_u n b)" "np (get_bytes n b)"
  by (auto simp: np_def get_varint_eq get_u_eq get_bytes_eq split: option.splits)

lemma np_uints: "np (get_u8 b)" "np (get_u16 b)" "np (get_u32 b)" "np (get_u64 b)"
  by (simp_all add: get_u8_def get_u16_def get_u32_def get_u64_def np_prims)

lemma np_bytes_len: "np (get_bytes_with_u8_length b)" "np (get_bytes_with_varint_length b)"
  unfolding get_bytes_with_u8_length_def get_bytes_with_varint_length_def
  by (intro np_bind_prod np_uints np_prims)+

lemma np_varint1: "np (get_varint1 f b)"
  unfolding get_varint1_def by (intro np_bind_prod np_prims np_Inr)

lemma np_varint2: "np (get_varint2 f b)"
  unfolding get_varint2_def by (intro np_bind_prod np_prims np_varint1)

lemma np_varint3: "np (get_varint3 f b)"
  unfolding get_varint3_def by (intro np_bind_prod np_prims np_varint2)

lemmas np_all = np_prims np_uints np_bytes_len np_varint1 np_varint2 np_varint3 np_Inr np_err
lemmas np_rules = np_bind_prod np_if np_all

lemma np_padding: "np (parse_padding n b)"
proof (induction n b rule: parse_padding.induct)
  case (1 len b)
  show ?case
    by (subst parse_padding.simps) (rule np_if, rule np_bind, rule np_uints, use 1 in auto)
qed

lemma np_ack_blocks: "rs_ok rset \<Longrightarrow> np (parse_ack_blocks n smallest rset b)"
proof (induction n arbitrary: smallest rset b)
  case (Suc n)
  have step: "np (try_bind (RangeSet_insert (l - k, l + 1) rset) (\<lambda>rset. parse_ack_blocks n (l - k) rset b'))"
    for l k b'
  proof -
    have "l - k \<le> l + 1" by simp
    then obtain r where "RangeSet_insert (l - k, l + 1) rset = Inr r" "rs_ok r"
      using rs.ins_total [OF Suc.prems] by blast
    with Suc.IH show ?thesis by simp
  qed
  show ?case
    unfolding parse_ack_blocks.simps Let_def by (intro np_rules step)
qed (simp add: np_Inr)

lemma np_common_ack: "np (parse_common_ack_frame e b)"
proof -
  have ecn: "np (parse_ecn e b)" for b unfolding parse_ecn_def by (intro np_rules)
  have step: "np (try_bind (RangeSet_insert (l - k, l + 1) RangeSet_default) (\<lambda>rset.
      try_bind (parse_ack_blocks n (l - k) rset b) (\<lambda>(rset, b).
      try_bind (parse_ecn e b) (\<lambda>(ecn, b). Inr ((d, rset, ecn), b)))))" for l k n d b
  proof -
    have "l - k \<le> l + 1" by simp
    then obtain r where r: "RangeSet_insert (l - k, l + 1) RangeSet_default = Inr r" "rs_ok r"
      using rs.ins_total [OF rs_ok_default] by blast
    have "np (try_bind (parse_ack_blocks n (l - k) r b) (\<lambda>(rset, b).
      try_bind (parse_ecn e b) (\<lambda>(ecn, b). Inr ((d, rset, ecn), b))))"
      by (intro np_rules np_ack_blocks r ecn)
    with r(1) show ?thesis by simp
  qed
  show ?thesis
    unfolding parse_common_ack_frame_def Let_def by (intro np_rules step)
qed

lemma np_parsers:
  "np (parse_stream_frame t b)" "np (parse_datagram_frame t b)" "np (parse_crypto b)" "np (parse_new_token b)"
  "np (parse_cid_token f b)" "np (parse_connection_close b)" "np (parse_application_close b)"
  "np (parse_mc_state b)"
  unfolding parse_stream_frame_def parse_datagram_frame_def parse_crypto_def parse_new_token_def
    parse_cid_token_def parse_connection_close_def parse_application_close_def parse_mc_state_def
  by (intro np_rules)+

lemma np_ack_frames: "np (parse_ack_frame t b)" "np (parse_path_ack_frame t b)"
proof -
  have *: "np (try_bind (parse_common_ack_frame e b) (\<lambda>((d, rset, ecn), b). Inr (g d rset ecn, b)))"
    for e b and g :: "nat \<Rightarrow> range_set \<Rightarrow> ecn_counts option \<Rightarrow> frame"
    by (rule np_bind [OF np_common_ack]) auto
  show "np (parse_ack_frame t b)" unfolding parse_ack_frame_def by (rule *)
  show "np (parse_path_ack_frame t b)"
    unfolding parse_path_ack_frame_def by (intro np_bind_prod np_prims *)
qed

lemma np_mc_key: "np (parse_mc_key b)"
proof -
  have "np (try_bind (Algorithm_from_u8 code) (\<lambda>algo. get_varint1 (g algo) b))" for code g b
    by (rule np_bind) (simp_all add: Algorithm_from_u8_def np_all)
  then show ?thesis unfolding parse_mc_key_def by (intro np_rules)
qed

lemma np_new_cid: "np (parse_new_connection_id b)" "np (parse_path_new_connection_id b)"
  unfolding parse_new_connection_id_def parse_path_new_connection_id_def
  by (intro np_rules np_parsers)+

lemma np_mc_cwnds: "np (parse_mc_cwnds n b)"
proof (induction n arbitrary: b)
  case (Suc n)
  show ?case unfolding parse_mc_cwnds.simps by (intro np_rules Suc)
qed (simp add: np_Inr)

lemma np_congestion_info: "np (parse_congestion_info b)"
  unfolding parse_congestion_info_def by (intro np_rules np_mc_cwnds)

lemma np_frame: "t \<noteq> MC_ANNOUNCE_CODE \<Longrightarrow> t \<noteq> MC_ANNOUNCE_BW_CODE \<Longrightarrow> np (parse_frame_quic t b)"
  unfolding parse_frame_quic_def parse_frame_mp_def parse_frame_mc_def
  by (intro np_rules np_parsers np_ack_frames np_mc_key np_new_cid np_congestion_info np_padding; simp)

section \<open>Properties\<close>

text \<open>C1: Every representable frame survives the wire: written by \<open>to_bytes\<close> into a buffer and
  read by \<open>from_bytes\<close> from the same offset, it comes back (without local metadata, with its
  buffer rebased, and with the same acknowledged ranges), the reader stops where the writer
  stopped, and the number of bytes reported is the number written. This covers every frame,
  the multipath and the flexicast ones included.\<close>

theorem frame_roundtrip:
  assumes "valid_frame f" "frame_allowed pkt f" "octets_wf b" "Frame_to_bytes f b = Inr (n, b')"
    and "frame_follow f (as_ref b')"
  shows "Frame_from_bytes pkt (b'\<lparr>off := off b\<rparr>) = Inr (norm_frame f, b') \<and>
    n = length (frame_bytes f) \<and> off b' = off b + n \<and> take (off b) (buf b') = take (off b) (buf b)"
proof -
  have w: "put_frame_quic f b = Inr b'" "n = cap b - cap b'"
    using assms(4) by (auto simp: Frame_to_bytes_def)
  note D = emitsD [OF emits_frame [OF assms(1)] assms(3) w(1)]
  have "Frame_from_bytes pkt (b'\<lparr>off := off b\<rparr>) = Inr (norm_frame f, b')"
    using readsD [OF reads_frame [OF assms(1,2)] D(1) assms(5)] D(2) by simp
  moreover have "off b' = off b + length (frame_bytes f)"
    using D(2) by (metis off_adv octets.select_convs(2) octets.surjective octets.update_convs(2))
  ultimately show ?thesis using D w(2) by simp
qed

theorem frame_roundtrip_witness:
  "Frame_from_bytes Short \<lparr>buf = [0x10, 0x40, 0x64], off = 0\<rparr> =
     Inr (MaxData 100, \<lparr>buf = [0x10, 0x40, 0x64], off = 3\<rparr>)"
proof -
  have "Frame_to_bytes (MaxData 100) \<lparr>buf = [0, 0, 0], off = 0\<rparr> =
      Inr (3, \<lparr>buf = [0x10, 0x40, 0x64], off = 3\<rparr>)"
    by (simp add: Frame_to_bytes_def put_all.simps put_varint_def varint_len_def put_varint_with_len_def
        put_u8_def put_u16_def put_u_def cap_def or_first_def be_bytes_numerals)
  then show ?thesis
    using frame_roundtrip [of "MaxData 100" Short "\<lparr>buf = [0, 0, 0], off = 0\<rparr>" 3
        "\<lparr>buf = [0x10, 0x40, 0x64], off = 3\<rparr>"]
    by (simp add: frame_allowed_def any_pkt_frame_def zero_rtt_forbidden_def handshake_frame_def
        octets_wf_def frame_follow_def)
qed

text \<open>C3: Whatever bytes arrive, the frame parser returns a frame or an error: it never panics,
  unless the frame type is one of the two MC_ANNOUNCE codes. In particular no ACK frame of a
  peer can make the range bookkeeping underflow.\<close>

theorem frame_parser_no_panic:
  assumes "Frame_from_bytes pkt b = panic"
  shows "\<exists>t b1. get_varint b = Inr (t, b1) \<and> (t = MC_ANNOUNCE_CODE \<or> t = MC_ANNOUNCE_BW_CODE)"
proof (rule ccontr)
  assume no: "\<not> ?thesis"
  have "np (Frame_from_bytes pkt b)"
    unfolding Frame_from_bytes_def
  proof (rule np_bind [OF np_prims(1)])
    fix x assume x: "get_varint b = Inr x"
    obtain t b1 where "x = (t, b1)" by (cases x)
    with no x have "np (parse_frame_quic t b1)" by (intro np_frame) auto
    then show "np (case x of (frame_type, b) \<Rightarrow> try_bind (parse_frame_quic frame_type b) (\<lambda>(frame, b).
        if \<not> frame_allowed pkt frame then err InvalidPacket else Inr (frame, b)))"
      unfolding \<open>x = (t, b1)\<close> prod.case by (intro np_rules)
  qed
  with assms show False by (simp add: np_def)
qed

theorem frame_parser_no_panic_witness:
  "Frame_from_bytes Short \<lparr>buf = [0x02, 0xff], off = 0\<rparr> \<noteq> panic"
proof
  assume "Frame_from_bytes Short \<lparr>buf = [0x02, 0xff], off = 0\<rparr> = panic"
  from frame_parser_no_panic [OF this] obtain t b1 where
    "get_varint \<lparr>buf = [0x02, 0xff], off = 0\<rparr> = Inr (t, b1)" "t = 242 \<or> t = 243" by auto
  then show False by (simp add: get_varint_eq dec_varint_def as_ref_def be_val_def)
qed

definition panics_on :: "'a parser \<Rightarrow> byte list \<Rightarrow> bool" where
  "panics_on p bs \<longleftrightarrow> (\<forall>b r. as_ref b = bs @ r \<longrightarrow> p b = panic)"

lemma panics_bind:
  assumes "reads p xs x" "panics_on (q x) ys"
  shows "panics_on (\<lambda>b. try_bind (p b) (\<lambda>(x, b). q x b)) (xs @ ys)"
  unfolding panics_on_def
proof (intro allI impI)
  fix b r assume b: "as_ref b = (xs @ ys) @ r"
  then have "p b = Inr (x, adv (length xs) b)" using assms(1) by (simp add: reads_if_def)
  moreover have "as_ref (adv (length xs) b) = ys @ r" using b by simp
  ultimately show "try_bind (p b) (\<lambda>(x, b). q x b) = panic"
    using assms(2) by (simp add: panics_on_def)
qed

lemma panics_here: "(\<And>b. p b = panic) \<Longrightarrow> panics_on p []"
  by (simp add: panics_on_def)

text \<open>C36: A peer can crash the endpoint with an MC_ANNOUNCE frame: if the quality-of-service byte
  has a bit outside the two declared flags, the parser panics instead of returning an error,
  whatever the other fields are.\<close>

theorem mc_announce_qos_panic:
  assumes "valid_frame (McAnnounce c v6 probe rst sip gip port timer key bitrate 0)"
    and "4 \<le> qos" "qos < 256"
    and "as_ref b = frame_bytes (McAnnounce c v6 probe rst sip gip port timer key bitrate qos) @ r"
  shows "Frame_from_bytes pkt b = panic"
proof -
  let ?f = "McAnnounce c v6 probe rst sip gip port timer key bitrate qos"
  have ok: "length c < 256" "v6 < 256" "probe < 256" "rst < 256" "4 = length sip" "4 = length gip"
    "port < 65536" "timer < u64_size" "length key < varint_limit"
    "case bitrate of None \<Rightarrow> True | Some bw \<Rightarrow> bw < varint_limit"
    using assms(1) by simp_all
  have br: "reads (\<lambda>b. if frame_code ?f = MC_ANNOUNCE_BW_CODE then get_varint1 Some b else Inr (None, b))
      (case bitrate of None \<Rightarrow> [] | Some bw \<Rightarrow> varint_bytes bw) bitrate"
    using ok(10) by (cases bitrate) (simp_all add: reads_return reads_varint1)
  have none: "FcQos_from_bits qos = None" using assms(2) by (simp add: FcQos_from_bits_def)
  have split: "frame_body ?f = frame_body ?f @ []" by simp
  have "panics_on (parse_mc_announce (frame_code ?f)) (frame_body ?f @ [])"
    unfolding parse_mc_announce_def [abs_def] frame_body.simps append_assoc [of _ "be_bytes 1 qos"]
      append_assoc
    by (rule panics_bind [OF reads_bytes_with_u8_length [OF ok(1)], unfolded append_assoc]
        panics_bind [OF reads_u8 [OF ok(3)]] panics_bind [OF reads_u8 [OF ok(2)]]
        panics_bind [OF reads_u8 [OF ok(4)]] panics_bind [OF reads_bytes [OF ok(5)]]
        panics_bind [OF reads_bytes [OF ok(6)]] panics_bind [OF reads_u16 [OF ok(7)]]
        panics_bind [OF reads_u64 [OF ok(8)]] panics_bind [OF reads_varint [OF ok(9)]]
        panics_bind [OF reads_bytes [OF refl]] panics_bind [OF br]
        panics_bind [OF reads_u8 [OF assms(3)]] panics_here)+ (simp add: none)
  then have body: "panics_on (parse_frame_quic (frame_code ?f)) (frame_body ?f)"
    by (cases bitrate) (simp_all add: parse_frame_dispatch)
  have code: "get_varint b = Inr (frame_code ?f, adv (varint_size (frame_code ?f)) b)"
    using readsD [OF reads_varint [OF frame_code_limit [of ?f]], of b] assms(4) by (simp add: frame_bytes_def)
  moreover have "as_ref (adv (varint_size (frame_code ?f)) b) = frame_body ?f @ r"
    using assms(4) by (simp add: frame_bytes_def)
  ultimately show ?thesis
    using body unfolding panics_on_def Frame_from_bytes_def by simp
qed

theorem mc_announce_qos_panic_witness:
  "Frame_from_bytes Short (with_slice (frame_bytes
     (McAnnounce [7] 0 1 0 [10, 0, 0, 1] [239, 1, 1, 1] 4433 1000 [] None 4))) = panic"
  using mc_announce_qos_panic [of "[7]" 0 1 0 "[10, 0, 0, 1]" "[239, 1, 1, 1]" 4433 1000 "[]" None 4
      "with_slice (frame_bytes (McAnnounce [7] 0 1 0 [10, 0, 0, 1] [239, 1, 1, 1] 4433 1000 [] None 4))" "[]" Short]
  by simp

text \<open>C35: The predicted length is the number of bytes written, for every representable frame
  except an MC_ANNOUNCE frame with a bitrate; for that one the prediction is too small by the
  encoded bitrate, so a sender that trusts it can overrun the space it checked.\<close>

theorem wire_len_correct:
  assumes "valid_frame f" "octets_wf b" "length (buf b) < u64_size" "Frame_to_bytes f b = Inr (n, b')"
  shows "if has_bitrate f then (\<exists>c v6 probe rst sip gip port timer key bw qos.
      f = McAnnounce c v6 probe rst sip gip port timer key (Some bw) qos \<and>
      wire_len f = Inr (n - varint_size bw) \<and> varint_size bw \<le> n \<and> 0 < varint_size bw)
    else wire_len f = Inr n"
proof -
  have w: "put_frame_quic f b = Inr b'" "n = cap b - cap b'"
    using assms(4) by (auto simp: Frame_to_bytes_def)
  note D = emitsD [OF emits_frame [OF assms(1)] assms(2) w(1)]
  have n: "n = length (frame_bytes f)" "n < u64_size"
    using D(3,4) w(2) assms(3) by (auto simp: cap_def)
  show ?thesis
  proof (cases "has_bitrate f")
    case False
    obtain ns where "wire_len_parts f = map Inr ns" "sum_list ns = length (frame_bytes f)"
      using wire_len_parts_eq [OF assms(1) False] n by auto
    with n False len_sum_Inr [of ns] show ?thesis by (simp add: wire_len_def)
  next
    case True
    then obtain c v6 probe rst sip gip port timer key bw qos where
      f: "f = McAnnounce c v6 probe rst sip gip port timer key (Some bw) qos"
      by (auto simp: has_bitrate_def split: frame.splits)
    let ?ns = "[2, 1, length c, 1, 1, 1, 4, 4, 2, 8, varint_size (length key), length key, 1]"
    have parts: "wire_len_parts f = map Inr ?ns"
      using assms(1) by (simp add: f mc_announce_wire_len_def varint_len_eq)
    have sum: "sum_list ?ns + varint_size bw = n" using assms(1) n(1) by (simp add: f frame_bytes_def)
    have "len_sum (map Inr ?ns) = Inr (sum_list ?ns)"
      by (rule len_sum_Inr) (use sum n(2) in linarith)
    then have "wire_len f = Inr (n - varint_size bw)"
      unfolding wire_len_def parts using sum by simp
    moreover have "0 < varint_size bw" using varint_size_cases [of bw] by auto
    ultimately show ?thesis using True f sum by auto
  qed
qed

theorem wire_len_correct_witness:
  "wire_len (MaxData 100) = Inr 3"
proof -
  have "Frame_to_bytes (MaxData 100) \<lparr>buf = [0, 0, 0], off = 0\<rparr> =
      Inr (3, \<lparr>buf = [0x10, 0x40, 0x64], off = 3\<rparr>)"
    by (simp add: Frame_to_bytes_def put_all.simps put_varint_def varint_len_def put_varint_with_len_def
        put_u8_def put_u16_def put_u_def cap_def or_first_def be_bytes_numerals)
  then show ?thesis
    using wire_len_correct [of "MaxData 100" "\<lparr>buf = [0, 0, 0], off = 0\<rparr>" 3]
    by (simp add: has_bitrate_def octets_wf_def)
qed

end
