(* ===== verification/Payload.thy ===== *)
theory Payload
  imports Frame_Codec
begin

text \<open>
  The loop of \<open>Connection::recv_single\<close> in \<open>quiche/src/lib.rs\<close> that takes the frames out of a
  decrypted packet payload. The handler \<open>process_frame\<close> is an argument: a function on the
  connection state that can also report an error, in which case the loop stops with the state
  it left. The loop terminates because every frame consumes at least one byte.
\<close>

section \<open>Parsers only move forward\<close>

definition advances :: "'a parser \<Rightarrow> bool" where
  "advances p \<longleftrightarrow> (\<forall>b x b'. p b = Inr (x, b') \<longrightarrow> (\<exists>n. b' = adv n b))"

lemma advancesD: "advances p \<Longrightarrow> p b = Inr (x, b') \<Longrightarrow> \<exists>n. b' = adv n b"
  by (auto simp: advances_def)

lemma adv_bind: "advances p \<Longrightarrow> (\<And>x. advances (q x)) \<Longrightarrow> advances (\<lambda>b. try_bind (p b) (\<lambda>(x, b). q x b))"
  unfolding advances_def by (auto simp: adv_adv) (metis adv_adv)

lemma adv_return: "advances (\<lambda>b. Inr (x, b))"
  unfolding advances_def by (auto intro: exI [of _ 0])

lemma adv_return_fun: "advances (\<lambda>b. Inr (f b, b))"
  unfolding advances_def by (auto intro: exI [of _ 0])

lemma adv_err: "advances (\<lambda>b. Inl e)"
  by (simp add: advances_def)

lemma adv_if: "advances p \<Longrightarrow> advances q \<Longrightarrow> advances (\<lambda>b. if c then p b else q b)"
  by (cases c) auto

lemma adv_try: "(\<And>x. advances (q x)) \<Longrightarrow> advances (\<lambda>b. try_bind r (\<lambda>x. q x b))"
  by (cases r) (auto simp: advances_def)

lemma adv_prims: "advances get_varint" "advances (get_u n)" "advances (get_bytes n)"
  unfolding advances_def
  by (auto simp: get_varint_eq get_u_eq get_bytes_eq split: option.splits if_splits)

lemma adv_uints: "advances get_u8" "advances get_u16" "advances get_u32" "advances get_u64"
  by (simp_all add: get_u8_def get_u16_def get_u32_def get_u64_def adv_prims)

lemma adv_bytes_len: "advances get_bytes_with_u8_length" "advances get_bytes_with_varint_length"
  unfolding get_bytes_with_u8_length_def [abs_def] get_bytes_with_varint_length_def [abs_def]
  by (intro adv_bind adv_uints adv_prims)+

lemma adv_varint1: "advances (get_varint1 f)"
  unfolding get_varint1_def [abs_def] by (intro adv_bind adv_prims adv_return)

lemma adv_varint2: "advances (get_varint2 f)"
  unfolding get_varint2_def [abs_def] by (intro adv_bind adv_prims adv_varint1)

lemma adv_varint3: "advances (get_varint3 f)"
  unfolding get_varint3_def [abs_def] by (intro adv_bind adv_prims adv_varint2)

lemmas adv_all = adv_prims adv_uints adv_bytes_len adv_varint1 adv_varint2 adv_varint3
lemmas adv_rules = adv_bind adv_if adv_all adv_return adv_err adv_return_fun

lemma adv_padding: "advances (parse_padding n)"
proof -
  have "parse_padding n b = Inr (x, b') \<Longrightarrow> \<exists>k. b' = adv k b" for b x b'
  proof (induction n b arbitrary: x b' rule: parse_padding.induct)
    case (1 len b)
    show ?case
    proof (cases "peek_u8 b = Inr 0")
      case True
      then obtain v b1 where g: "get_u8 b = Inr (v, b1)" and p: "parse_padding (len + 1) b1 = Inr (x, b')"
        using "1.prems" by (subst (asm) parse_padding.simps) auto
      obtain j where "b1 = adv j b" using advancesD [OF adv_uints(1) g] by blast
      moreover obtain k where "b' = adv k b1" using "1.IH" [OF True g refl p] by blast
      ultimately show ?thesis by (auto simp: adv_adv)
    next
      case False
      with "1.prems" show ?thesis
        by (subst (asm) parse_padding.simps) (auto intro: exI [of _ 0])
    qed
  qed
  then show ?thesis by (auto simp: advances_def)
qed

lemma adv_ack_blocks: "advances (parse_ack_blocks n smallest rset)"
proof (induction n arbitrary: smallest rset)
  case 0
  then show ?case by (simp add: adv_return)
next
  case (Suc n)
  have "advances (\<lambda>b. parse_ack_blocks (Suc n) smallest rset b)"
    unfolding parse_ack_blocks.simps Let_def by (intro adv_rules adv_try Suc)
  then show ?case by simp
qed

lemma adv_common_ack: "advances (parse_common_ack_frame e)"
  unfolding parse_common_ack_frame_def [abs_def] parse_ecn_def [abs_def] Let_def
  by (intro adv_rules adv_try adv_ack_blocks)

lemma adv_triple:
  "advances p \<Longrightarrow> advances (\<lambda>b. try_bind (p b) (\<lambda>((x, y, z), b). Inr (g x y z, b)))"
  unfolding advances_def by (auto split: prod.splits)

lemma adv_parsers:
  "advances (parse_ack_frame t)" "advances (parse_path_ack_frame t)" "advances (parse_stream_frame t)"
  "advances (parse_datagram_frame t)" "advances parse_crypto" "advances parse_new_token"
  "advances (parse_cid_token f)" "advances parse_connection_close" "advances parse_application_close"
  "advances parse_mc_state" "advances parse_mc_key"
  unfolding parse_stream_frame_def [abs_def] parse_datagram_frame_def [abs_def] parse_crypto_def [abs_def]
    parse_new_token_def [abs_def] parse_cid_token_def [abs_def] parse_connection_close_def [abs_def]
    parse_application_close_def [abs_def] parse_mc_state_def [abs_def] parse_ack_frame_def [abs_def]
    parse_path_ack_frame_def [abs_def] parse_mc_key_def [abs_def]
  by (intro adv_rules adv_try adv_triple adv_common_ack)+

lemma adv_mc_cwnds: "advances (parse_mc_cwnds n)"
proof (induction n)
  case 0
  then show ?case by (simp add: adv_return)
next
  case (Suc n)
  have "advances (\<lambda>b. parse_mc_cwnds (Suc n) b)"
    unfolding parse_mc_cwnds.simps by (intro adv_rules Suc)
  then show ?case by simp
qed

lemma adv_mc_announce: "advances (parse_mc_announce t)"
proof -
  have q: "advances (\<lambda>b. case FcQos_from_bits v of None \<Rightarrow> panic | Some qos \<Rightarrow> Inr (g qos, b))"
    for v and g :: "fc_qos \<Rightarrow> frame"
    by (cases "FcQos_from_bits v") (simp_all add: adv_return adv_err)
  show ?thesis unfolding parse_mc_announce_def [abs_def] by (intro adv_rules q)
qed

lemma adv_frame: "advances (parse_frame_quic t)"
  unfolding parse_frame_quic_def [abs_def] parse_frame_mp_def [abs_def] parse_frame_mc_def [abs_def]
    parse_new_connection_id_def [abs_def] parse_path_new_connection_id_def [abs_def]
    parse_congestion_info_def [abs_def]
  by (intro adv_rules adv_parsers adv_padding adv_mc_cwnds adv_mc_announce)

lemma frame_progress:
  assumes "Frame_from_bytes pkt b = Inr (f, b')"
  shows "cap b' < cap b \<and> (\<exists>n. b' = adv n b)"
proof -
  obtain t b1 where t: "get_varint b = Inr (t, b1)" "parse_frame_quic t b1 = Inr (f, b')"
    using assms by (auto simp: Frame_from_bytes_def split: if_splits)
  obtain n where n: "b1 = adv n b" "0 < n" "n \<le> cap b"
    using t(1) dec_varint_bounds [of "as_ref b"]
    by (auto simp: get_varint_eq cap_as_ref split: option.splits prod.splits)
  obtain m where m: "b' = adv m b1" using advancesD [OF adv_frame t(2)] by blast
  show ?thesis using n m by (auto simp: adv_adv cap_def)
qed

section \<open>The loop\<close>

function recv_payload ::
  "(frame \<Rightarrow> 's \<Rightarrow> ('s \<times> error option) result) \<Rightarrow> pkt_type \<Rightarrow> 's \<Rightarrow> bool \<Rightarrow> bool \<Rightarrow> octets \<Rightarrow>
     ('s \<times> bool \<times> bool \<times> error option) result" where
  "recv_payload process_frame pkt st ack_elicited prob payload =
     (if cap payload > 0 then
        try_bind (Frame_from_bytes pkt payload) (\<lambda>(frame, payload').
          let ack_elicited = (if ack_eliciting frame then True else ack_elicited);
              prob = (if \<not> probing frame then False else prob)
          in try_bind (process_frame frame st) (\<lambda>(st, e).
               case e of
                 Some _ \<Rightarrow> Inr (st, ack_elicited, prob, e)
               | None \<Rightarrow> recv_payload process_frame pkt st ack_elicited prob payload'))
      else Inr (st, ack_elicited, prob, None))"
  by pat_completeness auto
termination
  by (relation "measure (\<lambda>(p, pkt, st, a, pr, b). cap b)") (auto dest: frame_progress)

declare recv_payload.simps [simp del]

text \<open>The frames of a packet handed to the handler in order, until it reports an error.\<close>

fun deliver ::
  "(frame \<Rightarrow> 's \<Rightarrow> ('s \<times> error option) result) \<Rightarrow> frame list \<Rightarrow> 's \<Rightarrow> bool \<Rightarrow> bool \<Rightarrow>
     ('s \<times> bool \<times> bool \<times> error option) result" where
  "deliver process_frame [] st a p = Inr (st, a, p, None)"
| "deliver process_frame (f # fs) st a p =
     try_bind (process_frame f st) (\<lambda>(st, e).
       if e \<noteq> None then Inr (st, a \<or> ack_eliciting f, p \<and> probing f, e)
       else deliver process_frame fs st (a \<or> ack_eliciting f) (p \<and> probing f))"

definition is_padding :: "frame \<Rightarrow> bool" where
  "is_padding f = (case f of Padding _ \<Rightarrow> True | _ \<Rightarrow> False)"

fun no_adjacent_padding :: "frame list \<Rightarrow> bool" where
  "no_adjacent_padding [] \<longleftrightarrow> True"
| "no_adjacent_padding (f # fs) \<longleftrightarrow>
     (fs = [] \<or> \<not> (is_padding f \<and> is_padding (hd fs))) \<and> no_adjacent_padding fs"

lemma varint_bytes_hd: "0 < v \<Longrightarrow> v < varint_limit \<Longrightarrow> hd (varint_bytes v @ r) \<noteq> 0"
proof
  assume v: "0 < v" "v < varint_limit" and "hd (varint_bytes v @ r) = 0"
  then obtain xs where "varint_bytes v @ r = 0 # xs"
    by (simp add: varint_bytes_def varint_enc_def)
  then have "dec_varint (varint_bytes v @ r) = Some (0, 1)" by (simp add: dec_varint_def be_val_def)
  with dec_varint_bytes [OF v(2), of r] v(1) show False by simp
qed

lemma frame_code_pos: "\<not> is_padding f \<Longrightarrow> 0 < frame_code f"
  by (cases f) (simp_all add: stream_type_def Let_def is_padding_def)

lemma separated_frames:
  "no_adjacent_padding fs \<Longrightarrow> separated frame_bytes frame_follow fs []"
proof (induction fs)
  case (Cons f fs)
  have "frame_follow f (concat (map frame_bytes fs))"
  proof (cases "is_padding f \<and> fs \<noteq> []")
    case True
    then obtain g gs where g: "fs = g # gs" "\<not> is_padding g"
      using Cons.prems by (cases fs) auto
    then have "hd (concat (map frame_bytes fs)) \<noteq> 0"
      using varint_bytes_hd [OF frame_code_pos [OF g(2)] frame_code_limit] by (simp add: frame_bytes_def)
    then show ?thesis by (simp add: frame_follow_def split: frame.splits)
  next
    case False
    then show ?thesis by (auto simp: frame_follow_def is_padding_def split: frame.splits)
  qed
  with Cons show ?case by simp
qed simp

lemma norm_flags [simp]: "ack_eliciting (norm_frame f) = ack_eliciting f" "probing (norm_frame f) = probing f"
  by (cases f; simp add: ack_eliciting_def probing_def)+

lemma recv_payload_frames:
  assumes "\<forall>f \<in> set fs. valid_frame f \<and> frame_allowed pkt f" "separated frame_bytes frame_follow fs []"
    and "as_ref b = concat (map frame_bytes fs)"
  shows "recv_payload process pkt st a p b = deliver process (map norm_frame fs) st a p"
  using assms
proof (induction fs arbitrary: b st a p)
  case Nil
  then show ?case by (simp add: recv_payload.simps cap_as_ref)
next
  case (Cons f fs)
  have dec: "Frame_from_bytes pkt b = Inr (norm_frame f, adv (length (frame_bytes f)) b)"
    using readsD [OF fr.dec_enc, of f pkt b "concat (map frame_bytes fs)"] Cons.prems by simp
  have "frame_bytes f \<noteq> []" using Cons.prems(1) by (intro fr.enc_nonempty [of f pkt]) auto
  then have "cap b > 0" using Cons.prems(3) by (simp add: cap_as_ref)
  moreover have "recv_payload process pkt st' a' p' (adv (length (frame_bytes f)) b) =
      deliver process (map norm_frame fs) st' a' p'" for st' a' p'
    using Cons.IH Cons.prems by simp
  ultimately show ?case
    using dec by (subst recv_payload.simps) (cases "process (norm_frame f) st"; auto split: option.splits)
qed

section \<open>Properties\<close>

text \<open>C2: A packet payload made of representable frames, no padding run next to another, is
  taken apart exactly: the handler receives the frames in order until it reports an error, and
  the packet counts as ack-eliciting (as probing) precisely when some (when every) frame handed
  over is. The loop terminates on every payload.\<close>

theorem recv_payload_correct:
  assumes "\<forall>f \<in> set fs. valid_frame f \<and> frame_allowed pkt f" "no_adjacent_padding fs"
  shows "recv_payload process pkt st False True (with_slice (concat (map frame_bytes fs))) =
    deliver process (map norm_frame fs) st False True"
  by (rule recv_payload_frames [OF assms(1) separated_frames [OF assms(2)]]) simp

theorem recv_payload_correct_witness:
  "recv_payload (\<lambda>f st. Inr (st @ [f], None)) Short [] False True
     (with_slice (concat (map frame_bytes [Ping None, MaxData 5, Padding 3]))) =
   Inr ([Ping None, MaxData 5, Padding 3], True, False, None)"
  using recv_payload_correct [of "[Ping None, MaxData 5, Padding 3]" Short "\<lambda>f st. Inr (st @ [f], None)" "[]"]
  by (simp add: frame_allowed_def any_pkt_frame_def zero_rtt_forbidden_def handshake_frame_def
      is_padding_def ack_eliciting_def probing_def)

end
