(* ===== verification/Fc_Ack.thy ===== *)
theory Fc_Ack
  imports Ranges "HOL-Library.Multiset"
begin

text \<open>
  Aggregation of acknowledgments at the flexicast source (\<open>flexicast/ack.rs\<close>): the counters
  of the receivers that acknowledged each packet of the flexicast flow, and the stream pieces
  whose retransmission is delegated to the unicast connections. A \<open>HashMap\<close> is an ordered
  association list here: its iteration order only shows in \<open>acked_stream_off\<close>, whose result
  is read as a set of pairs.
\<close>

section \<open>State\<close>

text \<open>\<open>McStream\<close>: offset of a piece, its length and the number of receivers that still have to
  acknowledge it.\<close>

type_synonym mc_stream = "(nat, nat \<times> nat) btree_map"

record fc_delegated_stream =
  ds_stream_id :: nat
  ds_offset :: nat
  ds_payload :: "8 word list"
  ds_pn :: nat
  ds_fin :: bool

record mc_ack =
  nb_recv :: nat
  acked :: "(nat, nat) btree_map"
  acked_full :: "range_set option"
  stream_map :: "(nat, mc_stream) btree_map"
  stream_full :: "(nat, range_set) btree_map"
  ack_largest_pn :: "nat option"

definition McAck_new :: mc_ack where
  "McAck_new = \<lparr>nb_recv = 0, acked = [], acked_full = None, stream_map = [], stream_full = [],
     ack_largest_pn = None\<rparr>"

section \<open>Packets of the flexicast flow\<close>

definition full_ack :: "mc_ack \<Rightarrow> range_set option \<times> mc_ack" where
  "full_ack m = (acked_full m, m\<lparr>acked_full := None\<rparr>)"

text \<open>Without a bound, \<open>pop_last\<close> gives the last entry and the code keeps its value.\<close>

definition drain_packets :: "nat option \<Rightarrow> mc_ack \<Rightarrow> mc_ack result" where
  "drain_packets largest m = (case largest of
     Some pn \<Rightarrow> try_bind (checked_sub pn 1) (\<lambda>p.
       Inr (m\<lparr>acked := bt_from pn (acked m), ack_largest_pn := Some p\<rparr>))
   | None \<Rightarrow> Inr (m\<lparr>acked := [], ack_largest_pn := map_option snd (bt_last (acked m))\<rparr>))"

definition get_largest_pn :: "mc_ack \<Rightarrow> nat option" where
  "get_largest_pn m = ack_largest_pn m"

text \<open>The loop of \<open>new_recv\<close>: it stops at the first packet number from \<open>first_pn\<close> on.\<close>

fun bump_below :: "nat \<Rightarrow> (nat, nat) btree_map \<Rightarrow> (nat, nat) btree_map result" where
  "bump_below first_pn [] = Inr []"
| "bump_below first_pn ((pn, nb) # m) =
     (if first_pn \<le> pn then Inr ((pn, nb) # m)
      else try_bind (checked_add nb 1) (\<lambda>nb'.
        try_bind (bump_below first_pn m) (\<lambda>m'. Inr ((pn, nb') # m'))))"

definition new_recv :: "nat \<Rightarrow> mc_ack \<Rightarrow> mc_ack result" where
  "new_recv first_pn m =
     try_bind (bump_below first_pn (acked m)) (\<lambda>acked'.
     try_bind (checked_add (nb_recv m) 1) (\<lambda>n.
       Inr (m\<lparr>acked := acked', nb_recv := n\<rparr>)))"

definition remove_recv :: "mc_ack \<Rightarrow> mc_ack result" where
  "remove_recv m = try_bind (checked_sub (nb_recv m) 1) (\<lambda>n. Inr (m\<lparr>nb_recv := n\<rparr>))"

text \<open>The body of the inner loop of \<open>on_ack_received\<close>, on the pair of \<open>fully_range\<close> and the
  counters.\<close>

definition ack_one ::
  "nat \<Rightarrow> nat \<Rightarrow> range_set \<times> (nat, nat) btree_map \<Rightarrow> (range_set \<times> (nat, nat) btree_map) result" where
  "ack_one n recv_pn = (\<lambda>(fully_range, acks).
     try_bind (case bt_get acks recv_pn of Some nb \<Rightarrow> checked_add nb 1 | None \<Rightarrow> Inr 1) (\<lambda>new_nb.
       let acks' = bt_insert recv_pn new_nb acks in
       if new_nb = n then
         try_bind (checked_add recv_pn 1) (\<lambda>e.
         try_bind (RangeSet_insert (recv_pn, e) fully_range) (\<lambda>fully_range'.
           Inr (fully_range', bt_remove recv_pn acks')))
       else Inr (fully_range, acks')))"

definition on_ack_received :: "range_set \<Rightarrow> mc_ack \<Rightarrow> mc_ack result" where
  "on_ack_received ranges m =
     try_bind (fold_res (\<lambda>(s, e). fold_res (ack_one (nb_recv m)) [s..<e]) (RangeSet_iter ranges)
        (case acked_full m of Some r \<Rightarrow> r | None \<Rightarrow> RangeSet_default, acked m))
      (\<lambda>(fully_range, acks). Inr (m\<lparr>acked := acks,
         acked_full := (if 0 < RangeSet_len fully_range then Some fully_range else None)\<rparr>))"

section \<open>Delegated streams\<close>

text \<open>One overlapping piece \<open>(offset, e, nb)\<close> of the loop of \<open>delegate\<close>: the stream and the part
  of the new range that is put back on the queue.\<close>

definition delegate_split ::
  "nat \<Rightarrow> nat \<Rightarrow> nat \<Rightarrow> nat \<Rightarrow> nat \<Rightarrow> mc_stream \<Rightarrow> (mc_stream \<times> (nat \<times> nat) list) result" where
  "delegate_split new_off new_end offset e nb stream = (let
     s1 = bt_remove offset stream;
     s2 = (if offset < new_off then bt_insert offset (new_off - offset, nb) s1
           else if new_off < offset then bt_insert new_off (offset - new_off, nb) s1 else s1);
     s3 = (if new_end < e then bt_insert new_end (e - new_end, nb) s2 else s2);
     pushed = (if e < new_end then [(e, new_end - e)] else [])
   in try_bind (checked_add nb 1) (\<lambda>nb'.
      Inr (bt_insert (max offset new_off) (min e new_end - max offset new_off, nb') s3, pushed)))"

fun delegate_for ::
  "nat \<Rightarrow> nat \<Rightarrow> nat list \<Rightarrow> mc_stream \<Rightarrow> (mc_stream \<times> (nat \<times> nat) list) result" where
  "delegate_for new_off new_len [] stream = Inr (stream, [])"
| "delegate_for new_off new_len (offset # offsets) stream =
     try_bind (checked_add new_off new_len) (\<lambda>new_end.
       if new_end \<le> offset then Inr (stream, [])
       else (case bt_get stream offset of
           None \<Rightarrow> panic
         | Some (len, nb) \<Rightarrow> try_bind (checked_add offset len) (\<lambda>e.
             if e \<le> new_off then delegate_for new_off new_len offsets stream
             else try_bind (delegate_split new_off new_end offset e nb stream) (\<lambda>(stream', pushed).
               try_bind (delegate_for new_off new_len offsets stream') (\<lambda>(stream'', rest).
                 Inr (stream'', pushed @ rest))))))"

text \<open>The remainders that are pushed are shorter than the range that is processed.\<close>

lemma delegate_for_pushed:
  "delegate_for new_off new_len offsets stream = Inr (stream', pushed) \<Longrightarrow>
   \<forall>p \<in> set pushed. snd p < new_len"
proof (induction new_off new_len offsets stream arbitrary: stream' pushed rule: delegate_for.induct)
  case (2 new_off new_len offset offsets stream)
  then show ?case
    by (auto simp: checked_add_eq_Inr delegate_split_def Let_def split: if_splits option.splits
        prod.splits) force+
qed simp

lemma queue_decreases:
  assumes "\<forall>p \<in> set pushed. snd p < l"
  shows "(image_mset snd (mset q) + image_mset snd (mset pushed),
    add_mset l (image_mset snd (mset q))) \<in> mult less_than"
  using one_step_implies_mult [of "{#l#}" "image_mset snd (mset pushed)" less_than
      "image_mset snd (mset q)"] assms by simp

text \<open>The \<open>while\<close> loop of \<open>delegate\<close> over its queue of ranges.\<close>

function delegate_while :: "(nat \<times> nat) list \<Rightarrow> mc_stream \<Rightarrow> mc_stream result" where
  "delegate_while [] stream = Inr stream"
| "delegate_while ((new_off, new_len) # tmp_offs) stream =
     (case delegate_for new_off new_len (map fst stream) stream of
        Inl f \<Rightarrow> Inl f
      | Inr (stream', pushed) \<Rightarrow> delegate_while (tmp_offs @ pushed)
          (if new_off \<noteq> new_len \<and> \<not> bt_contains stream' new_off
           then bt_insert new_off (new_len, 1) stream' else stream'))"
  by pat_completeness auto
termination
proof (relation "inv_image (mult less_than) (\<lambda>(q, _). mset (map snd q))")
  show "wf (inv_image (mult less_than) (\<lambda>(q, s :: mc_stream). mset (map snd q)))"
    by (intro wf_inv_image wf_mult wf_less_than)
qed (auto intro!: queue_decreases dest: delegate_for_pushed)

definition delegate :: "nat \<Rightarrow> nat \<Rightarrow> nat \<Rightarrow> mc_ack \<Rightarrow> mc_ack result" where
  "delegate stream_id off len m =
     (if len = 0 then Inr m
      else try_bind (delegate_while [(off, len)]
          (case bt_get (stream_map m) stream_id of Some s \<Rightarrow> s | None \<Rightarrow> []))
        (\<lambda>stream. Inr (m\<lparr>stream_map := bt_insert stream_id stream (stream_map m)\<rparr>)))"

text \<open>Acknowledgment of a delegated range. The loop state is the stream and the fully
  acknowledged ranges; the last component tells whether the code left the whole function with
  \<open>return\<close>.\<close>

type_synonym stream_ack_state = "mc_stream \<times> (nat, range_set) btree_map"

definition stream_ack_split ::
  "nat \<Rightarrow> nat \<Rightarrow> nat \<Rightarrow> nat \<Rightarrow> nat \<Rightarrow> nat \<Rightarrow> stream_ack_state \<Rightarrow>
     (stream_ack_state \<times> (nat \<times> nat) list) result" where
  "stream_ack_split stream_id ack_off ack_end offset e nb = (\<lambda>(stream, full). let
     start_overlap = max offset ack_off;
     end_overlap = min e ack_end;
     s1 = bt_remove offset stream;
     s2 = (if offset < ack_off then bt_insert offset (ack_off - offset, nb) s1 else s1);
     s3 = (if ack_end < e then bt_insert ack_end (e - ack_end, nb) s2 else s2);
     pushed = (if e < ack_end then [(e, ack_end - e)] else []);
     new_nb = nb - 1
   in if 0 < new_nb then
        Inr ((bt_insert start_overlap (end_overlap - start_overlap, new_nb) s3, full), pushed)
      else try_bind (RangeSet_insert (start_overlap, end_overlap)
          (case bt_get full stream_id of Some r \<Rightarrow> r | None \<Rightarrow> RangeSet_default)) (\<lambda>range_ack.
        Inr ((bt_remove start_overlap s3, bt_insert stream_id range_ack full), pushed)))"

fun stream_ack_for ::
  "nat \<Rightarrow> nat \<Rightarrow> nat \<Rightarrow> nat list \<Rightarrow> stream_ack_state \<Rightarrow>
     (stream_ack_state \<times> (nat \<times> nat) list \<times> bool) result" where
  "stream_ack_for stream_id ack_off ack_len [] st = Inr (st, [], False)"
| "stream_ack_for stream_id ack_off ack_len (offset # offsets) st =
     try_bind (checked_add ack_off ack_len) (\<lambda>ack_end.
       if ack_end \<le> offset then Inr (st, [], True)
       else (case bt_get (fst st) offset of
           None \<Rightarrow> panic
         | Some (len, nb) \<Rightarrow> try_bind (checked_add offset len) (\<lambda>e.
             if e \<le> ack_off then stream_ack_for stream_id ack_off ack_len offsets st
             else try_bind (stream_ack_split stream_id ack_off ack_end offset e nb st)
               (\<lambda>(st', pushed).
                 try_bind (stream_ack_for stream_id ack_off ack_len offsets st')
                   (\<lambda>(st'', rest, returned). Inr (st'', pushed @ rest, returned))))))"

lemma stream_ack_split_pushed:
  "stream_ack_split stream_id ack_off ack_end offset e nb st = Inr (st', pushed) \<Longrightarrow>
   pushed = (if e < ack_end then [(e, ack_end - e)] else [])"
  by (cases st) (auto simp: stream_ack_split_def Let_def split: if_splits)

lemma stream_ack_for_pushed:
  "stream_ack_for stream_id ack_off ack_len offsets st = Inr (st', pushed, returned) \<Longrightarrow>
   \<forall>p \<in> set pushed. snd p < ack_len"
proof (induction stream_id ack_off ack_len offsets st arbitrary: st' pushed returned
    rule: stream_ack_for.induct)
  case (2 stream_id ack_off ack_len offset offsets st)
  show ?case
  proof (cases "ack_off + ack_len \<le> offset \<or> bt_get (fst st) offset = None")
    case True
    with 2(3) show ?thesis by (auto simp: checked_add_eq_Inr split: if_splits)
  next
    case False
    then obtain l nb where get: "bt_get (fst st) offset = Some (l, nb)" by force
    show ?thesis
    proof (cases "offset + l \<le> ack_off")
      case True
      with 2(1) 2(3) get False show ?thesis by (auto simp: checked_add_eq_Inr)
    next
      case after: False
      with 2(3) get False obtain st1 p1 st2 p2 where
        split: "stream_ack_split stream_id ack_off (ack_off + ack_len) offset (offset + l) nb st = Inr (st1, p1)"
        and rest: "stream_ack_for stream_id ack_off ack_len offsets st1 = Inr (st2, p2, returned)"
        and pushed: "pushed = p1 @ p2"
        by (auto simp: checked_add_eq_Inr)
      have "ack_off + ack_len < u64_size" "offset + l < u64_size"
        using 2(3) get False by (auto simp: checked_add_eq_Inr)
      with 2(2) False get after split rest have "\<forall>p \<in> set p2. snd p < ack_len" by simp
      moreover have "\<forall>p \<in> set p1. snd p < ack_len"
        using stream_ack_split_pushed [OF split] after by (auto split: if_splits)
      ultimately show ?thesis using pushed by auto
    qed
  qed
qed simp

function stream_ack_while ::
  "nat \<Rightarrow> (nat \<times> nat) list \<Rightarrow> stream_ack_state \<Rightarrow> (stream_ack_state \<times> bool) result" where
  "stream_ack_while stream_id [] st = Inr (st, False)"
| "stream_ack_while stream_id ((ack_off, ack_len) # tmp_offs) st =
     (case stream_ack_for stream_id ack_off ack_len (map fst (fst st)) st of
        Inl f \<Rightarrow> Inl f
      | Inr (st', pushed, returned) \<Rightarrow>
          if returned then Inr (st', True)
          else stream_ack_while stream_id (tmp_offs @ pushed) st')"
  by pat_completeness auto
termination
proof (relation "inv_image (mult less_than) (\<lambda>(_, q, _). mset (map snd q))")
  show "wf (inv_image (mult less_than) (\<lambda>(i :: nat, q, s :: stream_ack_state). mset (map snd q)))"
    by (intro wf_inv_image wf_mult wf_less_than)
qed (auto intro!: queue_decreases dest: stream_ack_for_pushed)

definition on_stream_ack_received :: "nat \<Rightarrow> nat \<Rightarrow> nat \<Rightarrow> mc_ack \<Rightarrow> mc_ack result" where
  "on_stream_ack_received stream_id off len m =
     (if len = 0 then Inr m
      else (case bt_get (stream_map m) stream_id of
          None \<Rightarrow> Inr m
        | Some stream \<Rightarrow> try_bind (stream_ack_while stream_id [(off, len)] (stream, stream_full m))
            (\<lambda>((stream', full'), returned). Inr (m\<lparr>stream_full := full',
               stream_map := (if \<not> returned \<and> stream' = [] then bt_remove stream_id (stream_map m)
                 else bt_insert stream_id stream' (stream_map m))\<rparr>))))"

definition acked_stream_off :: "mc_ack \<Rightarrow> (nat \<times> range_set) list option \<times> mc_ack" where
  "acked_stream_off m =
     (if stream_full m = [] then (None, m) else (Some (stream_full m), m\<lparr>stream_full := []\<rparr>))"

section \<open>Packet counters\<close>

text \<open>The abstract view of the counters: how many receivers acknowledged each packet, of \<open>n\<close>
  receivers.\<close>

definition ack_count :: "nat \<Rightarrow> range_set \<times> (nat, nat) btree_map \<Rightarrow> nat \<Rightarrow> nat" where
  "ack_count n st pn = (case bt_get (snd st) pn of
     Some c \<Rightarrow> c | None \<Rightarrow> if pn \<in> rs_covered (fst st) then n else 0)"

definition ack_inv :: "nat \<Rightarrow> range_set \<times> (nat, nat) btree_map \<Rightarrow> bool" where
  "ack_inv n st \<longleftrightarrow> n < u64_size \<and> (n = 0 \<longrightarrow> rs_covered (fst st) = {}) \<and> bt_wf (snd st) \<and> rs_unbounded (fst st) \<and>
     (\<forall>k v. bt_get (snd st) k = Some v \<longrightarrow> 0 < v \<and> v < n \<and> k \<notin> rs_covered (fst st))"

lemma fold_res_concat:
  "fold_res (\<lambda>x. fold_res f (g x)) xs s = fold_res f (concat (map g xs)) s"
  by (induction xs arbitrary: s) (auto simp: fold_res_append try_bind_def split: sum.splits)

lemma ack_one_partial:
  assumes inv: "ack_inv n (full, acks)" and count: "Suc (ack_count n (full, acks) pn) < n"
  shows "ack_one n pn (full, acks) =
    Inr (full, bt_insert pn (Suc (ack_count n (full, acks) pn)) acks)"
proof (cases "bt_get acks pn")
  case None
  with count have "pn \<notin> rs_covered full" by (auto simp: ack_count_def)
  with None count show ?thesis by (simp add: ack_one_def ack_count_def)
next
  case (Some c)
  moreover have "c + 1 < u64_size" using inv count Some by (simp add: ack_inv_def ack_count_def)
  ultimately show ?thesis using count
    by (simp only: ack_one_def ack_count_def prod.case snd_conv option.case checked_add_Inr
        try_bind_Inr Let_def) simp
qed

lemma ack_one_complete:
  assumes inv: "ack_inv n (full, acks)" and count: "Suc (ack_count n (full, acks) pn) = n"
    and pn: "pn < usize_max"
  shows "\<exists>full'. ack_one n pn (full, acks) = Inr (full', bt_remove pn acks) \<and> rs_unbounded full' \<and>
    rs_covered full' = insert pn (rs_covered full)"
proof -
  have wf: "bt_wf acks" "rs_unbounded full" using inv by (simp_all add: ack_inv_def)
  have e: "checked_add pn 1 = Inr (pn + 1)" using pn by (intro checked_add_Inr) simp
  obtain full' where full': "RangeSet_insert (pn, pn + 1) full = Inr full'" "rs_unbounded full'"
    "rs_covered full' = {pn..<pn + 1} \<union> rs_covered full"
    using rs_unbounded_insert [OF wf(2), of pn "pn + 1"] pn by auto
  have rem: "bt_remove pn (bt_insert pn n acks) = bt_remove pn acks"
    by (rule bt.map_ext) (auto simp: wf bt_wf_insert bt_wf_remove bt_get_remove bt_get_insert)
  have "ack_one n pn (full, acks) = Inr (full', bt_remove pn acks)"
  proof (cases "bt_get acks pn")
    case None
    with inv count have "n = 1" by (auto simp: ack_count_def ack_inv_def split: if_splits)
    with None e full' rem show ?thesis by (simp add: ack_one_def Let_def)
  next
    case (Some c)
    then have "c + 1 = n" using count by (simp add: ack_count_def)
    moreover have "checked_add c 1 = Inr (c + 1)"
      using inv \<open>c + 1 = n\<close> by (intro checked_add_Inr) (simp add: ack_inv_def)
    ultimately show ?thesis using Some e full' rem by (simp add: ack_one_def Let_def)
  qed
  moreover have "rs_covered full' = insert pn (rs_covered full)" using full'(3) by simp
  ultimately show ?thesis using full'(2) by blast
qed

lemma ack_one_step:
  assumes inv: "ack_inv n st" and count: "ack_count n st pn < n" and pn: "pn < usize_max"
  shows "\<exists>st'. ack_one n pn st = Inr st' \<and> ack_inv n st' \<and>
    ack_count n st' = (ack_count n st)(pn := Suc (ack_count n st pn))"
proof -
  obtain full acks where st: "st = (full, acks)" by (cases st)
  have wf: "bt_wf acks" using inv by (simp add: ack_inv_def st)
  show ?thesis
  proof (cases "Suc (ack_count n st pn) = n")
    case True
    obtain full' where full': "ack_one n pn st = Inr (full', bt_remove pn acks)" "rs_unbounded full'"
      "rs_covered full' = insert pn (rs_covered full)"
      using ack_one_complete [of n full acks pn] inv True pn st by auto
    moreover have "ack_inv n (full', bt_remove pn acks)"
      using inv full' wf count unfolding st ack_inv_def by (auto simp: bt_get_remove bt_wf_remove split: if_splits)
    moreover have "ack_count n (full', bt_remove pn acks) = (ack_count n st)(pn := n)"
      using full'(3) wf by (auto simp: st ack_count_def bt_get_remove split: option.splits)
    ultimately show ?thesis using True by auto
  next
    case False
    then have lt: "Suc (ack_count n st pn) < n" using count by simp
    let ?acks = "bt_insert pn (Suc (ack_count n st pn)) acks"
    have "ack_one n pn st = Inr (full, ?acks)" using ack_one_partial [of n full acks pn] inv lt st by simp
    moreover have "pn \<notin> rs_covered full"
      using inv count by (auto simp: st ack_count_def ack_inv_def split: option.splits if_splits)
    with inv lt wf have "ack_inv n (full, ?acks)"
      unfolding st ack_inv_def by (auto simp: bt_get_insert bt_wf_insert split: if_splits)
    moreover have "ack_count n (full, ?acks) = (ack_count n st)(pn := Suc (ack_count n st pn))"
      by (auto simp: st ack_count_def bt_get_insert split: option.splits)
    ultimately show ?thesis by blast
  qed
qed

lemma ack_list:
  assumes "ack_inv n st" "distinct pns" "\<And>pn. pn \<in> set pns \<Longrightarrow> ack_count n st pn < n \<and> pn < usize_max"
  shows "\<exists>st'. fold_res (ack_one n) pns st = Inr st' \<and> ack_inv n st' \<and>
    (\<forall>pn. ack_count n st' pn = ack_count n st pn + (if pn \<in> set pns then 1 else 0))"
  using assms
proof (induction pns arbitrary: st)
  case (Cons pn pns)
  obtain st1 where st1: "ack_one n pn st = Inr st1" "ack_inv n st1"
    "ack_count n st1 = (ack_count n st)(pn := Suc (ack_count n st pn))"
    using ack_one_step [of n st pn] Cons.prems by auto
  with Cons.IH [of st1] Cons.prems obtain st2 where "fold_res (ack_one n) pns st1 = Inr st2"
    "ack_inv n st2" "\<forall>x. ack_count n st2 x = ack_count n st1 x + (if x \<in> set pns then 1 else 0)"
    by force
  with st1 Cons.prems show ?case by auto
qed simp

text \<open>The same view of the whole structure.\<close>

definition ack_state :: "mc_ack \<Rightarrow> range_set \<times> (nat, nat) btree_map" where
  "ack_state m = (case acked_full m of Some r \<Rightarrow> r | None \<Rightarrow> RangeSet_default, acked m)"

definition mc_ack_ok :: "mc_ack \<Rightarrow> bool" where
  "mc_ack_ok m \<longleftrightarrow> ack_inv (nb_recv m) (ack_state m)"

definition mc_count :: "mc_ack \<Rightarrow> nat \<Rightarrow> nat" where
  "mc_count m = ack_count (nb_recv m) (ack_state m)"

definition full_set :: "mc_ack \<Rightarrow> nat set" where
  "full_set m = rs_covered (fst (ack_state m))"

lemma RangeSet_len_0: "RangeSet_len r = 0 \<Longrightarrow> rs_covered r = {}"
  by (cases r) (simp_all add: rs_covered_def)

lemma rs_covered_default [simp]: "rs_covered RangeSet_default = {}"
  by (rule RangeSet_len_0) (simp add: RangeSet_default_def)

lemma mc_count_le: "mc_ack_ok m \<Longrightarrow> mc_count m pn \<le> nb_recv m"
  by (fastforce simp: mc_ack_ok_def mc_count_def ack_inv_def ack_count_def split: option.splits)

lemma full_set_iff:
  "mc_ack_ok m \<Longrightarrow> 0 < nb_recv m \<Longrightarrow> pn \<in> full_set m \<longleftrightarrow> mc_count m pn = nb_recv m"
  by (auto simp: mc_ack_ok_def mc_count_def ack_inv_def ack_count_def full_set_def
      split: option.splits)

lemma full_set_none: "mc_ack_ok m \<Longrightarrow> nb_recv m = 0 \<Longrightarrow> full_set m = {}"
  by (simp add: mc_ack_ok_def ack_inv_def full_set_def)

lemma on_ack_received_step:
  assumes ok: "mc_ack_ok m" and r: "rs_ok r" "rs_covered r \<subseteq> {..<usize_max}"
    and new: "\<forall>pn \<in> rs_covered r. mc_count m pn < nb_recv m"
  shows "\<exists>m'. on_ack_received r m = Inr m' \<and> mc_ack_ok m' \<and> nb_recv m' = nb_recv m \<and>
    (\<forall>pn. mc_count m' pn = mc_count m pn + (if pn \<in> rs_covered r then 1 else 0)) \<and>
    stream_map m' = stream_map m \<and> stream_full m' = stream_full m"
proof -
  let ?n = "nb_recv m" and ?pns = "concat (map (\<lambda>(s, e). [s..<e]) (RangeSet_iter r))"
  have "wf_ranges (RangeSet_iter r)" using r(1) by (simp add: rs_ok_def)
  then have pns: "distinct ?pns" "set ?pns = rs_covered r"
    using flatten_ranges strict_sorted_iff by (auto simp only: rs_covered_def)
  obtain full acks where st: "fold_res (ack_one ?n) ?pns (ack_state m) = Inr (full, acks)"
    and inv: "ack_inv ?n (full, acks)" and count: "\<forall>pn. ack_count ?n (full, acks) pn =
      ack_count ?n (ack_state m) pn + (if pn \<in> set ?pns then 1 else 0)"
    using ack_list [OF ok [unfolded mc_ack_ok_def] pns(1)] new r(2) pns(2)
    unfolding mc_count_def by fastforce
  let ?m = "m\<lparr>acked := acks, acked_full := (if 0 < RangeSet_len full then Some full else None)\<rparr>"
  have run: "on_ack_received r m = Inr ?m"
    using st unfolding on_ack_received_def ack_state_def [symmetric]
    by (simp add: case_prod_unfold fold_res_concat)
  have state: "ack_state ?m = (if 0 < RangeSet_len full then full else RangeSet_default, acks)"
    by (simp add: ack_state_def)
  have cov: "rs_covered (fst (ack_state ?m)) = rs_covered full" "snd (ack_state ?m) = acks"
    using RangeSet_len_0 [of full] by (auto simp: state)
  have "mc_ack_ok ?m" using inv unfolding mc_ack_ok_def ack_inv_def cov by (simp add: state)
  moreover have "mc_count ?m = ack_count ?n (full, acks)"
    unfolding mc_count_def ack_count_def cov by (intro ext) (simp split: option.split)
  moreover have "\<forall>pn. ack_count ?n (full, acks) pn = mc_count m pn + (if pn \<in> rs_covered r then 1 else 0)"
    using count unfolding pns(2) mc_count_def .
  ultimately show ?thesis using run by auto
qed

lemma bump_below_get:
  assumes "bt_wf acks" "\<forall>k v. bt_get acks k = Some v \<longrightarrow> v + 1 < u64_size"
  shows "\<exists>acks'. bump_below first_pn acks = Inr acks' \<and> map fst acks' = map fst acks \<and>
    (\<forall>k. bt_get acks' k = map_option (\<lambda>v. if k < first_pn then v + 1 else v) (bt_get acks k))"
  using assms
proof (induction first_pn acks rule: bump_below.induct)
  case (2 first_pn pn nb acks)
  have tl: "\<forall>k v. bt_get acks k = Some v \<longrightarrow> k \<noteq> pn"
    using 2(2) bt_wf_Cons bt_get_Some_iff by force
  show ?case
  proof (cases "first_pn \<le> pn")
    case True
    then have "\<forall>k \<in> fst ` set acks. \<not> k < first_pn" using 2(2) by (auto simp: bt_wf_Cons)
    then have "\<forall>k. bt_get acks k = map_option (\<lambda>v. if k < first_pn then v + 1 else v) (bt_get acks k)"
      using bt_get_None_iff [of acks] by (metis (mono_tags) option.map_ident option.map_cong0 option.simps(8))
    with True show ?thesis by auto
  next
    case False
    have "nb + 1 < u64_size" using 2(3) bt_get.simps(2) [of pn nb acks pn] by (simp only: refl if_True)
    moreover have "\<forall>k v. bt_get acks k = Some v \<longrightarrow> v + 1 < u64_size"
      using 2(3) tl by (metis bt_get.simps(2))
    moreover have "bt_wf acks" using 2(2) by (rule bt_wf_ConsD)
    ultimately show ?thesis using 2(1) [OF False] False by auto
  qed
qed simp

lemma new_recv_step:
  assumes ok: "mc_ack_ok m" and room: "nb_recv m + 1 < u64_size"
    and new: "\<forall>pn \<in> full_set m. pn < first_pn"
  shows "\<exists>m'. new_recv first_pn m = Inr m' \<and> mc_ack_ok m' \<and> nb_recv m' = nb_recv m + 1 \<and>
    (0 < nb_recv m \<longrightarrow> (\<forall>pn. mc_count m' pn =
       (if 0 < mc_count m pn \<and> pn < first_pn then mc_count m pn + 1 else mc_count m pn))) \<and> full_set m' = full_set m \<and> (nb_recv m = 0 \<longrightarrow> acked m' = [])"
proof -
  let ?n = "nb_recv m"
  have inv: "ack_inv ?n (ack_state m)" and acks: "snd (ack_state m) = acked m"
    using ok by (simp_all add: mc_ack_ok_def ack_state_def)
  have wf: "bt_wf (acked m)" and vals: "\<forall>k v. bt_get (acked m) k = Some v \<longrightarrow> 0 < v \<and> v < ?n \<and> k \<notin> full_set m"
    using inv unfolding ack_inv_def acks full_set_def by blast+
  have "\<forall>k v. bt_get (acked m) k = Some v \<longrightarrow> v + 1 < u64_size" using vals room by fastforce
  then obtain acks' where acks': "bump_below first_pn (acked m) = Inr acks'"
    "map fst acks' = map fst (acked m)"
    "\<forall>k. bt_get acks' k = map_option (\<lambda>v. if k < first_pn then v + 1 else v) (bt_get (acked m) k)"
    using bump_below_get [OF wf] by blast
  let ?m = "m\<lparr>acked := acks', nb_recv := ?n + 1\<rparr>"
  have run: "new_recv first_pn m = Inr ?m" using acks'(1) room by (simp add: new_recv_def)
  have state: "ack_state ?m = (fst (ack_state m), acks')" by (simp add: ack_state_def)
  have ok': "mc_ack_ok ?m"
    using inv acks'(2,3) vals room wf unfolding mc_ack_ok_def ack_inv_def state
    by (fastforce simp: bt_wf_def full_set_def split: if_splits)
  have "mc_count ?m pn = (if 0 < mc_count m pn \<and> pn < first_pn then mc_count m pn + 1 else mc_count m pn)"
    if "0 < ?n" for pn
  proof -
    have "mc_count ?m pn = (case bt_get acks' pn of Some c \<Rightarrow> c | None \<Rightarrow> if pn \<in> full_set m then ?n + 1 else 0)"
      unfolding mc_count_def ack_count_def state by (simp add: full_set_def split: option.split)
    moreover have "mc_count m pn = (case bt_get (acked m) pn of Some c \<Rightarrow> c | None \<Rightarrow> if pn \<in> full_set m then ?n else 0)"
      unfolding mc_count_def ack_count_def acks by (simp add: full_set_def split: option.split)
    ultimately show ?thesis using acks'(3) vals new that by (auto split: option.splits)
  qed
  moreover have "acks' = []" if "?n = 0"
    using vals that acks'(2) wf bt_get_Some_iff [OF wf] by (cases "acked m") auto
  moreover have "full_set ?m = full_set m" unfolding full_set_def state by simp
  ultimately show ?thesis using run ok' by auto
qed

section \<open>Runs of the packet counters\<close>

text \<open>Every interleaving of the operations on the packet counters, with the history they are
  judged against: \<open>c pn\<close> is the number of present receivers that acknowledged \<open>pn\<close> (a receiver
  that joins counts for the packets that somebody acknowledged before), \<open>d\<close> the packets that
  \<open>full_ack\<close> has reported. A receiver acknowledges a packet once, and joins after the packets
  acknowledged so far, as the comments of the source require.\<close>

inductive mc_ack_run :: "mc_ack \<Rightarrow> (nat \<Rightarrow> nat) \<Rightarrow> nat set \<Rightarrow> bool" where
  run_new: "mc_ack_run McAck_new (\<lambda>_. 0) {}"
| run_join: "mc_ack_run m c d \<Longrightarrow> nb_recv m + 1 < u64_size \<Longrightarrow> \<forall>pn. 0 < c pn \<longrightarrow> pn < first_pn \<Longrightarrow>
    new_recv first_pn m = Inr m' \<Longrightarrow> mc_ack_run m' (\<lambda>pn. if 0 < c pn then c pn + 1 else 0) d"
| run_ack: "mc_ack_run m c d \<Longrightarrow> rs_ok r \<Longrightarrow> rs_covered r \<subseteq> {..<usize_max} \<Longrightarrow>
    \<forall>pn \<in> rs_covered r. c pn < nb_recv m \<Longrightarrow> on_ack_received r m = Inr m' \<Longrightarrow>
    mc_ack_run m' (\<lambda>pn. if pn \<in> rs_covered r then c pn + 1 else c pn) d"
| run_full: "mc_ack_run m c d \<Longrightarrow> full_ack m = (reported, m') \<Longrightarrow>
    mc_ack_run m' c (d \<union> (case reported of Some r \<Rightarrow> rs_covered r | None \<Rightarrow> {}))"

definition run_inv :: "mc_ack \<Rightarrow> (nat \<Rightarrow> nat) \<Rightarrow> nat set \<Rightarrow> bool" where
  "run_inv m c d \<longleftrightarrow> mc_ack_ok m \<and> d \<inter> full_set m = {} \<and> (nb_recv m = 0 \<longrightarrow> d = {}) \<and>
     (\<forall>pn \<in> d. c pn = nb_recv m \<and> mc_count m pn = 0) \<and> (\<forall>pn. pn \<notin> d \<longrightarrow> c pn = mc_count m pn)"

lemma run_inv_new: "run_inv McAck_new (\<lambda>_. 0) {}"
  by (simp add: run_inv_def mc_ack_ok_def ack_inv_def McAck_new_def ack_state_def full_set_def
      mc_count_def ack_count_def)

lemma run_inv_full_pos: "run_inv m c d \<Longrightarrow> pn \<in> full_set m \<Longrightarrow> 0 < c pn \<and> pn \<notin> d"
  using full_set_iff [of m pn] full_set_none [of m] by (cases "nb_recv m = 0") (auto simp: run_inv_def)

lemma run_inv_join:
  assumes inv: "run_inv m c d" and room: "nb_recv m + 1 < u64_size"
    and first: "\<forall>pn. 0 < c pn \<longrightarrow> pn < first_pn"
  shows "\<exists>m'. new_recv first_pn m = Inr m' \<and> run_inv m' (\<lambda>pn. if 0 < c pn then c pn + 1 else 0) d"
proof -
  have "\<forall>pn \<in> full_set m. pn < first_pn" using run_inv_full_pos [OF inv] first by blast
  from new_recv_step [OF inv [unfolded run_inv_def, THEN conjunct1] room this]
  obtain m' where m': "new_recv first_pn m = Inr m'" "mc_ack_ok m'" "nb_recv m' = nb_recv m + 1"
    "0 < nb_recv m \<longrightarrow> (\<forall>pn. mc_count m' pn =
       (if 0 < mc_count m pn \<and> pn < first_pn then mc_count m pn + 1 else mc_count m pn))"
    "full_set m' = full_set m" "nb_recv m = 0 \<longrightarrow> acked m' = []"
    by (elim exE conjE) (rule that)
  show ?thesis
  proof (cases "nb_recv m = 0")
    case True
    with inv m'(5,6) full_set_none [of m] have "full_set m' = {}" "d = {}" "acked m' = []" by (auto simp: run_inv_def)
    then have "mc_count m' = (\<lambda>_. 0)"
      by (intro ext) (simp add: mc_count_def ack_count_def ack_state_def full_set_def)
    moreover have "c = (\<lambda>_. 0)"
      using inv True mc_count_le [of m] by (intro ext) (auto simp: run_inv_def)
    ultimately show ?thesis using m' \<open>d = {}\<close> \<open>full_set m' = {}\<close> by (auto simp: run_inv_def)
  next
    case False
    then have "\<forall>pn. mc_count m' pn = (if pn \<in> d then 0 else if 0 < c pn then c pn + 1 else 0)"
      using m'(4) inv first by (auto simp: run_inv_def)
    with False m'(1-3,5) inv show ?thesis by (auto simp: run_inv_def)
  qed
qed

lemma run_inv_ack:
  assumes inv: "run_inv m c d" and r: "rs_ok r" "rs_covered r \<subseteq> {..<usize_max}"
    and new: "\<forall>pn \<in> rs_covered r. c pn < nb_recv m"
  shows "\<exists>m'. on_ack_received r m = Inr m' \<and>
    run_inv m' (\<lambda>pn. if pn \<in> rs_covered r then c pn + 1 else c pn) d"
proof -
  have disj: "pn \<notin> d" if "pn \<in> rs_covered r" for pn using that new inv by (auto simp: run_inv_def)
  then have "\<forall>pn \<in> rs_covered r. mc_count m pn < nb_recv m" using new inv by (auto simp: run_inv_def)
  then obtain m' where m': "on_ack_received r m = Inr m'" "mc_ack_ok m'" "nb_recv m' = nb_recv m"
    "\<forall>pn. mc_count m' pn = mc_count m pn + (if pn \<in> rs_covered r then 1 else 0)"
    using on_ack_received_step [OF _ r] inv unfolding run_inv_def by metis
  have "pn \<notin> full_set m'" if "pn \<in> d" for pn
    using that inv m'(2,3,4) disj full_set_none [of m'] full_set_iff [of m' pn]
    by (cases "nb_recv m = 0") (auto simp: run_inv_def)
  with m' inv disj show ?thesis by (auto simp: run_inv_def)
qed

lemma run_inv_full:
  assumes inv: "run_inv m c d" and run: "full_ack m = (reported, m')"
  shows "run_inv m' c (d \<union> (case reported of Some r \<Rightarrow> rs_covered r | None \<Rightarrow> {}))"
proof -
  have m': "m' = m\<lparr>acked_full := None\<rparr>" and reported: "reported = acked_full m"
    using run by (auto simp: full_ack_def)
  have full: "(case reported of Some r \<Rightarrow> rs_covered r | None \<Rightarrow> {}) = full_set m"
    by (auto simp: reported full_set_def ack_state_def split: option.splits)
  have state: "ack_state m' = (RangeSet_default, acked m)" by (simp add: m' ack_state_def)
  have ok: "mc_ack_ok m" using inv by (simp add: run_inv_def)
  then have vals: "bt_get (acked m) k = Some v \<Longrightarrow> 0 < v \<and> v < nb_recv m \<and> k \<notin> full_set m" for k v
    unfolding mc_ack_ok_def ack_inv_def full_set_def by (simp add: ack_state_def)
  have n: "nb_recv m' = nb_recv m" by (simp add: m')
  have "mc_ack_ok m'" using ok unfolding mc_ack_ok_def ack_inv_def state n by (auto simp: ack_state_def)
  moreover have count: "mc_count m' pn = (if pn \<in> full_set m then 0 else mc_count m pn)" for pn
    using vals [of pn] unfolding mc_count_def ack_count_def state
    by (auto simp: full_set_def ack_state_def split: option.splits)
  moreover have "full_set m' = {}" by (simp add: full_set_def state)
  moreover have "c pn = nb_recv m" if "pn \<in> full_set m" for pn
    using that inv full_set_iff [OF ok, of pn] full_set_none [OF ok]
    by (cases "nb_recv m = 0") (auto simp: run_inv_def)
  ultimately show ?thesis
    using inv full_set_none [OF ok] unfolding full by (auto simp: run_inv_def n)
qed

lemma mc_ack_run_inv: "mc_ack_run m c d \<Longrightarrow> run_inv m c d"
proof (induction rule: mc_ack_run.induct)
  case run_new
  show ?case by (rule run_inv_new)
next
  case (run_join m c d first_pn m')
  with run_inv_join [of m c d first_pn] show ?case by auto
next
  case (run_ack m c d r m')
  with run_inv_ack [of m c d r] show ?case by auto
next
  case (run_full m c d reported m')
  with run_inv_full show ?case by blast
qed

lemma run_inv_counts:
  assumes inv: "run_inv m c d"
  shows "d \<union> full_set m = {pn. 0 < c pn \<and> c pn = nb_recv m}"
    and "bt_get (acked m) pn = (if 0 < c pn \<and> c pn < nb_recv m then Some (c pn) else None)"
proof -
  have ok: "mc_ack_ok m" using inv by (simp add: run_inv_def)
  show "d \<union> full_set m = {pn. 0 < c pn \<and> c pn = nb_recv m}"
    using inv full_set_iff [OF ok] full_set_none [OF ok]
    by (cases "nb_recv m = 0") (auto simp: run_inv_def)
  have "bt_get (acked m) pn = (if 0 < mc_count m pn \<and> mc_count m pn < nb_recv m
      then Some (mc_count m pn) else None)"
    using ok unfolding mc_ack_ok_def ack_inv_def
    by (auto simp: mc_count_def ack_count_def ack_state_def split: option.splits)
  then show "bt_get (acked m) pn = (if 0 < c pn \<and> c pn < nb_recv m then Some (c pn) else None)"
    using inv by (cases "pn \<in> d") (auto simp: run_inv_def)
qed

lemma run_inv_ack_full:
  assumes inv: "run_inv m c d"
    and r: "rs_ok r" "rs_covered r \<subseteq> {..<usize_max}" "\<forall>pn \<in> rs_covered r. c pn < nb_recv m"
  shows "\<exists>m'. on_ack_received r m = Inr m' \<and>
    full_set m' = full_set m \<union> {pn \<in> rs_covered r. c pn + 1 = nb_recv m}"
proof -
  obtain m' where m': "on_ack_received r m = Inr m'"
    "run_inv m' (\<lambda>pn. if pn \<in> rs_covered r then c pn + 1 else c pn) d"
    using run_inv_ack [OF inv r] by blast
  have n: "nb_recv m' = nb_recv m" using m'(1) by (auto simp: on_ack_received_def)
  have disj: "pn \<in> rs_covered r \<Longrightarrow> pn \<notin> d \<and> c pn \<noteq> nb_recv m" for pn
    using r(3) inv by (auto simp: run_inv_def)
  have "full_set m' = {pn. 0 < (if pn \<in> rs_covered r then c pn + 1 else c pn) \<and>
      (if pn \<in> rs_covered r then c pn + 1 else c pn) = nb_recv m} - d"
    using run_inv_counts(1) [OF m'(2)] m'(2) unfolding n run_inv_def by blast
  also have "\<dots> = {pn. 0 < c pn \<and> c pn = nb_recv m} - d \<union> {pn \<in> rs_covered r. c pn + 1 = nb_recv m}"
    using disj by auto
  also have "{pn. 0 < c pn \<and> c pn = nb_recv m} - d = full_set m"
    using run_inv_counts(1) [OF inv] inv unfolding run_inv_def by blast
  finally show ?thesis using m'(1) by blast
qed

section \<open>Delegated pieces\<close>

text \<open>The pieces of a stream are disjoint and in order; \<open>pending s x\<close> is the number of
  acknowledgments that byte \<open>x\<close> still waits for.\<close>

definition piece_ok :: "nat \<times> nat \<times> nat \<Rightarrow> bool" where
  "piece_ok p \<longleftrightarrow> 0 < fst (snd p) \<and> fst p + fst (snd p) < u64_size \<and> 0 < snd (snd p) \<and>
     snd (snd p) + 1 < u64_size"

definition wf_stream :: "mc_stream \<Rightarrow> bool" where
  "wf_stream s \<longleftrightarrow> sorted_wrt (\<lambda>p q. fst p + fst (snd p) \<le> fst q) s \<and> (\<forall>p \<in> set s. piece_ok p)"

lemma wf_stream_append:
  "wf_stream (xs @ ys) \<longleftrightarrow> wf_stream xs \<and> wf_stream ys \<and>
     (\<forall>p \<in> set xs. \<forall>q \<in> set ys. fst p + fst (snd p) \<le> fst q)"
  by (auto simp: wf_stream_def sorted_wrt_append)

lemma wf_stream_Cons:
  "wf_stream (p # ys) \<longleftrightarrow> piece_ok p \<and> wf_stream ys \<and> (\<forall>q \<in> set ys. fst p + fst (snd p) \<le> fst q)"
  by (auto simp: wf_stream_def)

lemma wf_stream_Nil [simp]: "wf_stream []" by (simp add: wf_stream_def)

fun pending :: "mc_stream \<Rightarrow> nat \<Rightarrow> nat" where
  "pending [] x = 0"
| "pending ((offset, len, nb) # s) x =
     (if offset \<le> x \<and> x < offset + len then nb else pending s x)"

lemma pending_append:
  "wf_stream xs \<Longrightarrow> pending (xs @ ys) x = (if pending xs x = 0 then pending ys x else pending xs x)"
  by (induction xs x rule: pending.induct) (auto simp: wf_stream_Cons piece_ok_def)

lemma pending_outside:
  "\<forall>p \<in> set s. x < fst p \<or> fst p + fst (snd p) \<le> x \<Longrightarrow> pending s x = 0"
  by (induction s x rule: pending.induct) auto

text \<open>A piece of which the range from \<open>off\<close> of length \<open>len\<close> gets the new pieces \<open>mid\<close>.\<close>

definition carve :: "nat \<Rightarrow> nat \<Rightarrow> nat \<Rightarrow> nat \<Rightarrow> nat \<Rightarrow> mc_stream \<Rightarrow> mc_stream" where
  "carve offset l nb off len mid = (if offset < off then [(offset, off - offset, nb)] else []) @ mid @
     (if off + len < offset + l then [(off + len, offset + l - (off + len), nb)] else [])"

definition fits :: "mc_stream \<Rightarrow> nat \<Rightarrow> nat \<Rightarrow> nat \<Rightarrow> mc_stream \<Rightarrow> nat \<Rightarrow> nat \<Rightarrow> bool" where
  "fits xs offset l nb ys off len \<longleftrightarrow> wf_stream (xs @ (offset, l, nb) # ys) \<and> 0 < len \<and>
     offset \<le> off \<and> off + len \<le> offset + l"

lemma fits_order:
  assumes "fits xs offset l nb ys off len"
  shows "\<And>p. p \<in> set xs \<Longrightarrow> fst p < offset \<and> fst p + fst (snd p) \<le> offset"
    and "\<And>p. p \<in> set ys \<Longrightarrow> offset + l \<le> fst p"
    and "0 < len" "offset \<le> off" "off + len \<le> offset + l"
    and "offset + l < u64_size" "nb + 1 < u64_size" "0 < nb" "wf_stream xs" "wf_stream ys"
proof -
  have wf: "wf_stream xs" "wf_stream ys" "piece_ok (offset, l, nb)"
    and xs: "\<forall>p \<in> set xs. fst p + fst (snd p) \<le> offset" and ys: "\<forall>p \<in> set ys. offset + l \<le> fst p"
    and len: "0 < len" "offset \<le> off" "off + len \<le> offset + l"
    using assms by (auto simp: fits_def wf_stream_append wf_stream_Cons)
  show "p \<in> set xs \<Longrightarrow> fst p < offset \<and> fst p + fst (snd p) \<le> offset" for p
    using wf(1) xs by (fastforce simp: wf_stream_def piece_ok_def)
  show "p \<in> set ys \<Longrightarrow> offset + l \<le> fst p" for p using ys by blast
  show "offset + l < u64_size" "nb + 1 < u64_size" "0 < nb" using wf(3) by (simp_all add: piece_ok_def)
  show "0 < len" "offset \<le> off" "off + len \<le> offset + l" "wf_stream xs" "wf_stream ys" by fact+
qed

lemma wf_stream_bt_wf: "wf_stream s \<Longrightarrow> bt_wf s"
proof (induction s)
  case (Cons p s)
  then show ?case by (cases p) (fastforce simp: bt_wf_Cons wf_stream_Cons piece_ok_def)
qed simp

lemma pending_carve:
  assumes f: "fits xs offset l nb ys off len" and mid: "mid = [] \<or> mid = [(off, len, nb')] \<and> 0 < nb'"
  shows "pending (xs @ carve offset l nb off len mid @ ys) x =
    (if off \<le> x \<and> x < off + len then (if mid = [] then 0 else nb')
     else pending (xs @ (offset, l, nb) # ys) x)"
proof -
  note o = fits_order [OF f]
  have low: "pending xs x = 0" if "offset \<le> x"
    by (rule pending_outside) (use that o(1) in fastforce)
  have high: "pending ys x = 0" if "x < offset + l"
    by (rule pending_outside) (use that o(2) in fastforce)
  show ?thesis
    using low high mid o(3,4,5,8) by (auto simp: pending_append [OF o(9)] carve_def)
qed

lemma wf_carve:
  assumes f: "fits xs offset l nb ys off len"
    and mid: "mid = [] \<or> mid = [(off, len, nb')] \<and> 0 < nb' \<and> nb' + 1 < u64_size"
  shows "wf_stream (xs @ carve offset l nb off len mid @ ys)"
proof -
  note o = fits_order [OF f]
  have "wf_stream (carve offset l nb off len mid)"
    using mid o(3-8) by (auto simp: carve_def wf_stream_append wf_stream_Cons piece_ok_def)
  moreover have "offset \<le> fst p \<and> fst p + fst (snd p) \<le> offset + l" if "p \<in> set (carve offset l nb off len mid)" for p
    using that mid o(3-5) by (auto simp: carve_def split: if_splits)
  ultimately show ?thesis using o(1,2,9,10) by (fastforce simp: wf_stream_append)
qed

text \<open>The loops skip the pieces before the range and stop at the first piece after it.\<close>

lemma delegate_for_skip:
  assumes "\<forall>p \<in> set xs. fst p < off + len \<and> fst p + fst (snd p) \<le> off \<and> bt_get s (fst p) = Some (snd p)"
    "off + len < u64_size"
  shows "delegate_for off len (map fst xs @ ks) s = delegate_for off len ks s"
  using assms by (induction xs) auto

lemma delegate_for_stop:
  assumes "\<forall>k \<in> set ks. off + len \<le> k" "off + len < u64_size"
  shows "delegate_for off len ks s = Inr (s, [])"
  using assms by (cases ks) auto

lemma carve_bt:
  assumes f: "fits xs offset l nb ys off len"
  defines "s1 \<equiv> bt_remove offset (xs @ (offset, l, nb) # ys)"
  defines "s2 \<equiv> (if offset < off then bt_insert offset (off - offset, nb) s1 else s1)"
  defines "s3 \<equiv> (if off + len < offset + l then bt_insert (off + len) (offset + l - (off + len), nb) s2 else s2)"
  shows "s3 = xs @ carve offset l nb off len [] @ ys"
    and "bt_insert off (len, nb') s3 = xs @ carve offset l nb off len [(off, len, nb')] @ ys"
    and "bt_remove off s3 = s3"
proof -
  note o = fits_order [OF f]
  have x: "\<forall>p \<in> set xs. fst p < k" if "offset \<le> k" for k using that o(1) by fastforce
  have y: "\<forall>p \<in> set ys. k < fst p" if "k < offset + l" for k using that o(2) by fastforce
  have "s1 = xs @ ys" using x [of offset] unfolding s1_def by (subst bt_remove_append) auto
  then have s2: "s2 = (xs @ (if offset < off then [(offset, off - offset, nb)] else [])) @ ys"
    using x y o(3-5) by (simp add: s2_def bt_insert_append bt_insert_front)
  show s3: "s3 = xs @ carve offset l nb off len [] @ ys"
    unfolding s3_def s2 using x y o(3-5)
    by (simp add: bt_insert_append bt_insert_front carve_def)
  have fr: "\<forall>p \<in> set (xs @ (if offset < off then [(offset, off - offset, nb)] else [])). fst p < off"
    using x o(4) by auto
  have bk: "\<forall>p \<in> set ((if off + len < offset + l then [(off + len, offset + l - (off + len), nb)] else []) @ ys). off < fst p"
    using y [of off] o(3-5) by auto
  have s3': "s3 = (xs @ (if offset < off then [(offset, off - offset, nb)] else [])) @
    ((if off + len < offset + l then [(off + len, offset + l - (off + len), nb)] else []) @ ys)"
    unfolding s3 carve_def by simp
  show "bt_insert off (len, nb') s3 = xs @ carve offset l nb off len [(off, len, nb')] @ ys"
    unfolding s3' by (simp only: bt_insert_append [OF fr] bt_insert_front [OF bk]) (simp add: carve_def)
  have "\<forall>p \<in> set s3. fst p \<noteq> off" unfolding s3' using fr bk by (fastforce simp del: append.simps)
  then show "bt_remove off s3 = s3" by (rule bt_remove_absent)
qed

lemma fits_get:
  assumes f: "fits xs offset l nb ys off len"
  shows "\<forall>p \<in> set xs. fst p < off + len \<and> fst p + fst (snd p) \<le> off \<and> fst p + fst (snd p) < u64_size \<and>
      bt_get (xs @ (offset, l, nb) # ys) (fst p) = Some (snd p)"
    and "bt_get (xs @ (offset, l, nb) # ys) offset = Some (l, nb)"
    and "off + len < u64_size"
    and "\<forall>k \<in> set (map fst ys). off + len \<le> k"
proof -
  note o = fits_order [OF f]
  have wf: "bt_wf (xs @ (offset, l, nb) # ys)" using f by (simp add: fits_def wf_stream_bt_wf)
  show "bt_get (xs @ (offset, l, nb) # ys) offset = Some (l, nb)" using bt_get_mem [OF wf, of "(offset, l, nb)"] by simp
  show "\<forall>p \<in> set xs. fst p < off + len \<and> fst p + fst (snd p) \<le> off \<and> fst p + fst (snd p) < u64_size \<and>
      bt_get (xs @ (offset, l, nb) # ys) (fst p) = Some (snd p)"
  proof
    fix p assume "p \<in> set xs"
    then show "fst p < off + len \<and> fst p + fst (snd p) \<le> off \<and> fst p + fst (snd p) < u64_size \<and>
        bt_get (xs @ (offset, l, nb) # ys) (fst p) = Some (snd p)"
      using o(1) [of p] o(3-6) bt_get_mem [OF wf, of p] by (auto simp del: bt_get.simps)
  qed
  show "off + len < u64_size" "\<forall>k \<in> set (map fst ys). off + len \<le> k" using o(2,5,6) by fastforce+
qed

lemma fits_overlap:
  assumes "fits xs offset l nb ys off len"
  shows "max offset off = off" "min (offset + l) (off + len) = off + len"
    "(off < offset) = False" "(offset + l < off + len) = False" "(off + len \<le> offset) = False"
    "(offset + l \<le> off) = False"
  using fits_order(3-5) [OF assms] by auto

lemma delegate_while_fits:
  assumes f: "fits xs offset l nb ys off len"
  shows "delegate_while [(off, len)] (xs @ (offset, l, nb) # ys) =
    Inr (xs @ carve offset l nb off len [(off, len, nb + 1)] @ ys)"
proof -
  note o = fits_order [OF f] and g = fits_get [OF f]
  let ?s = "xs @ (offset, l, nb) # ys" and ?s' = "xs @ carve offset l nb off len [(off, len, nb + 1)] @ ys"
  have split: "delegate_split off (off + len) offset (offset + l) nb ?s = Inr (?s', [])"
    unfolding delegate_split_def Let_def
    by (simp only: fits_overlap [OF f] if_False add_diff_cancel_left' checked_add_Inr [OF o(7)]
        try_bind_Inr carve_bt(2) [OF f])
  have "delegate_for off len (map fst ?s) ?s = delegate_for off len (offset # map fst ys) ?s"
    using delegate_for_skip [of xs off len ?s "offset # map fst ys"] g(1,3) by simp
  also have "\<dots> = Inr (?s', [])"
    using o(3-6) g(2,3) delegate_for_stop [OF g(4,3), of ?s'] split by simp
  finally have loop: "delegate_for off len (map fst ?s) ?s = Inr (?s', [])" .
  have "bt_contains ?s' off"
    using bt_get_None_iff [of ?s' off] by (force simp: bt_contains_def carve_def)
  then show ?thesis using loop by simp
qed

text \<open>The acknowledgment of a range inside one piece. The ranges that are released go to the set
  of the stream.\<close>

definition full_of :: "nat \<Rightarrow> (nat, range_set) btree_map \<Rightarrow> range_set" where
  "full_of stream_id full = (case bt_get full stream_id of Some r \<Rightarrow> r | None \<Rightarrow> RangeSet_default)"

definition release :: "nat \<Rightarrow> nat \<Rightarrow> nat \<Rightarrow> nat \<Rightarrow> (nat, range_set) btree_map \<Rightarrow> (nat, range_set) btree_map \<Rightarrow> bool" where
  "release stream_id off len nb full full' \<longleftrightarrow>
     (if 1 < nb then full' = full
      else bt_wf full' \<and> rs_unbounded (full_of stream_id full') \<and>
        rs_covered (full_of stream_id full') = {off..<off + len} \<union> rs_covered (full_of stream_id full) \<and>
        (\<forall>i. i \<noteq> stream_id \<longrightarrow> bt_get full' i = bt_get full i))"

lemma stream_ack_split_fits:
  assumes f: "fits xs offset l nb ys off len" and full: "bt_wf full" "rs_unbounded (full_of stream_id full)"
  shows "\<exists>full'. stream_ack_split stream_id off (off + len) offset (offset + l) nb (xs @ (offset, l, nb) # ys, full) =
      Inr ((xs @ carve offset l nb off len (if 1 < nb then [(off, len, nb - 1)] else []) @ ys, full'), []) \<and>
    release stream_id off len nb full full'"
proof -
  note o = fits_order [OF f]
  have "off < off + len" "off + len \<le> usize_max" using o(3,5,6) by linarith+
  from rs_unbounded_insert [OF full(2) this] obtain r where r:
    "RangeSet_insert (off, off + len) (full_of stream_id full) = Inr r" "rs_unbounded r"
    "rs_covered r = {off..<off + len} \<union> rs_covered (full_of stream_id full)" by blast
  let ?full = "if 1 < nb then full else bt_insert stream_id r full"
  have "stream_ack_split stream_id off (off + len) offset (offset + l) nb (xs @ (offset, l, nb) # ys, full) =
      Inr ((xs @ carve offset l nb off len (if 1 < nb then [(off, len, nb - 1)] else []) @ ys, ?full), [])"
  proof (cases "1 < nb")
    case True
    then have "0 < nb - 1" by simp
    with True show ?thesis
      unfolding stream_ack_split_def Let_def prod.case
      by (simp only: fits_overlap [OF f] if_False if_True add_diff_cancel_left' carve_bt(2) [OF f])
  next
    case False
    then have "\<not> 0 < nb - 1" by simp
    with False show ?thesis
      unfolding stream_ack_split_def Let_def prod.case full_of_def [symmetric]
      by (simp only: fits_overlap [OF f] if_False carve_bt(1) [OF f] r(1) try_bind_Inr
          carve_bt(3) [OF f, unfolded carve_bt(1) [OF f]])
  qed
  moreover have "release stream_id off len nb full ?full"
    using full(1) r(2,3) by (simp add: release_def full_of_def bt_get_insert bt_wf_insert)
  ultimately show ?thesis by blast
qed

lemma stream_ack_for_skip:
  assumes "\<forall>p \<in> set xs. fst p < off + len \<and> fst p + fst (snd p) \<le> off \<and> fst p + fst (snd p) < u64_size \<and>
      bt_get (fst st) (fst p) = Some (snd p)"
    "off + len < u64_size"
  shows "stream_ack_for stream_id off len (map fst xs @ ks) st = stream_ack_for stream_id off len ks st"
  using assms by (induction xs) auto

lemma stream_ack_for_stop:
  assumes "\<forall>k \<in> set ks. off + len \<le> k" "off + len < u64_size"
  shows "stream_ack_for stream_id off len ks st = Inr (st, [], ks \<noteq> [])"
  using assms by (cases ks) auto

lemma stream_ack_while_fits:
  assumes f: "fits xs offset l nb ys off len" and full: "bt_wf full" "rs_unbounded (full_of stream_id full)"
  shows "\<exists>full'. stream_ack_while stream_id [(off, len)] (xs @ (offset, l, nb) # ys, full) =
      Inr ((xs @ carve offset l nb off len (if 1 < nb then [(off, len, nb - 1)] else []) @ ys, full'), ys \<noteq> []) \<and>
    release stream_id off len nb full full'"
proof -
  note o = fits_order [OF f] and g = fits_get [OF f]
  let ?s = "xs @ (offset, l, nb) # ys"
    and ?s' = "xs @ carve offset l nb off len (if 1 < nb then [(off, len, nb - 1)] else []) @ ys"
  obtain full' where split: "stream_ack_split stream_id off (off + len) offset (offset + l) nb (?s, full) =
      Inr ((?s', full'), [])" and rel: "release stream_id off len nb full full'"
    using stream_ack_split_fits [OF f full] by blast
  have "stream_ack_for stream_id off len (map fst ?s) (?s, full) =
      stream_ack_for stream_id off len (offset # map fst ys) (?s, full)"
    using stream_ack_for_skip [of xs off len "(?s, full)" stream_id "offset # map fst ys"] g(1,3) by simp
  also have "\<dots> = Inr ((?s', full'), [], ys \<noteq> [])"
    using o(3-6) g(2,3) stream_ack_for_stop [OF g(4,3), of stream_id "(?s', full')"] split
    by (simp del: bt_get.simps)
  finally have "stream_ack_for stream_id off len (map fst ?s) (?s, full) = Inr ((?s', full'), [], ys \<noteq> [])" .
  then have "stream_ack_while stream_id [(off, len)] (?s, full) = Inr ((?s', full'), ys \<noteq> [])" by simp
  with rel show ?thesis by blast
qed

text \<open>A range that meets no piece.\<close>

definition apart :: "mc_stream \<Rightarrow> nat \<Rightarrow> nat \<Rightarrow> bool" where
  "apart s off len \<longleftrightarrow> (\<forall>p \<in> set s. fst p + fst (snd p) \<le> off \<or> off + len \<le> fst p)"

lemma apart_split:
  "wf_stream s \<Longrightarrow> apart s off len \<Longrightarrow> \<exists>xs ys. s = xs @ ys \<and>
     (\<forall>p \<in> set xs. fst p + fst (snd p) \<le> off) \<and> (\<forall>p \<in> set ys. off + len \<le> fst p)"
proof (induction s)
  case (Cons p s)
  show ?case
  proof (cases "fst p + fst (snd p) \<le> off")
    case True
    obtain xs ys where "s = xs @ ys" "\<forall>p \<in> set xs. fst p + fst (snd p) \<le> off"
      "\<forall>p \<in> set ys. off + len \<le> fst p"
      using Cons by (force simp: wf_stream_Cons apart_def)
    with True show ?thesis by (intro exI [of _ "p # xs"] exI [of _ ys]) simp
  next
    case False
    with Cons.prems have "\<forall>q \<in> set (p # s). off + len \<le> fst q"
      by (fastforce simp: wf_stream_Cons apart_def)
    then show ?thesis by (intro exI [of _ "[]"] exI [of _ "p # s"]) simp
  qed
qed simp

lemma delegate_while_apart:
  assumes wf: "wf_stream (xs @ ys)" and len: "0 < len" "off + len < u64_size"
    and xs: "\<forall>p \<in> set xs. fst p + fst (snd p) \<le> off" and ys: "\<forall>p \<in> set ys. off + len \<le> fst p"
  shows "delegate_while [(off, len)] (xs @ ys) = Inr (if off = len then xs @ ys else xs @ (off, len, 1) # ys)"
proof -
  have bt: "bt_wf (xs @ ys)" using wf by (rule wf_stream_bt_wf)
  have "\<forall>p \<in> set xs. 0 < fst (snd p)" using wf by (simp add: wf_stream_def piece_ok_def)
  then have lt: "\<forall>p \<in> set xs. fst p < off" using xs by (metis add_lessD1 less_add_same_cancel1 less_le_trans)
  have "\<forall>p \<in> set xs. fst p < off + len \<and> fst p + fst (snd p) \<le> off \<and> bt_get (xs @ ys) (fst p) = Some (snd p)"
    using xs lt bt_get_mem [OF bt] by (auto simp: trans_less_add1)
  from delegate_for_skip [OF this len(2), of "map fst ys"]
  have loop: "delegate_for off len (map fst (xs @ ys)) (xs @ ys) = Inr (xs @ ys, [])"
    using delegate_for_stop [of "map fst ys" off len] ys len(2) by simp
  have gt: "\<forall>p \<in> set ys. off < fst p" using ys len(1) by fastforce
  have "\<not> bt_contains (xs @ ys) off"
    using lt gt bt_get_None_iff [of "xs @ ys" off] by (fastforce simp: bt_contains_def)
  then show ?thesis using loop bt_insert_append [OF lt] bt_insert_front [OF gt] by simp
qed

text \<open>The stream of an identifier.\<close>

definition stream_of :: "mc_ack \<Rightarrow> nat \<Rightarrow> mc_stream" where
  "stream_of m stream_id = (case bt_get (stream_map m) stream_id of Some s \<Rightarrow> s | None \<Rightarrow> [])"

definition aligned :: "mc_stream \<Rightarrow> nat \<Rightarrow> nat \<Rightarrow> bool" where
  "aligned s off len \<longleftrightarrow> (\<exists>(offset, l, nb) \<in> set s. offset \<le> off \<and> off + len \<le> offset + l)"

lemma aligned_fits:
  assumes "wf_stream s" "aligned s off len" "0 < len"
  shows "\<exists>xs offset l nb ys. s = xs @ (offset, l, nb) # ys \<and> fits xs offset l nb ys off len"
proof -
  obtain offset l nb where "(offset, l, nb) \<in> set s" "offset \<le> off" "off + len \<le> offset + l"
    using assms(2) unfolding aligned_def by auto
  moreover from this(1) obtain xs ys where "s = xs @ (offset, l, nb) # ys" by (auto dest: split_list)
  ultimately show ?thesis
    using assms by (intro exI [of _ xs] exI [of _ offset] exI [of _ l] exI [of _ nb] exI [of _ ys]) (simp add: fits_def)
qed

lemma pending_fits:
  assumes f: "fits xs offset l nb ys off len" and x: "off \<le> x" "x < off + len"
  shows "pending (xs @ (offset, l, nb) # ys) x = nb"
proof -
  note o = fits_order [OF f]
  have "pending xs x = 0" by (rule pending_outside) (use o(1,4) x in fastforce)
  then show ?thesis using x o(3-5) by (simp add: pending_append [OF o(9)])
qed

lemma delegate_eq:
  assumes "0 < len"
  shows "delegate stream_id off len m = try_bind (delegate_while [(off, len)] (stream_of m stream_id))
    (\<lambda>stream. Inr (m\<lparr>stream_map := bt_insert stream_id stream (stream_map m)\<rparr>))"
  using assms by (simp add: delegate_def stream_of_def)

lemma stream_of_insert [simp]:
  "stream_of (m\<lparr>stream_map := bt_insert i s (stream_map m)\<rparr>) j = (if j = i then s else stream_of m j)"
  by (simp add: stream_of_def bt_get_insert)

lemma pending_apart:
  assumes "wf_stream (xs @ ys)" "\<forall>p \<in> set xs. fst p + fst (snd p) \<le> off" "\<forall>p \<in> set ys. off + len \<le> fst p"
  shows "pending (xs @ (off, len, 1) # ys) x = pending (xs @ ys) x + (if off \<le> x \<and> x < off + len then 1 else 0)"
proof -
  have wf: "wf_stream xs" using assms(1) by (simp add: wf_stream_append)
  have "pending xs x = 0" if "off \<le> x" by (rule pending_outside) (use assms(2) that in fastforce)
  moreover have "pending ys x = 0" if "x < off + len" by (rule pending_outside) (use assms(3) that in fastforce)
  ultimately show ?thesis by (simp add: pending_append [OF wf])
qed

section \<open>Properties\<close>

text \<open>Delegating a range that lies inside one piece already delegated, or that meets none,
  raises the number of awaited acknowledgments of exactly the bytes of the range by one and keeps
  the pieces disjoint, in order and non-empty; other streams are not touched.\<close>

lemma delegate_counts:
  assumes wf: "wf_stream (stream_of m sid)" and len: "0 < len" "off + len < u64_size"
    and place: "aligned (stream_of m sid) off len \<or> apart (stream_of m sid) off len \<and> off \<noteq> len"
    and room: "\<forall>x. pending (stream_of m sid) x + 2 < u64_size"
  shows "\<exists>m'. delegate sid off len m = Inr m' \<and> wf_stream (stream_of m' sid) \<and>
    (\<forall>x. pending (stream_of m' sid) x =
       pending (stream_of m sid) x + (if off \<le> x \<and> x < off + len then 1 else 0)) \<and>
    (\<forall>i. i \<noteq> sid \<longrightarrow> stream_of m' i = stream_of m i)"
proof -
  let ?s = "stream_of m sid"
  have "\<exists>s'. delegate_while [(off, len)] ?s = Inr s' \<and> wf_stream s' \<and>
      (\<forall>x. pending s' x = pending ?s x + (if off \<le> x \<and> x < off + len then 1 else 0))"
    using place
  proof
    assume "aligned ?s off len"
    then obtain xs offset l nb ys where s: "?s = xs @ (offset, l, nb) # ys" and f: "fits xs offset l nb ys off len"
      using aligned_fits [OF wf _ len(1)] by blast
    have nb: "nb + 2 < u64_size" using room pending_fits [OF f, of off] len(1) unfolding s by (metis le_refl less_add_same_cancel1)
    show ?thesis
      unfolding s using delegate_while_fits [OF f] nb pending_fits [OF f]
        wf_carve [OF f, of "[(off, len, nb + 1)]" "nb + 1"] pending_carve [OF f, of "[(off, len, nb + 1)]" "nb + 1"]
      by auto
  next
    assume a: "apart ?s off len \<and> off \<noteq> len"
    then obtain xs ys where s: "?s = xs @ ys" and xs: "\<forall>p \<in> set xs. fst p + fst (snd p) \<le> off"
      and ys: "\<forall>p \<in> set ys. off + len \<le> fst p"
      using apart_split [OF wf, of off len] by blast
    have "wf_stream (xs @ (off, len, 1) # ys)"
      using wf xs ys len unfolding s wf_stream_append wf_stream_Cons by (fastforce simp: piece_ok_def)
    then show ?thesis
      unfolding s using delegate_while_apart [OF wf [unfolded s] len xs ys] a
        pending_apart [OF wf [unfolded s] xs ys] by auto
  qed
  then obtain s' where "delegate_while [(off, len)] ?s = Inr s'" "wf_stream s'"
    "\<forall>x. pending s' x = pending ?s x + (if off \<le> x \<and> x < off + len then 1 else 0)" by blast
  then show ?thesis by (simp add: delegate_eq [OF len(1)])
qed

lemma delegate_counts_example:
  "\<exists>m'. delegate 4 6 2 (McAck_new\<lparr>stream_map := [(4, [(5, 10, 3)])]\<rparr>) = Inr m' \<and>
     pending (stream_of m' 4) 7 = 4 \<and> pending (stream_of m' 4) 8 = 3"
proof -
  let ?m = "McAck_new\<lparr>stream_map := [(4, [(5, 10, 3)])]\<rparr>"
  have s: "stream_of ?m 4 = [(5, 10, 3)]" by (simp add: stream_of_def)
  moreover have "wf_stream [(5, 10, 3)]" "aligned [(5, 10, 3)] 6 2"
    by (simp_all add: wf_stream_def piece_ok_def aligned_def)
  moreover have "\<forall>x. pending [(5, 10, 3)] x + 2 < u64_size" by (intro allI) simp
  ultimately obtain m' where "delegate 4 6 2 ?m = Inr m'" "\<forall>x. pending (stream_of m' 4) x =
      pending [(5, 10, 3)] x + (if 6 \<le> x \<and> x < 6 + 2 then 1 else 0)"
    using delegate_counts [of ?m 4 2 6] unfolding s by auto
  then show ?thesis by (intro exI [of _ m']) simp
qed

text \<open>Acknowledging a range that lies inside one delegated piece lowers the awaited
  acknowledgments of exactly its bytes by one; when the range was waiting for its last
  acknowledgment, exactly its bytes are added to the released ranges of the stream, and nothing
  is released otherwise.\<close>

lemma stream_ack_counts:
  assumes wf: "wf_stream (stream_of m sid)" "bt_wf (stream_map m)" "bt_wf (stream_full m)"
    and full: "rs_unbounded (full_of sid (stream_full m))"
    and len: "0 < len" and place: "aligned (stream_of m sid) off len"
  shows "\<exists>m'. on_stream_ack_received sid off len m = Inr m' \<and> wf_stream (stream_of m' sid) \<and>
    (\<forall>x. pending (stream_of m' sid) x =
       pending (stream_of m sid) x - (if off \<le> x \<and> x < off + len then 1 else 0)) \<and>
    rs_covered (full_of sid (stream_full m')) =
      (if pending (stream_of m sid) off = 1 then {off..<off + len} else {}) \<union>
      rs_covered (full_of sid (stream_full m))"
proof -
  obtain xs offset l nb ys where s: "stream_of m sid = xs @ (offset, l, nb) # ys"
    and f: "fits xs offset l nb ys off len" using aligned_fits [OF wf(1) place len] by blast
  note o = fits_order [OF f]
  let ?mid = "if 1 < nb then [(off, len, nb - 1)] else []"
  let ?s' = "xs @ carve offset l nb off len ?mid @ ys"
  obtain full' where run: "stream_ack_while sid [(off, len)] (stream_of m sid, stream_full m) =
      Inr ((?s', full'), ys \<noteq> [])" and rel: "release sid off len nb (stream_full m) full'"
    using stream_ack_while_fits [OF f wf(3) full] unfolding s by blast
  have get: "bt_get (stream_map m) sid = Some (stream_of m sid)"
    using s by (auto simp: stream_of_def split: option.splits)
  let ?m = "m\<lparr>stream_full := full', stream_map := (if \<not> ys \<noteq> [] \<and> ?s' = []
      then bt_remove sid (stream_map m) else bt_insert sid ?s' (stream_map m))\<rparr>"
  have "on_stream_ack_received sid off len m = Inr ?m"
    unfolding on_stream_ack_received_def using len by (simp only: get option.case run) simp
  moreover have s': "stream_of ?m sid = ?s'"
    using wf(2) by (simp add: stream_of_def bt_get_insert bt_get_remove)
  moreover have mid: "?mid = [] \<or> ?mid = [(off, len, nb - 1)] \<and> 0 < nb - 1 \<and> nb - 1 + 1 < u64_size"
    using o(7) by auto
  then have "wf_stream ?s'" by (rule wf_carve [OF f])
  moreover have "pending ?s' x = pending (stream_of m sid) x - (if off \<le> x \<and> x < off + len then 1 else 0)" for x
    using pending_carve [OF f, of ?mid "nb - 1" x] mid pending_fits [OF f, of x] o(8) unfolding s by auto
  moreover have "pending (stream_of m sid) off = nb" using pending_fits [OF f, of off] len unfolding s by simp
  then have "rs_covered (full_of sid full') = (if pending (stream_of m sid) off = 1 then {off..<off + len} else {}) \<union>
      rs_covered (full_of sid (stream_full m))"
    using rel o(8) by (auto simp: release_def split: if_splits)
  ultimately show ?thesis by (intro exI [of _ ?m]) simp
qed

lemma stream_ack_counts_example:
  "\<exists>m'. on_stream_ack_received 4 6 2 (McAck_new\<lparr>stream_map := [(4, [(5, 10, 1)])]\<rparr>) = Inr m' \<and>
     pending (stream_of m' 4) 5 = 1 \<and> rs_covered (full_of 4 (stream_full m')) = {6..<8}"
proof -
  let ?m = "McAck_new\<lparr>stream_map := [(4, [(5, 10, 1)])]\<rparr>"
  have s: "stream_of ?m 4 = [(5, 10, 1)]" by (simp add: stream_of_def)
  moreover have "wf_stream [(5, 10, 1)]" "aligned [(5, 10, 1)] 6 2"
    by (simp_all add: wf_stream_def piece_ok_def aligned_def)
  moreover have full: "full_of 4 (stream_full ?m) = RangeSet_default" "bt_wf (stream_map ?m)" "bt_wf (stream_full ?m)"
    by (simp_all add: full_of_def McAck_new_def bt_wf_Cons)
  ultimately show ?thesis
    using stream_ack_counts [of ?m 4 2 6] unfolding s full(1) by auto
qed

lemma delegate_same:
  assumes s: "stream_of m sid = (if k = 0 then [] else [(off, len, k)])"
    and len: "0 < len" "off + len < u64_size" "off \<noteq> len" and k: "k + 1 < u64_size"
  shows "delegate sid off len m = Inr (m\<lparr>stream_map := bt_insert sid [(off, len, k + 1)] (stream_map m)\<rparr>)"
proof (cases "k = 0")
  case True
  then show ?thesis using s len delegate_while_apart [of "[]" "[]" len off] by (simp add: delegate_eq)
next
  case False
  then have "fits [] off len k [] off len"
    using len k by (simp add: fits_def wf_stream_def piece_ok_def)
  from delegate_while_fits [OF this] show ?thesis using False s len by (simp add: delegate_eq carve_def)
qed

lemma stream_ack_same:
  assumes get: "bt_get (stream_map m) sid = Some [(off, len, n)]" and len: "0 < len" "off + len < u64_size"
    and n: "0 < n" "n + 1 < u64_size"
    and full: "bt_wf (stream_full m)" "rs_unbounded (full_of sid (stream_full m))"
  shows "\<exists>full'. release sid off len n (stream_full m) full' \<and>
    on_stream_ack_received sid off len m = Inr (m\<lparr>stream_full := full', stream_map :=
      (if 1 < n then bt_insert sid [(off, len, n - 1)] (stream_map m) else bt_remove sid (stream_map m))\<rparr>)"
proof -
  have f: "fits [] off len n [] off len"
    using len n by (simp add: fits_def wf_stream_def piece_ok_def)
  from stream_ack_while_fits [OF f full] obtain full' where
    "stream_ack_while sid [(off, len)] ([(off, len, n)], stream_full m) =
      Inr ((if 1 < n then [(off, len, n - 1)] else [], full'), False)" "release sid off len n (stream_full m) full'"
    by (auto simp: carve_def simp del: stream_ack_while.simps split: if_splits)
  then show ?thesis using len(1) n(1)
    by (intro exI [of _ full']) (simp add: on_stream_ack_received_def get del: stream_ack_while.simps)
qed



text \<open>C18: When one receiver acknowledges a range that spans two adjacent pieces, the second piece
  is counted twice: it is released although another receiver still has to acknowledge it.\<close>

theorem stream_ack_double_count:
  assumes s: "bt_get (stream_map m) sid = Some [(off, a, 2), (off + a, b, 2)]" "bt_wf (stream_map m)"
    and len: "0 < a" "0 < b" "off + (a + b) < u64_size"
    and full: "bt_wf (stream_full m)" "rs_unbounded (full_of sid (stream_full m))"
  shows "\<exists>m'. on_stream_ack_received sid off (a + b) m = Inr m' \<and> stream_of m' sid = [(off, a, 1)] \<and>
    rs_covered (full_of sid (stream_full m')) =
      {off + a..<off + (a + b)} \<union> rs_covered (full_of sid (stream_full m))"
proof -
  have sums: "checked_add off (a + b) = Inr (off + (a + b))" "checked_add off a = Inr (off + a)"
    "checked_add (off + a) b = Inr (off + (a + b))" using len(3) by (simp_all add: checked_add_def)
  let ?s = "[(off, a, 2), (off + a, b, 2)]" and ?s1 = "[(off, a, 1), (off + a, b, 1)]"
  have "stream_ack_for sid off (a + b) (map fst ?s) (?s, stream_full m) =
      Inr ((?s1, stream_full m), [(off + a, b)], False)"
    using len(1,2) by (simp add: sums stream_ack_split_def Let_def)
  then have first: "stream_ack_while sid [(off, a + b)] (?s, stream_full m) =
      stream_ack_while sid [(off + a, b)] (?s1, stream_full m)" by (simp del: stream_ack_for.simps)
  have f: "fits [(off, a, 1)] (off + a) b 1 [] (off + a) b"
    using len by (simp add: fits_def wf_stream_def piece_ok_def)
  from stream_ack_while_fits [OF f full] obtain full' where
    "stream_ack_while sid [(off + a, b)] (?s1, stream_full m) = Inr (([(off, a, 1)], full'), False)"
    "release sid (off + a) b 1 (stream_full m) full'"
    by (auto simp: carve_def simp del: stream_ack_while.simps)
  with first show ?thesis using s len(1)
    by (simp add: on_stream_ack_received_def release_def stream_of_def bt_get_insert add.assoc
        del: stream_ack_while.simps)
qed

theorem stream_ack_double_count_witness:
  "\<exists>m m'. fold_res (\<lambda>(off, len). delegate 4 off len) [(0, 5), (0, 5), (5, 6), (5, 6)] McAck_new = Inr m \<and>
    on_stream_ack_received 4 0 11 m = Inr m' \<and> rs_covered (full_of 4 (stream_full m')) = {5..<11}"
proof -
  let ?m = "McAck_new\<lparr>stream_map := [(4, [(0, 5, 2), (5, 6, 2)])]\<rparr>"
  have "fold_res (\<lambda>(off, len). delegate 4 off len) [(0, 5), (0, 5), (5, 6), (5, 6)] McAck_new = Inr ?m"
    by (simp add: delegate_def McAck_new_def delegate_split_def Let_def bt_contains_def)
  moreover have "bt_wf (stream_map ?m)" "bt_wf (stream_full ?m)" "full_of 4 (stream_full ?m) = RangeSet_default"
    by (simp_all add: McAck_new_def bt_wf_Cons full_of_def)
  ultimately show ?thesis using stream_ack_double_count [of ?m 4 0 5 6] by auto
qed





end
