(* ===== verification/Fc_Congestion.thy ===== *)
theory Fc_Congestion
  imports Frame Ordered_Map
begin

text \<open>
  Channel selection driven by congestion (\<open>flexicast/congestion\<close>): the sliding maximum of
  \<open>window.rs\<close>, the pacing of the congestion information of \<open>mod.rs\<close> and the choice of the
  closest channel of \<open>kmeans.rs\<close>. The rates of \<open>stats.rs\<close> and the bandit of \<open>exp3\<close> compute with
  \<open>f64\<close> and are left out. \<open>Instant::now()\<close> is an argument.
\<close>

section \<open>The sliding maximum\<close>

record 'v max_time_window =
  tw_window :: "(nat, 'v) btree_map"
  tw_values :: "('v, nat) btree_map"
  tw_span :: nat

definition MaxTimeWindow_new :: "nat \<Rightarrow> 'v max_time_window" where
  "MaxTimeWindow_new span = \<lparr>tw_window = [], tw_values = [], tw_span = span\<rparr>"

text \<open>One removal of the loop of \<open>time_elapsed\<close>, with its \<open>expect\<close>.\<close>

definition tw_expire ::
  "nat \<times> 'v::linorder \<Rightarrow> 'v max_time_window \<Rightarrow> 'v max_time_window result" where
  "tw_expire = (\<lambda>(instant, v) w.
     case bt_get (tw_values w) v of
       None \<Rightarrow> panic
     | Some n \<Rightarrow>
         let w' = w\<lparr>tw_window := bt_remove instant (tw_window w)\<rparr> in
         if n = 1 then Inr (w'\<lparr>tw_values := bt_remove v (tw_values w)\<rparr>)
         else try_bind (checked_sub n 1) (\<lambda>n'. Inr (w'\<lparr>tw_values := bt_insert v n' (tw_values w)\<rparr>)))"

definition time_elapsed :: "nat \<Rightarrow> 'v::linorder max_time_window \<Rightarrow> 'v max_time_window result" where
  "time_elapsed now w =
     try_bind (checked_sub now (tw_span w)) (\<lambda>lowest.
       fold_res tw_expire (bt_below lowest (tw_window w)) w)"

definition add_data :: "nat \<Rightarrow> 'v::linorder \<Rightarrow> 'v max_time_window \<Rightarrow> 'v max_time_window result" where
  "add_data now v w =
     try_bind (time_elapsed now w) (\<lambda>w.
       let n = (case bt_get (tw_values w) v of Some n \<Rightarrow> n + 1 | None \<Rightarrow> 1) in
       if n < 4294967296 then
         Inr (w\<lparr>tw_window := bt_insert now v (tw_window w), tw_values := bt_insert v n (tw_values w)\<rparr>)
       else panic)"

definition tw_max :: "'v::linorder max_time_window \<Rightarrow> 'v option" where
  "tw_max w = map_option fst (bt_last (tw_values w))"

section \<open>Congestion information\<close>

abbreviation (input) MAX_DELAY_MULTIPLIER :: nat where "MAX_DELAY_MULTIPLIER \<equiv> 16"

text \<open>\<open>FcCongestionState\<close>; of its statistics, the throughput window is kept.\<close>

record fc_congestion_state =
  cs_delay :: nat
  cs_base_delay :: nat
  cs_next :: nat
  cs_local_info :: "fc_congestion_info option"
  cs_received_info :: "fc_congestion_info option"
  cs_last_migration :: nat
  cs_throughput :: "nat max_time_window"

definition FcCongestionState_new :: "nat \<Rightarrow> nat \<Rightarrow> nat \<Rightarrow> fc_congestion_state" where
  "FcCongestionState_new info_delay throughput_window now = \<lparr>cs_delay = info_delay,
     cs_base_delay = info_delay, cs_next = now + info_delay, cs_local_info = None,
     cs_received_info = None, cs_last_migration = now,
     cs_throughput = MaxTimeWindow_new throughput_window\<rparr>"

definition FcCongestionState_default :: "nat \<Rightarrow> fc_congestion_state" where
  "FcCongestionState_default now = FcCongestionState_new 100000000 5000000000 now"

definition should_send_congestion_info :: "nat \<Rightarrow> fc_congestion_state \<Rightarrow> bool" where
  "should_send_congestion_info now cs \<longleftrightarrow> cs_local_info cs \<noteq> None \<and> cs_next cs < now"

definition get_congestion_info :: "fc_congestion_state \<Rightarrow> fc_congestion_info result" where
  "get_congestion_info cs = (case cs_local_info cs of Some i \<Rightarrow> Inr i | None \<Rightarrow> panic)"

text \<open>\<open>duration_since\<close> saturates at zero.\<close>

definition sending_congestion_info :: "nat \<Rightarrow> fc_congestion_state \<Rightarrow> fc_congestion_state" where
  "sending_congestion_info now cs = (let
     delay = (if 2 * cs_delay cs < now - cs_last_migration cs
       then min (2 * cs_delay cs) (MAX_DELAY_MULTIPLIER * cs_base_delay cs)
       else cs_base_delay cs)
   in cs\<lparr>cs_delay := delay, cs_next := now + delay\<rparr>)"

definition congestion_reset :: "fc_congestion_state \<Rightarrow> fc_congestion_state" where
  "congestion_reset cs = cs\<lparr>cs_throughput := MaxTimeWindow_new 5000000000\<rparr>"

definition mc_set_congestion_info :: "fc_congestion_info \<Rightarrow> fc_congestion_state \<Rightarrow> fc_congestion_state" where
  "mc_set_congestion_info info cs = cs\<lparr>cs_local_info := Some info\<rparr>"

section \<open>The closest channel\<close>

definition abs_diff :: "nat \<Rightarrow> nat \<Rightarrow> nat" where
  "abs_diff a b = (if a < b then b - a else a - b)"

fun closest_channel :: "nat \<Rightarrow> byte list \<times> nat \<Rightarrow> (byte list \<times> nat) list \<Rightarrow> byte list \<times> nat" where
  "closest_channel cwnd closest [] = closest"
| "closest_channel cwnd closest (g # gs) =
     closest_channel cwnd (if abs_diff cwnd (snd g) < abs_diff cwnd (snd closest) then g else closest) gs"

text \<open>\<open>active\<close> is the channel of \<open>get_mc_announce_data_active\<close>, unwrapped in the source.\<close>

definition kmeans_should_change_channel ::
  "fc_congestion_state \<Rightarrow> byte list option \<Rightarrow> byte list option result" where
  "kmeans_should_change_channel cs active = (case cs_received_info cs of
     None \<Rightarrow> Inr None
   | Some info \<Rightarrow> (case ci_mc_cwnds info of
       [] \<Rightarrow> panic
     | g # gs \<Rightarrow>
         let channel_id = fst (closest_channel (ci_cwnd info) g (g # gs)) in
         (case active of
           None \<Rightarrow> panic
         | Some cid \<Rightarrow> Inr (if cid = channel_id then None else Some channel_id))))"

section \<open>The window holds what it counts\<close>

definition tw_ok :: "'v::linorder max_time_window \<Rightarrow> bool" where
  "tw_ok w \<longleftrightarrow> bt_wf (tw_window w) \<and> bt_wf (tw_values w) \<and>
     (\<forall>v. bt_get (tw_values w) v = (let c = count_list (map snd (tw_window w)) v in if c = 0 then None else Some c))"

lemma tw_ok_new: "tw_ok (MaxTimeWindow_new span)"
  by (simp add: tw_ok_def MaxTimeWindow_new_def)

lemma tw_expire_head:
  assumes ok: "tw_ok w" and w: "tw_window w = (t, v) # rest"
  shows "\<exists>w'. tw_expire (t, v) w = Inr w' \<and> tw_ok w' \<and> tw_window w' = rest \<and> tw_span w' = tw_span w"
proof -
  let ?c = "count_list (map snd rest) v"
  have get: "bt_get (tw_values w) v = Some (Suc ?c)" using ok w by (simp add: tw_ok_def Let_def)
  let ?vals = "if ?c = 0 then bt_remove v (tw_values w) else bt_insert v ?c (tw_values w)"
  let ?w = "w\<lparr>tw_window := rest, tw_values := ?vals\<rparr>"
  have "tw_expire (t, v) w = Inr ?w" by (simp add: tw_expire_def get w Let_def)
  moreover have "bt_wf rest" "bt_wf (tw_values w)" using ok w by (auto simp: tw_ok_def bt_wf_Cons)
  then have "tw_ok ?w" using ok w
    by (auto simp: tw_ok_def Let_def bt_get_remove bt_get_insert bt_wf_remove bt_wf_insert)
  ultimately show ?thesis by auto
qed

lemma tw_expire_list:
  "tw_ok w \<Longrightarrow> tw_window w = ps @ rest \<Longrightarrow>
   \<exists>w'. fold_res tw_expire ps w = Inr w' \<and> tw_ok w' \<and> tw_window w' = rest \<and> tw_span w' = tw_span w"
proof (induction ps arbitrary: w)
  case (Cons p ps)
  obtain w1 where "tw_expire p w = Inr w1" "tw_ok w1" "tw_window w1 = ps @ rest" "tw_span w1 = tw_span w"
    using tw_expire_head [OF Cons.prems(1), of "fst p" "snd p" "ps @ rest"] Cons.prems(2) by auto
  with Cons.IH [of w1] show ?case by auto
qed simp

lemma bt_below_from: "bt_wf m \<Longrightarrow> m = bt_below k m @ bt_from k m"
proof (induction m)
  case (Cons p m)
  then have wf: "bt_wf m" "\<forall>q \<in> set m. fst p < fst q" by (cases p, auto simp: bt_wf_Cons)+
  show ?case
  proof (cases "fst p < k")
    case True
    with Cons.IH wf show ?thesis by (simp add: bt_below_def bt_from_def)
  next
    case False
    then have "bt_below k m = []" "bt_from k m = m"
      using wf by (auto simp: bt_below_def bt_from_def filter_empty_conv filter_id_conv)
    with False show ?thesis by (simp add: bt_below_def bt_from_def)
  qed
qed (simp add: bt_below_def bt_from_def)

lemma time_elapsed_step:
  assumes ok: "tw_ok w" and t: "tw_span w \<le> now"
  shows "\<exists>w'. time_elapsed now w = Inr w' \<and> tw_ok w' \<and>
    tw_window w' = bt_from (now - tw_span w) (tw_window w) \<and> tw_span w' = tw_span w"
  using tw_expire_list [OF ok bt_below_from [of "tw_window w" "now - tw_span w"]] ok t
  by (simp add: time_elapsed_def tw_ok_def)

lemma add_data_step:
  assumes ok: "tw_ok w" and t: "tw_span w \<le> now" "\<forall>p \<in> set (tw_window w). fst p < now"
    and room: "length (tw_window w) + 1 < 4294967296"
  shows "\<exists>w'. add_data now v w = Inr w' \<and> tw_ok w' \<and>
    tw_window w' = bt_from (now - tw_span w) (tw_window w) @ [(now, v)] \<and> tw_span w' = tw_span w"
proof -
  obtain w1 where w1: "time_elapsed now w = Inr w1" "tw_ok w1"
    "tw_window w1 = bt_from (now - tw_span w) (tw_window w)" "tw_span w1 = tw_span w"
    using time_elapsed_step [OF ok t(1)] by blast
  let ?win = "tw_window w1 @ [(now, v)]"
  have "\<forall>p \<in> set (tw_window w1). fst p < now" using t(2) w1(3) by (simp add: bt_from_def)
  then have win: "bt_insert now v (tw_window w1) = ?win" "bt_wf ?win"
    using bt_insert_append [of "tw_window w1" now v "[]"] bt_wf_insert [of "tw_window w1" now v] w1(2)
    by (simp_all add: tw_ok_def)
  let ?n = "count_list (map snd ?win) v"
  have n: "(case bt_get (tw_values w1) v of Some n \<Rightarrow> n + 1 | None \<Rightarrow> 1) = ?n"
    using w1(2) by (simp add: tw_ok_def Let_def)
  have "length (tw_window w1) \<le> length (tw_window w)" by (simp add: w1(3) bt_from_def)
  moreover have "?n \<le> length ?win" using count_le_length [of "map snd ?win" v] by simp
  ultimately have "?n < 4294967296" using room by simp
  then have "add_data now v w = Inr (w1\<lparr>tw_window := ?win, tw_values := bt_insert v ?n (tw_values w1)\<rparr>)"
    using w1(1) win(1) n by (simp add: add_data_def Let_def)
  moreover have "tw_ok (w1\<lparr>tw_window := ?win, tw_values := bt_insert v ?n (tw_values w1)\<rparr>)"
    using w1(2) win(2) by (simp add: tw_ok_def Let_def bt_get_insert bt_wf_insert)
  ultimately show ?thesis using w1(3,4) by auto
qed

lemma bt_last_Max:
  assumes "bt_wf m" "m \<noteq> []"
  shows "map_option fst (bt_last m) = Some (Max (fst ` set m))"
proof -
  have "Max (fst ` set m) = fst (last m)"
    using assms
  proof (induction m)
    case (Cons p m)
    then show ?case by (cases p; cases "m = []") (auto simp: bt_wf_Cons intro: Max_insert2)
  qed simp
  then show ?thesis using assms(2) by (simp add: bt_last_def)
qed

lemma tw_max_window:
  assumes "tw_ok w" "tw_window w \<noteq> []"
  shows "tw_max w = Some (Max (snd ` set (tw_window w)))"
proof -
  have wf: "bt_wf (tw_values w)" using assms(1) by (simp add: tw_ok_def)
  have "fst ` set (tw_values w) = {v. bt_get (tw_values w) v \<noteq> None}"
    using bt_get_None_iff [of "tw_values w"] by auto
  also have "\<dots> = snd ` set (tw_window w)"
    using assms(1) by (auto simp: tw_ok_def Let_def count_list_0_iff)
  finally have keys: "fst ` set (tw_values w) = snd ` set (tw_window w)" .
  then have "tw_values w \<noteq> []" using assms(2) by auto
  from bt_last_Max [OF wf this] show ?thesis by (simp add: tw_max_def keys)
qed

lemma add_data_run:
  assumes "sorted_wrt (<) (map fst (xs @ [(t, v)]))" "\<forall>p \<in> set (xs @ [(t, v)]). span \<le> fst p"
    "length xs + 1 < 4294967296"
  shows "\<exists>w. fold_res (\<lambda>(t, v). add_data t v) (xs @ [(t, v)]) (MaxTimeWindow_new span) = Inr w \<and>
    tw_ok w \<and> tw_span w = span \<and> tw_window w = bt_from (t - span) (xs @ [(t, v)])"
  using assms
proof (induction xs arbitrary: t v rule: rev_induct)
  case Nil
  then show ?case
    using add_data_step [OF tw_ok_new, of span t v] by (auto simp: MaxTimeWindow_new_def bt_from_def)
next
  case (snoc p xs)
  obtain t1 v1 where p: "p = (t1, v1)" by (cases p)
  obtain w where w: "fold_res (\<lambda>(t, v). add_data t v) (xs @ [(t1, v1)]) (MaxTimeWindow_new span) = Inr w"
    "tw_ok w" "tw_span w = span" "tw_window w = bt_from (t1 - span) (xs @ [(t1, v1)])"
    using snoc.IH [of t1 v1] snoc.prems by (auto simp: p sorted_wrt_append)
  have lt: "\<forall>q \<in> set (xs @ [(t1, v1)]). fst q < t" using snoc.prems(1) by (auto simp: p sorted_wrt_append)
  have "length (tw_window w) + 1 < 4294967296"
    using snoc.prems(3) length_filter_le [of "\<lambda>p. t1 - span \<le> fst p" "xs @ [(t1, v1)]"]
    unfolding w(4) bt_from_def by (simp del: filter_append)
  moreover have "\<forall>q \<in> set (tw_window w). fst q < t" using lt by (simp add: w(4) bt_from_def)
  ultimately obtain w' where w': "add_data t v w = Inr w'" "tw_ok w'" "tw_span w' = span"
    "tw_window w' = bt_from (t - span) (tw_window w) @ [(t, v)]"
    using add_data_step [OF w(2), of t v] snoc.prems(2) w(3) by auto
  have "t1 - span \<le> t - span" using lt by (simp add: diff_le_mono)
  then have "bt_from (t - span) (tw_window w) = bt_from (t - span) (xs @ [(t1, v1)])"
    unfolding w(4) bt_from_def filter_filter by (intro filter_cong) auto
  then have "tw_window w' = bt_from (t - span) ((xs @ [p]) @ [(t, v)])"
    using w'(4) by (simp add: bt_from_def p)
  moreover have "fold_res (\<lambda>(t, v). add_data t v) ((xs @ [p]) @ [(t, v)]) (MaxTimeWindow_new span) = Inr w'"
    unfolding fold_res_append [of _ "xs @ [p]"] using w(1) w'(1) by (simp add: p)
  ultimately show ?case using w'(2,3) by blast
qed

section \<open>Properties\<close>

text \<open>C16: When data arrive at strictly increasing instants, the window reports the maximum of
  exactly the data added during the last span, and never fails.\<close>

theorem max_window_correct:
  assumes "sorted_wrt (<) (map fst (xs @ [(t, v)]))" "\<forall>p \<in> set (xs @ [(t, v)]). span \<le> fst p"
    "length xs + 1 < 4294967296"
  shows "\<exists>w. fold_res (\<lambda>(t, v). add_data t v) (xs @ [(t, v)]) (MaxTimeWindow_new span) = Inr w \<and>
    tw_max w = Some (Max {v'. \<exists>t'. (t', v') \<in> set (xs @ [(t, v)]) \<and> t - span \<le> t'})"
proof -
  obtain w where w: "fold_res (\<lambda>(t, v). add_data t v) (xs @ [(t, v)]) (MaxTimeWindow_new span) = Inr w"
    "tw_ok w" "tw_window w = bt_from (t - span) (xs @ [(t, v)])" using add_data_run [OF assms] by blast
  have "snd ` set (tw_window w) = {v'. \<exists>t'. (t', v') \<in> set (xs @ [(t, v)]) \<and> t - span \<le> t'}"
    unfolding w(3) bt_from_def by force
  moreover have "tw_window w \<noteq> []" by (simp add: w(3) bt_from_def)
  ultimately show ?thesis using tw_max_window [OF w(2)] w(1) by simp
qed

theorem max_window_correct_witness:
  "\<exists>w. fold_res (\<lambda>(t, v). add_data t v) ([(100, 9)] @ [(201, 3 :: nat)]) (MaxTimeWindow_new 100) = Inr w \<and>
     tw_max w = Some 3"
proof -
  have set: "{v'. \<exists>t'. (t', v') \<in> set ([(100, 9)] @ [(201, 3 :: nat)]) \<and> 201 - 100 \<le> (t' :: nat)} = {3}"
    by auto
  have hyps: "sorted_wrt (<) (map fst ([(100 :: nat, 9)] @ [(201, 3 :: nat)]))"
    "\<forall>p \<in> set ([(100 :: nat, 9)] @ [(201, 3 :: nat)]). 100 \<le> fst p"
    "length [(100 :: nat, 9 :: nat)] + 1 < 4294967296" by simp_all
  show ?thesis using max_window_correct [OF hyps] unfolding set by simp
qed

text \<open>Two data at the same instant leave the count of the first one behind: once the window
  is empty, its maximum is still the overwritten value.\<close>

lemma max_window_stale:
  fixes a b :: nat
  assumes "a \<noteq> b" "span \<le> t" "t + span < t'"
  shows "\<exists>w w'. fold_res (\<lambda>(t, v). add_data t v) [(t, a), (t, b)] (MaxTimeWindow_new span) = Inr w \<and>
    time_elapsed t' w = Inr w' \<and> tw_window w' = [] \<and> tw_max w' = Some a"
proof -
  let ?vals = "bt_insert b 1 [(a, 1 :: nat)]"
  let ?w = "\<lparr>tw_window = [(t, b)], tw_values = ?vals, tw_span = span\<rparr>"
  have recent: "\<not> t < t - span" by arith
  have "fold_res (\<lambda>(t, v). add_data t v) [(t, a), (t, b)] (MaxTimeWindow_new span) = Inr ?w"
    using assms(1,2) recent by (simp add: add_data_def time_elapsed_def MaxTimeWindow_new_def bt_below_def)
  moreover have "time_elapsed t' ?w = Inr \<lparr>tw_window = [], tw_values = [(a, 1)], tw_span = span\<rparr>"
    using assms by (auto simp: time_elapsed_def bt_below_def tw_expire_def)
  moreover have "tw_max \<lparr>tw_window = [], tw_values = [(a, 1)], tw_span = span\<rparr> = Some a"
    by (simp add: tw_max_def bt_last_def)
  ultimately show ?thesis by (intro exI conjI) (assumption | rule refl | simp)+
qed

lemma max_window_stale_example:
  "\<exists>w w'. fold_res (\<lambda>(t, v). add_data t v) [(100, 9), (100, 1)] (MaxTimeWindow_new 100) = Inr w \<and>
    time_elapsed 5000 w = Inr w' \<and> tw_window w' = [] \<and> tw_max w' = Some (9 :: nat)"
  by (rule max_window_stale) simp_all

lemma closest_channel_mem: "closest_channel cwnd g gs \<in> insert g (set gs)"
  by (induction cwnd g gs rule: closest_channel.induct) auto

lemma closest_channel_min:
  "\<forall>h \<in> insert g (set gs). abs_diff cwnd (snd (closest_channel cwnd g gs)) \<le> abs_diff cwnd (snd h)"
proof (induction cwnd g gs rule: closest_channel.induct)
  case (2 cwnd c g gs)
  then show ?case by (cases "abs_diff cwnd (snd g) < abs_diff cwnd (snd c)") auto
qed simp

text \<open>The channel that the receiver is told to change to is one of the advertised ones whose
  congestion window is closest to its own, and it is not told to change when it already listens
  to that channel.\<close>

lemma kmeans_closest:
  assumes "cs_received_info cs = Some info" "ci_mc_cwnds info \<noteq> []"
  shows "\<exists>(cid, w) \<in> set (ci_mc_cwnds info).
    (\<forall>(cid', w') \<in> set (ci_mc_cwnds info). abs_diff (ci_cwnd info) w \<le> abs_diff (ci_cwnd info) w') \<and>
    kmeans_should_change_channel cs (Some active) = Inr (if active = cid then None else Some cid)"
proof -
  obtain g gs where g: "ci_mc_cwnds info = g # gs" using assms(2) by (cases "ci_mc_cwnds info") auto
  let ?c = "closest_channel (ci_cwnd info) g (g # gs)"
  have "?c \<in> set (g # gs)" using closest_channel_mem [of "ci_cwnd info" g "g # gs"] by simp
  moreover have "\<forall>(cid', w') \<in> set (g # gs). abs_diff (ci_cwnd info) (snd ?c) \<le> abs_diff (ci_cwnd info) w'"
    using closest_channel_min [of g "g # gs" "ci_cwnd info"] by auto
  moreover have "kmeans_should_change_channel cs (Some active) = Inr (if active = fst ?c then None else Some (fst ?c))"
    using assms(1) g by (simp add: kmeans_should_change_channel_def Let_def)
  ultimately show ?thesis unfolding g by (intro bexI [of _ ?c]) (auto simp: case_prod_unfold)
qed

lemma kmeans_closest_example:
  "kmeans_should_change_channel (FcCongestionState_default 0\<lparr>cs_received_info :=
     Some \<lparr>ci_cwnd = 50, ci_mc_cwnds = [([1], 10), ([2], 60), ([3], 100)], ci_rtt = 1\<rparr>\<rparr>) (Some [1]) = Inr (Some [2])"
  using kmeans_closest [of "FcCongestionState_default 0\<lparr>cs_received_info :=
     Some \<lparr>ci_cwnd = 50, ci_mc_cwnds = [([1], 10), ([2], 60), ([3], 100)], ci_rtt = 1\<rparr>\<rparr>"
     "\<lparr>ci_cwnd = 50, ci_mc_cwnds = [([1], 10), ([2], 60), ([3], 100)], ci_rtt = 1\<rparr>" "[1]"]
  by (auto simp: abs_diff_def)

end
