(* ===== verification/Fc_State.thy ===== *)
theory Fc_State
  imports Fc_Ack Fc_Congestion
begin

text \<open>
  The flexicast state of a connection (\<open>flexicast/mod.rs\<close>, \<open>flexicast/reliable.rs\<close>): the
  attributes, the state machine of the receiver, the channel announcements, joining and leaving,
  and the handlers and senders of the flexicast control frames in \<open>lib.rs\<close>. The record \<open>fc_conn\<close>
  is the part of \<open>Connection\<close> these functions touch. A returned error discards the state, as the
  caller closes the connection. Keys derived from a secret by the crypto library are named by
  the algorithm and the secret they are derived from; \<open>derive\<close> tells whether the derivation
  succeeds.
\<close>

section \<open>Reliability structures\<close>

record rfc_recv =
  rfc_next_path_ack :: "nat option"
  rfc_recv_send_ack :: bool

record rfc_uc_path =
  uc_mc_ack :: mc_ack
  fc_pn_recv :: range_set
  notified_fc_source :: bool
  fc_highest_pn :: "nat option"

record rfc_source =
  src_mc_ack :: mc_ack

datatype reliable_fc = Receiver rfc_recv | UcPath rfc_uc_path | FcFlow rfc_source | ReliableUndefined

definition RFcRecv_default :: rfc_recv where
  "RFcRecv_default = \<lparr>rfc_next_path_ack = None, rfc_recv_send_ack = False\<rparr>"

definition RFcUcPath_default :: "rfc_uc_path result" where
  "RFcUcPath_default = try_bind (new_recv 0 McAck_new) (\<lambda>m. Inr \<lparr>uc_mc_ack = m,
     fc_pn_recv = RangeSet_default, notified_fc_source = False, fc_highest_pn = None\<rparr>)"

definition RFcSource_default :: rfc_source where
  "RFcSource_default = \<lparr>src_mc_ack = McAck_new\<rparr>"

fun reliable_server :: "reliable_fc \<Rightarrow> rfc_uc_path option" where
  "reliable_server (UcPath s) = Some s"
| "reliable_server _ = None"

fun reliable_source :: "reliable_fc \<Rightarrow> rfc_source option" where
  "reliable_source (FcFlow s) = Some s"
| "reliable_source _ = None"

section \<open>Announcements and attributes\<close>

record mc_announce_data =
  an_channel_id :: "byte list"
  an_is_ipv6_addr :: bool
  an_probe_path :: bool
  an_source_ip :: "byte list"
  an_group_ip :: "byte list"
  an_udp_port :: nat
  an_public_key :: "byte list option"
  an_expiration_timer :: nat
  an_is_processed :: bool
  an_bitrate :: "nat option"
  an_secret :: "byte list option"
  an_algo :: "algorithm option"
  an_reset_stream_on_join :: bool
  an_qos :: fc_qos

datatype fc_client_action = Notify | Join | Leave | DecryptionKey | McPath | Change

definition FcClientAction_try_from :: "nat \<Rightarrow> fc_client_action result" where
  "FcClientAction_try_from v =
     (if v = 0 then Inr Notify else if v = 1 then Inr Join else if v = 2 then Inr Leave
      else if v = 3 then Inr DecryptionKey else if v = 4 then Inr McPath
      else if v = 5 then Inr Change else err (Flexicast McInvalidAction))"

fun FcClientAction_try_into :: "fc_client_action \<Rightarrow> nat" where
  "FcClientAction_try_into Notify = 0"
| "FcClientAction_try_into Join = 1"
| "FcClientAction_try_into Leave = 2"
| "FcClientAction_try_into DecryptionKey = 3"
| "FcClientAction_try_into McPath = 4"
| "FcClientAction_try_into Change = 5"

abbreviation (input) LEAVE_FROM_CLIENT :: nat where "LEAVE_FROM_CLIENT \<equiv> 0"
abbreviation (input) LEAVE_FROM_SERVER :: nat where "LEAVE_FROM_SERVER \<equiv> 1"

record flexicast_attributes =
  fa_role :: mc_role
  fa_announce :: "mc_announce_data list"
  fa_crypto_open :: "(algorithm \<times> byte list) option"
  fa_crypto_seal :: "(algorithm \<times> byte list) option"
  fa_key_up_to_date :: bool
  fa_left_need_sync :: bool
  fa_state_in_flight :: bool
  fa_first_pn :: "nat option"
  fa_path_id :: "nat option"
  fa_chan_id :: "(byte list \<times> nat) option"
  fa_reliable :: reliable_fc
  fa_congestion :: fc_congestion_state

definition FlexicastAttributes_default :: "nat \<Rightarrow> flexicast_attributes" where
  "FlexicastAttributes_default now = \<lparr>fa_role = Undefined, fa_announce = [], fa_crypto_open = None,
     fa_crypto_seal = None, fa_key_up_to_date = False, fa_left_need_sync = False,
     fa_state_in_flight = False, fa_first_pn = None, fa_path_id = None, fa_chan_id = None,
     fa_reliable = ReliableUndefined, fa_congestion = FcCongestionState_default now\<rparr>"

text \<open>The macro \<open>fc_chan_idx!\<close>, and lookups of announcements.\<close>

definition fc_chan_idx :: "flexicast_attributes \<Rightarrow> nat result" where
  "fc_chan_idx fa = (case fa_chan_id fa of Some (_, idx) \<Rightarrow> Inr idx | None \<Rightarrow> err (Flexicast FcMcAnnounce))"

definition get_mc_announce_data :: "nat \<Rightarrow> flexicast_attributes \<Rightarrow> mc_announce_data option" where
  "get_mc_announce_data idx fa = (if idx < length (fa_announce fa) then Some (fa_announce fa ! idx) else None)"

definition get_mc_announce_data_active :: "flexicast_attributes \<Rightarrow> mc_announce_data option" where
  "get_mc_announce_data_active fa = (case fa_chan_id fa of
     Some (_, idx) \<Rightarrow> get_mc_announce_data idx fa | None \<Rightarrow> None)"

fun position :: "('a \<Rightarrow> bool) \<Rightarrow> 'a list \<Rightarrow> nat option" where
  "position P [] = None"
| "position P (x # xs) = (if P x then Some 0 else map_option Suc (position P xs))"

definition get_mc_announce_data_index :: "byte list \<Rightarrow> flexicast_attributes \<Rightarrow> nat option" where
  "get_mc_announce_data_index cid fa = position (\<lambda>a. an_channel_id a = cid) (fa_announce fa)"

text \<open>\<open>Vec\<close> indexing panics outside the vector.\<close>

definition announce_at :: "nat \<Rightarrow> flexicast_attributes \<Rightarrow> mc_announce_data result" where
  "announce_at idx fa = (case get_mc_announce_data idx fa of Some a \<Rightarrow> Inr a | None \<Rightarrow> panic)"

definition set_announce :: "nat \<Rightarrow> mc_announce_data \<Rightarrow> flexicast_attributes \<Rightarrow> flexicast_attributes" where
  "set_announce idx a fa = fa\<lparr>fa_announce := (fa_announce fa)[idx := a]\<rparr>"

section \<open>The state machine\<close>

text \<open>The match of \<open>update_client_state\<close>: the new status, with the attributes its arms write.\<close>

definition leave_status ::
  "bool \<Rightarrow> nat option \<Rightarrow> flexicast_attributes \<Rightarrow> (mc_client_status \<times> flexicast_attributes) result" where
  "leave_status is_server action_data fa = (case action_data of
     None \<Rightarrow> err (Flexicast McInvalidAction)
   | Some leaving_from \<Rightarrow>
       if leaving_from = LEAVE_FROM_CLIENT then
         (if is_server then Inr (AwareUnjoined, fa\<lparr>fa_left_need_sync := True\<rparr>) else Inr (Leaving False, fa))
       else if leaving_from = LEAVE_FROM_SERVER then
         (if is_server then Inr (Leaving False, fa\<lparr>fa_left_need_sync := True\<rparr>) else Inr (AwareUnjoined, fa))
       else err (Flexicast McInvalidAction))"

definition path_status ::
  "mc_client_status \<Rightarrow> nat option \<Rightarrow> flexicast_attributes \<Rightarrow> (mc_client_status \<times> flexicast_attributes) result" where
  "path_status current action_data fa = (case action_data of
     Some pid \<Rightarrow> Inr (ListenMcPath True, fa\<lparr>fa_path_id := Some pid\<rparr>) | None \<Rightarrow> Inr (current, fa))"

definition next_status ::
  "bool \<Rightarrow> mc_client_status \<Rightarrow> fc_client_action \<Rightarrow> nat option \<Rightarrow> flexicast_attributes \<Rightarrow>
     (mc_client_status \<times> flexicast_attributes) result" where
  "next_status is_server current action action_data fa = (case (current, action) of
     (Unaware, Notify) \<Rightarrow> Inr (AwareUnjoined, fa)
   | (AwareUnjoined, Join) \<Rightarrow>
       if is_server then try_bind RFcUcPath_default (\<lambda>u.
         Inr (JoinedNoKey, fa\<lparr>fa_reliable := UcPath u, fa_congestion := congestion_reset (fa_congestion fa)\<rparr>))
       else Inr (WaitingToJoin, fa)
   | (Unaware, Join) \<Rightarrow>
       if is_server then try_bind (announce_at 0 fa) (\<lambda>a.
         Inr (if an_is_processed a then JoinedNoKey else current, fa))
       else Inr (current, fa)
   | (WaitingToJoin, Join) \<Rightarrow> Inr (JoinedNoKey, fa)
   | (JoinedNoKey, DecryptionKey) \<Rightarrow> Inr (JoinedAndKey, fa)
   | (WaitingToJoin, DecryptionKey) \<Rightarrow>
       Inr (if is_server \<longrightarrow> fa_key_up_to_date fa then JoinedAndKey else current, fa)
   | (ListenMcPath _, Leave) \<Rightarrow> leave_status is_server action_data fa
   | (Leaving _, Leave) \<Rightarrow> Inr (AwareUnjoined, fa)
   | (JoinedAndKey, McPath) \<Rightarrow> path_status current action_data fa
   | (JoinedNoKey, McPath) \<Rightarrow> if is_server then path_status current action_data fa else Inr (current, fa)
   | (ListenMcPath True, Change) \<Rightarrow> (case action_data of
         Some pid \<Rightarrow> Inr (Changing, fa\<lparr>fa_key_up_to_date := False, fa_path_id := Some pid\<rparr>)
       | None \<Rightarrow> Inr (current, fa))
   | (Changing, DecryptionKey) \<Rightarrow> Inr (ListenMcPath True, fa)
   | (AwareUnjoined, Leave) \<Rightarrow> Inr (AwareUnjoined, fa)
   | _ \<Rightarrow> Inr (current, fa))"

fun listening_or_leaving :: "mc_client_status \<Rightarrow> bool" where
  "listening_or_leaving (Leaving _) = True"
| "listening_or_leaving (ListenMcPath _) = True"
| "listening_or_leaving _ = False"

definition update_status ::
  "bool \<Rightarrow> mc_client_status \<Rightarrow> fc_client_action \<Rightarrow> nat option \<Rightarrow> flexicast_attributes \<Rightarrow>
     (mc_client_status \<times> flexicast_attributes) result" where
  "update_status is_server current action action_data fa =
     try_bind (next_status is_server current action action_data fa) (\<lambda>(new, fa1). let
       fa2 = (if action = Leave \<and> is_server then fa1\<lparr>fa_key_up_to_date := False\<rparr> else fa1);
       fa3 = (if new = AwareUnjoined \<and> listening_or_leaving current then fa2\<lparr>fa_path_id := None\<rparr> else fa2)
     in Inr (new, fa3\<lparr>fa_role := (if is_server then ServerUnicast new else Client new)\<rparr>))"

definition update_client_state ::
  "fc_client_action \<Rightarrow> nat option \<Rightarrow> flexicast_attributes \<Rightarrow> (mc_client_status \<times> flexicast_attributes) result" where
  "update_client_state action action_data fa = (case fa_role fa of
     Client status \<Rightarrow> update_status False status action action_data fa
   | ServerUnicast status \<Rightarrow> update_status True status action action_data fa
   | _ \<Rightarrow> err (Flexicast (McInvalidRole (fa_role fa))))"

section \<open>What has to be sent, and the channel key\<close>

definition should_send_fc_state :: "flexicast_attributes \<Rightarrow> bool" where
  "should_send_fc_state fa \<longleftrightarrow> \<not> fa_state_in_flight fa \<and> (case fa_role fa of
     Client WaitingToJoin \<Rightarrow> True
   | Client JoinedAndKey \<Rightarrow> fa_path_id fa \<noteq> None
   | Client (Leaving False) \<Rightarrow> True
   | Client Changing \<Rightarrow> True
   | ServerUnicast (Leaving False) \<Rightarrow> True
   | _ \<Rightarrow> False)"

definition key_wanted :: "flexicast_attributes \<Rightarrow> bool" where
  "key_wanted fa \<longleftrightarrow> \<not> fa_key_up_to_date fa \<and> (case fa_role fa of
     ServerUnicast JoinedAndKey \<Rightarrow> True
   | ServerUnicast (ListenMcPath _) \<Rightarrow> True
   | ServerUnicast Changing \<Rightarrow> True
   | ServerUnicast JoinedNoKey \<Rightarrow> True
   | _ \<Rightarrow> False)"

definition should_send_fc_key :: "flexicast_attributes \<Rightarrow> bool result" where
  "should_send_fc_key fa = (case fa_chan_id fa of
     Some (_, idx) \<Rightarrow> try_bind (announce_at idx fa) (\<lambda>a.
       Inr (an_secret a \<noteq> None \<and> key_wanted fa))
   | None \<Rightarrow> Inr (key_wanted fa))"

definition set_mc_key_read :: "bool \<Rightarrow> flexicast_attributes \<Rightarrow> flexicast_attributes" where
  "set_mc_key_read v fa = fa\<lparr>fa_key_up_to_date := v\<rparr>"

definition set_mc_state_in_flight :: "bool \<Rightarrow> flexicast_attributes \<Rightarrow> flexicast_attributes" where
  "set_mc_state_in_flight v fa = fa\<lparr>fa_state_in_flight := v\<rparr>"

definition set_fc_path_id :: "nat \<Rightarrow> flexicast_attributes \<Rightarrow> flexicast_attributes" where
  "set_fc_path_id pid fa = fa\<lparr>fa_path_id := Some pid\<rparr>"

definition get_decryption_key_secret :: "flexicast_attributes \<Rightarrow> byte list result" where
  "get_decryption_key_secret fa =
     (if fa_role fa = ServerUnicast JoinedNoKey \<or> fa_role fa = ServerUnicast Changing then
        try_bind (fc_chan_idx fa) (\<lambda>idx. try_bind (announce_at idx fa) (\<lambda>a.
          case an_secret a of Some k \<Rightarrow> Inr k | None \<Rightarrow> err (Flexicast McInvalidSymKey)))
      else err (Flexicast (McInvalidRole (fa_role fa))))"

definition get_decryption_key_algo :: "flexicast_attributes \<Rightarrow> algorithm result" where
  "get_decryption_key_algo fa =
     try_bind (announce_at (case fa_chan_id fa of Some (_, idx) \<Rightarrow> idx | None \<Rightarrow> 0) fa) (\<lambda>a.
       Inr (case an_algo a of Some algo \<Rightarrow> algo | None \<Rightarrow> AES128_GCM))"

definition set_decryption_key_secret ::
  "(algorithm \<Rightarrow> byte list \<Rightarrow> bool) \<Rightarrow> byte list \<Rightarrow> algorithm \<Rightarrow> flexicast_attributes \<Rightarrow>
     flexicast_attributes result" where
  "set_decryption_key_secret derive key algo fa =
     (if fa_role fa \<in> {Client JoinedNoKey, Client WaitingToJoin, Client Changing} then
        (if derive algo key then
           try_bind (fc_chan_idx fa) (\<lambda>idx. try_bind (announce_at idx fa) (\<lambda>a.
             Inr (set_announce idx (a\<lparr>an_secret := Some key, an_algo := Some algo\<rparr>)
               (fa\<lparr>fa_crypto_open := Some (algo, key), fa_crypto_seal := Some (algo, key)\<rparr>))))
         else err CryptoFail)
      else err (Flexicast (McInvalidRole (fa_role fa))))"

text \<open>\<open>set_fc_path_id_from_addr\<close>: the local address against the announced groups.\<close>

definition set_fc_path_id_from_addr ::
  "byte list \<Rightarrow> nat \<Rightarrow> nat \<Rightarrow> flexicast_attributes \<Rightarrow> flexicast_attributes result" where
  "set_fc_path_id_from_addr ip port pid fa =
     (if \<exists>a \<in> set (fa_announce fa). an_group_ip a = ip \<and> an_udp_port a = port
      then Inr (set_fc_path_id pid fa) else err (Flexicast FcMcPath))"

section \<open>The connection\<close>

record fc_conn =
  fcc_is_server :: bool
  fcc_support :: bool
  fcc_handshake_completed :: bool
  fcc_info_delay :: nat
  fcc_throughput_window :: nat
  fcc_flexicast :: "flexicast_attributes option"

definition fca :: "fc_conn \<Rightarrow> flexicast_attributes result" where
  "fca c = (case fcc_flexicast c of Some fa \<Rightarrow> Inr fa | None \<Rightarrow> err (Flexicast McDisabled))"

definition put_fca :: "flexicast_attributes \<Rightarrow> fc_conn \<Rightarrow> fc_conn" where
  "put_fca fa c = c\<lparr>fcc_flexicast := Some fa\<rparr>"

definition fc_should_send_fc_announce :: "fc_conn \<Rightarrow> nat option" where
  "fc_should_send_fc_announce c =
     (if fcc_is_server c \<and> fcc_support c then (case fcc_flexicast c of
        Some fa \<Rightarrow> if fa_role fa = ServerUnicast Unaware
          then position (\<lambda>a. \<not> an_is_processed a) (fa_announce fa) else None
      | None \<Rightarrow> None)
      else None)"

definition fc_set_announce_data :: "nat \<Rightarrow> mc_announce_data \<Rightarrow> fc_conn \<Rightarrow> fc_conn result" where
  "fc_set_announce_data now a c =
     (if fcc_is_server c \<and> \<not> fcc_support c then err (Flexicast McDisabled)
      else (case fcc_flexicast c of
        Some fa \<Rightarrow> Inr (put_fca (fa\<lparr>fa_announce := fa_announce fa @ [a],
          fa_reliable := (if fa_role fa = ServerFlexicast \<and> fa_reliable fa = ReliableUndefined
            then FcFlow RFcSource_default else fa_reliable fa)\<rparr>) c)
      | None \<Rightarrow>
          try_bind (if fcc_is_server c then try_bind RFcUcPath_default (\<lambda>u. Inr (UcPath u))
              else Inr (Receiver RFcRecv_default)) (\<lambda>rel.
            Inr (put_fca ((FlexicastAttributes_default now)\<lparr>
              fa_role := (if fcc_is_server c then ServerUnicast Unaware else Client AwareUnjoined),
              fa_announce := [a\<lparr>an_is_processed := \<not> fcc_is_server c\<rparr>],
              fa_reliable := rel,
              fa_congestion := FcCongestionState_new (fcc_info_delay c) (fcc_throughput_window c) now\<rparr>) c))))"

definition mc_set_flexicast_receiver ::
  "(algorithm \<Rightarrow> byte list \<Rightarrow> bool) \<Rightarrow> byte list \<Rightarrow> nat \<Rightarrow> algorithm \<Rightarrow> nat option \<Rightarrow> fc_conn \<Rightarrow> fc_conn result" where
  "mc_set_flexicast_receiver derive secret path_id algo announce_id c =
     try_bind (fca c) (\<lambda>fa. case fa_role fa of
       Client WaitingToJoin \<Rightarrow>
         try_bind (fc_chan_idx fa) (\<lambda>idx. try_bind (announce_at idx fa) (\<lambda>a.
           let algo = (case an_algo a of Some algo \<Rightarrow> algo | None \<Rightarrow> AES128_GCM) in
           if derive algo secret then
             Inr (put_fca (fa\<lparr>fa_crypto_open := Some (algo, secret), fa_crypto_seal := Some (algo, secret)\<rparr>)
               (c\<lparr>fcc_handshake_completed := True\<rparr>))
           else panic))
     | ServerUnicast _ \<Rightarrow>
         try_bind (case announce_id of Some idx \<Rightarrow> Inr idx | None \<Rightarrow> fc_chan_idx fa) (\<lambda>idx.
         try_bind (announce_at idx fa) (\<lambda>a.
           Inr (put_fca ((set_announce idx (a\<lparr>an_secret := Some secret, an_algo := Some algo\<rparr>) fa)
             \<lparr>fa_path_id := Some path_id\<rparr>) c)))
     | _ \<Rightarrow> err (Flexicast (McInvalidRole (fa_role fa))))"

definition mc_join_channel :: "byte list option \<Rightarrow> fc_conn \<Rightarrow> (mc_client_status \<times> fc_conn) result" where
  "mc_join_channel fc_chan_id c =
     try_bind (fca c) (\<lambda>fa.
       if (case fa_role fa of Client AwareUnjoined \<Rightarrow> True | Client (Leaving _) \<Rightarrow> True | _ \<Rightarrow> False) then
         try_bind (case fc_chan_id of
             Some cid \<Rightarrow> (case get_mc_announce_data_index cid fa of
                 Some idx \<Rightarrow> Inr (cid, idx) | None \<Rightarrow> err (Flexicast FcMcAnnounce))
           | None \<Rightarrow> try_bind (announce_at 0 fa) (\<lambda>a. Inr (an_channel_id a, 0))) (\<lambda>chan.
         try_bind (update_client_state Join None
             (fa\<lparr>fa_chan_id := Some chan, fa_reliable := Receiver RFcRecv_default\<rparr>)) (\<lambda>(status, fa').
           Inr (status, put_fca fa' c)))
       else err (Flexicast (McInvalidRole (fa_role fa))))"

definition mc_leave_channel :: "fc_conn \<Rightarrow> (mc_client_status \<times> fc_conn) result" where
  "mc_leave_channel c =
     try_bind (fca c) (\<lambda>fa.
       if (case fa_role fa of Client (ListenMcPath _) \<Rightarrow> True | ServerUnicast (ListenMcPath _) \<Rightarrow> True
           | _ \<Rightarrow> False) then
         try_bind (update_client_state Leave
             (Some (if fcc_is_server c then LEAVE_FROM_SERVER else LEAVE_FROM_CLIENT)) fa) (\<lambda>(status, fa').
           Inr (status, put_fca fa' c))
       else err (Flexicast (McInvalidRole (fa_role fa))))"

definition is_mc_path :: "nat \<Rightarrow> fc_conn \<Rightarrow> bool" where
  "is_mc_path space_id c = (case fcc_flexicast c of
     Some fa \<Rightarrow> fa_path_id fa = Some space_id | None \<Rightarrow> False)"

definition fc_set_path_id :: "nat option \<Rightarrow> fc_conn \<Rightarrow> fc_conn result" where
  "fc_set_path_id pid c = try_bind (fca c) (\<lambda>fa. Inr (put_fca (fa\<lparr>fa_path_id := pid\<rparr>) c))"

definition fc_set_first_pn :: "nat option \<Rightarrow> fc_conn \<Rightarrow> fc_conn" where
  "fc_set_first_pn pn c = (case fcc_flexicast c of
     Some fa \<Rightarrow> put_fca (fa\<lparr>fa_first_pn := pn\<rparr>) c | None \<Rightarrow> c)"

section \<open>Received control frames\<close>

text \<open>The arms of \<open>process_frame\<close> for \<open>MC_ANNOUNCE\<close>, \<open>MC_STATE\<close>, \<open>MC_KEY\<close> and the congestion
  information. \<open>new_path\<close> is the outcome of \<open>create_mc_path\<close>, which belongs to the path manager;
  the packet number space to prepare for a key is the second result of \<open>recv_mc_key\<close>.\<close>

definition recv_mc_announce ::
  "nat \<Rightarrow> byte list \<Rightarrow> nat \<Rightarrow> nat \<Rightarrow> nat \<Rightarrow> byte list \<Rightarrow> byte list \<Rightarrow> nat \<Rightarrow> nat \<Rightarrow> byte list \<Rightarrow> nat option \<Rightarrow> fc_qos \<Rightarrow>
     fc_conn \<Rightarrow> fc_conn result" where
  "recv_mc_announce now cid v6 probe rst sip gip port timer key bitrate qos c =
     (if fcc_is_server c then err InvalidFrame
      else fc_set_announce_data now \<lparr>an_channel_id = cid, an_is_ipv6_addr = (v6 = 1),
        an_probe_path = (probe = 1), an_source_ip = sip, an_group_ip = gip, an_udp_port = port,
        an_public_key = (if key = [] then None else Some key), an_expiration_timer = timer,
        an_is_processed = True, an_bitrate = bitrate, an_secret = None, an_algo = None,
        an_reset_stream_on_join = (rst = 1), an_qos = qos\<rparr> c)"

definition recv_mc_state ::
  "nat result \<Rightarrow> byte list \<Rightarrow> nat \<Rightarrow> nat \<Rightarrow> fc_conn \<Rightarrow> fc_conn result" where
  "recv_mc_state new_path cid action action_data c =
     try_bind (fca c) (\<lambda>fa.
     try_bind (FcClientAction_try_from action) (\<lambda>act.
     try_bind (update_client_state act (Some action_data) fa) (\<lambda>(_, fa1).
       case get_mc_announce_data_index cid fa1 of
         None \<Rightarrow> err (Flexicast FcMcAnnounce)
       | Some idx \<Rightarrow>
           let fa2 = fa1\<lparr>fa_chan_id := Some (cid, idx)\<rparr> in
           if (case fa_role fa2 of ServerUnicast _ \<Rightarrow> True | _ \<Rightarrow> False) \<and> act = Join \<and>
              (case get_mc_announce_data idx fa2 of Some a \<Rightarrow> \<not> an_probe_path a | None \<Rightarrow> False) then
             try_bind new_path (\<lambda>pid. Inr (put_fca (set_fc_path_id pid fa2) c))
           else Inr (put_fca fa2 c))))"

definition recv_mc_key ::
  "(algorithm \<Rightarrow> byte list \<Rightarrow> bool) \<Rightarrow> byte list \<Rightarrow> algorithm \<Rightarrow> nat \<Rightarrow> fc_conn \<Rightarrow>
     (fc_conn \<times> (nat \<times> nat) option) result" where
  "recv_mc_key derive key algo first_pn c =
     (if fcc_is_server c then err (Flexicast (McInvalidRole (ServerUnicast Unspecified)))
      else (case fcc_flexicast c of
        None \<Rightarrow> err (Flexicast McInvalidSymKey)
      | Some fa \<Rightarrow>
          try_bind (set_decryption_key_secret derive key algo fa) (\<lambda>fa1.
          try_bind (update_client_state DecryptionKey None fa1) (\<lambda>(_, fa2).
            Inr (put_fca fa2 c, map_option (\<lambda>pid. (pid, first_pn)) (fa_path_id fa2))))))"

definition recv_congestion_info :: "fc_congestion_info \<Rightarrow> fc_conn \<Rightarrow> fc_conn" where
  "recv_congestion_info info c = (case fcc_flexicast c of
     Some fa \<Rightarrow> put_fca (fa\<lparr>fa_congestion := (fa_congestion fa)\<lparr>cs_received_info := Some info\<rparr>\<rparr>) c
   | None \<Rightarrow> c)"

section \<open>Acknowledged and lost control frames\<close>

definition acked_mc_announce :: "byte list \<Rightarrow> fc_conn \<Rightarrow> fc_conn result" where
  "acked_mc_announce cid c = (case fcc_flexicast c of
     None \<Rightarrow> Inr c
   | Some fa \<Rightarrow> (case get_mc_announce_data_index cid fa of
         None \<Rightarrow> Inr c
       | Some _ \<Rightarrow> try_bind (update_client_state Notify None fa) (\<lambda>(_, fa'). Inr (put_fca fa' c))))"

text \<open>Every arm but the first runs the action again.\<close>

definition acked_mc_state :: "nat \<Rightarrow> nat \<Rightarrow> fc_conn \<Rightarrow> fc_conn result" where
  "acked_mc_state action action_data c = (case fcc_flexicast c of
     None \<Rightarrow> Inr c
   | Some fa \<Rightarrow>
       let fa1 = set_mc_state_in_flight False fa in
       if fa_role fa1 = Client (ListenMcPath True) \<and> action = FcClientAction_try_into Change
       then Inr (put_fca fa1 c)
       else try_bind (FcClientAction_try_from action) (\<lambda>act.
         try_bind (update_client_state act (Some action_data) fa1) (\<lambda>(_, fa2). Inr (put_fca fa2 c))))"

definition acked_mc_key :: "fc_conn \<Rightarrow> fc_conn result" where
  "acked_mc_key c = (case fcc_flexicast c of
     None \<Rightarrow> Inr c
   | Some fa \<Rightarrow> try_bind (update_client_state DecryptionKey None (set_mc_key_read True fa)) (\<lambda>(_, fa').
       Inr (put_fca fa' c)))"

definition lost_mc_announce :: "byte list \<Rightarrow> fc_conn \<Rightarrow> fc_conn" where
  "lost_mc_announce cid c = (case fcc_flexicast c of
     None \<Rightarrow> c
   | Some fa \<Rightarrow> (case get_mc_announce_data_index cid fa of
         None \<Rightarrow> c
       | Some idx \<Rightarrow> put_fca (set_announce idx ((fa_announce fa ! idx)\<lparr>an_is_processed := False\<rparr>) fa) c))"

definition lost_mc_key :: "fc_conn \<Rightarrow> fc_conn" where
  "lost_mc_key c = (case fcc_flexicast c of
     None \<Rightarrow> c | Some fa \<Rightarrow> put_fca (set_mc_key_read False fa) c)"

definition lost_mc_state :: "fc_conn \<Rightarrow> fc_conn" where
  "lost_mc_state c = (case fcc_flexicast c of
     None \<Rightarrow> c | Some fa \<Rightarrow> put_fca (set_mc_state_in_flight False fa) c)"

end
