(* ===== verification/Fc_Send.thy ===== *)
theory Fc_Send
  imports Fc_State
begin

text \<open>
  The part of \<open>Connection::send_single\<close> that puts the flexicast control frames in a packet: the
  macro \<open>push_frame_to_pkt!\<close>, the loop over the announcements, and the frames for the state, the
  key and the congestion information. The loop over the announcements does not leave when a
  frame does not fit, so it is a partial function: \<open>None\<close> means that it never returns.
\<close>

section \<open>The packet being assembled\<close>

record pkt_build =
  pk_b :: octets
  pk_frames :: "frame list"
  pk_left :: nat
  pk_ack_eliciting :: bool
  pk_in_flight :: bool
  pk_has_data :: bool

definition push_frame_to_pkt :: "frame \<Rightarrow> pkt_build \<Rightarrow> (bool \<times> pkt_build) result" where
  "push_frame_to_pkt f p =
     try_bind (wire_len f) (\<lambda>n.
       if n \<le> pk_left p then
         try_bind (Frame_to_bytes f (pk_b p)) (\<lambda>(_, b).
           Inr (True, p\<lparr>pk_b := b, pk_frames := pk_frames p @ [f], pk_left := pk_left p - n\<rparr>))
       else Inr (False, p))"

definition eliciting :: "pkt_build \<Rightarrow> pkt_build" where
  "eliciting p = p\<lparr>pk_ack_eliciting := True, pk_in_flight := True\<rparr>"

section \<open>Announcements\<close>

definition announce_frame :: "mc_announce_data \<Rightarrow> frame" where
  "announce_frame a = McAnnounce (an_channel_id a) (if an_is_ipv6_addr a then 1 else 0)
     (if an_probe_path a then 1 else 0) (if an_reset_stream_on_join a then 1 else 0)
     (an_source_ip a) (an_group_ip a) (an_udp_port a) (an_expiration_timer a)
     (case an_public_key a of Some k \<Rightarrow> k | None \<Rightarrow> []) (an_bitrate a) (an_qos a)"

definition mark_announced :: "nat \<Rightarrow> mc_announce_data \<Rightarrow> flexicast_attributes \<Rightarrow> fc_conn \<Rightarrow> fc_conn" where
  "mark_announced idx a fa c = put_fca (set_announce idx (a\<lparr>an_is_processed := True\<rparr>) fa) c"

partial_function (option) send_fc_announce ::
  "fc_conn \<Rightarrow> pkt_build \<Rightarrow> (fc_conn \<times> pkt_build) result option" where
  [code]: "send_fc_announce c p = (case fc_should_send_fc_announce c of
     None \<Rightarrow> Some (Inr (c, p))
   | Some idx \<Rightarrow> (case fcc_flexicast c of
       None \<Rightarrow> Some (err (Flexicast McDisabled))
     | Some fa \<Rightarrow> (case get_mc_announce_data idx fa of
         None \<Rightarrow> Some (err (Flexicast McDisabled))
       | Some a \<Rightarrow> (case push_frame_to_pkt (announce_frame a) p of
           Inl f \<Rightarrow> Some (Inl f)
         | Inr (pushed, p') \<Rightarrow>
             if pushed then send_fc_announce (mark_announced idx a fa c) (eliciting p')
             else send_fc_announce c p'))))"

section \<open>State and key\<close>

definition mc_state_frame :: "flexicast_attributes \<Rightarrow> frame result" where
  "mc_state_frame fa =
     try_bind (case fa_role fa of
         Client WaitingToJoin \<Rightarrow> Inr (Join, None)
       | Client JoinedAndKey \<Rightarrow> Inr (McPath, fa_path_id fa)
       | Client (Leaving False) \<Rightarrow> Inr (Leave, None)
       | ServerUnicast (Leaving False) \<Rightarrow> Inr (Leave, None)
       | Client Changing \<Rightarrow> Inr (Change, fa_path_id fa)
       | _ \<Rightarrow> err (Flexicast (McInvalidRole (fa_role fa)))) (\<lambda>(action, action_data).
       case get_mc_announce_data_active fa of
         None \<Rightarrow> err (Flexicast FcMcAnnounce)
       | Some a \<Rightarrow> Inr (McState (an_channel_id a) (FcClientAction_try_into action)
           (case action_data of Some d \<Rightarrow> d | None \<Rightarrow> 0)))"

definition send_mc_state :: "fc_conn \<Rightarrow> pkt_build \<Rightarrow> (fc_conn \<times> pkt_build) result" where
  "send_mc_state c p = (case fcc_flexicast c of
     None \<Rightarrow> Inr (c, p)
   | Some fa \<Rightarrow>
       if should_send_fc_state fa then
         try_bind (mc_state_frame fa) (\<lambda>f.
         try_bind (push_frame_to_pkt f p) (\<lambda>(pushed, p').
           if pushed then Inr (put_fca (set_mc_state_in_flight True fa) c,
             (eliciting p')\<lparr>pk_has_data := True\<rparr>)
           else Inr (c, p')))
       else Inr (c, p))"

definition mc_key_frame :: "flexicast_attributes \<Rightarrow> frame result" where
  "mc_key_frame fa = (case get_mc_announce_data_active fa of
     None \<Rightarrow> err (Flexicast FcMcAnnounce)
   | Some a \<Rightarrow>
       try_bind (get_decryption_key_secret fa) (\<lambda>key.
       try_bind (get_decryption_key_algo fa) (\<lambda>algo.
         Inr (McKey (an_channel_id a) key algo (case fa_first_pn fa of Some pn \<Rightarrow> pn | None \<Rightarrow> 0)))))"

definition send_mc_key :: "fc_conn \<Rightarrow> pkt_build \<Rightarrow> (fc_conn \<times> pkt_build) result" where
  "send_mc_key c p = (case fcc_flexicast c of
     None \<Rightarrow> Inr (c, p)
   | Some fa \<Rightarrow>
       try_bind (should_send_fc_key fa) (\<lambda>send.
       if send then
         try_bind (mc_key_frame fa) (\<lambda>f.
         try_bind (push_frame_to_pkt f p) (\<lambda>(pushed, p').
           if pushed then Inr (put_fca (set_mc_key_read True fa) c, eliciting p')
           else Inr (c, p')))
       else Inr (c, p)))"

definition send_congestion_info :: "nat \<Rightarrow> nat \<Rightarrow> fc_conn \<Rightarrow> pkt_build \<Rightarrow> (fc_conn \<times> pkt_build) result" where
  "send_congestion_info now now' c p = (case fcc_flexicast c of
     None \<Rightarrow> Inr (c, p)
   | Some fa \<Rightarrow>
       if should_send_congestion_info now (fa_congestion fa) then
         try_bind (get_congestion_info (fa_congestion fa)) (\<lambda>info.
         try_bind (push_frame_to_pkt (FcCongestionInfo info) p) (\<lambda>(pushed, p').
           if pushed then
             Inr (put_fca (fa\<lparr>fa_congestion := sending_congestion_info now' (fa_congestion fa)\<rparr>) c, p')
           else Inr (c, p')))
       else Inr (c, p))"

definition fc_has_control_data :: "nat \<Rightarrow> fc_conn \<Rightarrow> bool result" where
  "fc_has_control_data now c = (case fcc_flexicast c of
     None \<Rightarrow> Inr False
   | Some fa \<Rightarrow>
       if fc_should_send_fc_announce c \<noteq> None \<or> should_send_fc_state fa then Inr True
       else try_bind (should_send_fc_key fa) (\<lambda>key.
         Inr (key \<or> should_send_congestion_info now (fa_congestion fa))))"

section \<open>The announcement loop\<close>

definition unannounced :: "fc_conn \<Rightarrow> mc_announce_data list" where
  "unannounced c = (case fcc_flexicast c of
     Some fa \<Rightarrow> filter (\<lambda>a. \<not> an_is_processed a) (fa_announce fa) | None \<Rightarrow> [])"

lemma position_SomeD:
  "position P xs = Some i \<Longrightarrow> i < length xs \<and> P (xs ! i) \<and>
     filter P xs = xs ! i # filter P (drop (Suc i) xs) \<and> filter P (take i xs) = []"
  by (induction xs arbitrary: i) (auto split: if_splits)

lemma position_None: "position P xs = None \<longleftrightarrow> filter P xs = []"
  by (induction xs) auto

lemma should_announce_Some:
  assumes "fc_should_send_fc_announce c = Some idx"
  shows "\<exists>fa. fcc_flexicast c = Some fa \<and> get_mc_announce_data idx fa = Some (hd (unannounced c)) \<and>
    unannounced c \<noteq> [] \<and> fc_should_send_fc_announce (mark_announced idx (hd (unannounced c)) fa c) =
      position (\<lambda>a. \<not> an_is_processed a) ((fa_announce fa)[idx := hd (unannounced c)\<lparr>an_is_processed := True\<rparr>]) \<and>
    unannounced (mark_announced idx (hd (unannounced c)) fa c) = tl (unannounced c)"
proof -
  obtain fa where fa: "fcc_flexicast c = Some fa" "fcc_is_server c" "fcc_support c"
    "fa_role fa = ServerUnicast Unaware" "position (\<lambda>a. \<not> an_is_processed a) (fa_announce fa) = Some idx"
    using assms by (auto simp: fc_should_send_fc_announce_def split: if_splits option.splits)
  let ?xs = "fa_announce fa" and ?P = "\<lambda>a. \<not> an_is_processed a"
  note pos = position_SomeD [OF fa(5)]
  let ?a = "(?xs ! idx)\<lparr>an_is_processed := True\<rparr>"
  have un: "unannounced c = ?xs ! idx # filter ?P (drop (Suc idx) ?xs)"
    using pos fa(1) by (simp add: unannounced_def)
  have upd: "?xs[idx := ?a] = take idx ?xs @ ?a # drop (Suc idx) ?xs"
    using pos by (simp add: upd_conv_take_nth_drop)
  have "filter ?P (?xs[idx := ?a]) = filter ?P (drop (Suc idx) ?xs)"
    unfolding upd using pos by simp
  then show ?thesis
    using fa pos un by (auto simp: mark_announced_def put_fca_def set_announce_def
        fc_should_send_fc_announce_def get_mc_announce_data_def unannounced_def)
qed

lemma push_frame_fits:
  "wire_len f = Inr n \<Longrightarrow> n \<le> pk_left p \<Longrightarrow> push_frame_to_pkt f p = Inr (ok, p') \<Longrightarrow>
   ok \<and> pk_frames p' = pk_frames p @ [f] \<and> pk_left p' = pk_left p - n"
  by (auto simp: push_frame_to_pkt_def)

text \<open>The predicted length of an announcement.\<close>

definition announce_len :: "mc_announce_data \<Rightarrow> nat" where
  "announce_len a = (case wire_len (announce_frame a) of Inr n \<Rightarrow> n | Inl _ \<Rightarrow> 0)"

lemma send_fc_announce_fits:
  "fc_should_send_fc_announce c = position (\<lambda>a. \<not> an_is_processed a) (case fcc_flexicast c of Some fa \<Rightarrow> fa_announce fa | None \<Rightarrow> []) \<Longrightarrow>
   \<forall>a \<in> set (unannounced c). wire_len (announce_frame a) = Inr (announce_len a) \<Longrightarrow>
   sum_list (map announce_len (unannounced c)) \<le> pk_left p \<Longrightarrow>
   \<exists>r. send_fc_announce c p = Some r \<and> (\<forall>c' p'. r = Inr (c', p') \<longrightarrow>
     pk_frames p' = pk_frames p @ map announce_frame (unannounced c) \<and> unannounced c' = [])"
proof (induction "length (unannounced c)" arbitrary: c p)
  case 0
  then have "fc_should_send_fc_announce c = None"
    by (auto simp: unannounced_def position_None split: option.splits)
  then have "send_fc_announce c p = Some (Inr (c, p))" by (subst send_fc_announce.simps) simp
  with 0(1) show ?case by simp
next
  case (Suc k)
  then have "fc_should_send_fc_announce c \<noteq> None"
    by (auto simp: unannounced_def position_None split: option.splits)
  then obtain idx where idx: "fc_should_send_fc_announce c = Some idx" by blast
  let ?a = "hd (unannounced c)"
  obtain fa where fa: "fcc_flexicast c = Some fa" "get_mc_announce_data idx fa = Some ?a"
    "unannounced c \<noteq> []" "fc_should_send_fc_announce (mark_announced idx ?a fa c) =
      position (\<lambda>a. \<not> an_is_processed a) ((fa_announce fa)[idx := ?a\<lparr>an_is_processed := True\<rparr>])"
    "unannounced (mark_announced idx ?a fa c) = tl (unannounced c)"
    using should_announce_Some [OF idx] by blast
  have un: "unannounced c = ?a # tl (unannounced c)" using fa(3) by simp
  have "announce_len ?a + sum_list (map announce_len (tl (unannounced c))) \<le> pk_left p"
    using Suc.prems(3) by (subst (asm) un) simp
  then have len: "wire_len (announce_frame ?a) = Inr (announce_len ?a)" "announce_len ?a \<le> pk_left p"
    "sum_list (map announce_len (tl (unannounced c))) \<le> pk_left p - announce_len ?a"
    using Suc.prems(2) fa(3) by simp_all
  have step: "send_fc_announce c p = (case push_frame_to_pkt (announce_frame ?a) p of Inl f \<Rightarrow> Some (Inl f)
      | Inr (pushed, p') \<Rightarrow> if pushed then send_fc_announce (mark_announced idx ?a fa c) (eliciting p')
         else send_fc_announce c p')"
    by (subst send_fc_announce.simps) (simp add: idx fa(1,2))
  show ?case
  proof (cases "push_frame_to_pkt (announce_frame ?a) p")
    case (Inl f)
    then show ?thesis by (simp add: step)
  next
    case (Inr r)
    then obtain ok p1 where p1: "push_frame_to_pkt (announce_frame ?a) p = Inr (ok, p1)" by (cases r) auto
    note push = push_frame_fits [OF len(1,2) p1]
    let ?c = "mark_announced idx ?a fa c"
    have "\<exists>r. send_fc_announce ?c (eliciting p1) = Some r \<and> (\<forall>c' p'. r = Inr (c', p') \<longrightarrow>
        pk_frames p' = pk_frames (eliciting p1) @ map announce_frame (unannounced ?c) \<and> unannounced c' = [])"
    proof (rule Suc.hyps)
      show "k = length (unannounced ?c)" using Suc.hyps(2) fa(5) by simp
      show "fc_should_send_fc_announce ?c = position (\<lambda>a. \<not> an_is_processed a)
          (case fcc_flexicast ?c of Some fa \<Rightarrow> fa_announce fa | None \<Rightarrow> [])"
        using fa(4) by (simp add: mark_announced_def put_fca_def set_announce_def)
      show "\<forall>a \<in> set (unannounced ?c). wire_len (announce_frame a) = Inr (announce_len a)"
        using Suc.prems(2) fa(3,5) by (simp add: list.set_sel(2))
      show "sum_list (map announce_len (unannounced ?c)) \<le> pk_left (eliciting p1)"
        using len(3) push fa(5) by (simp add: eliciting_def)
    qed
    then obtain r where r: "send_fc_announce ?c (eliciting p1) = Some r" "\<forall>c' p'. r = Inr (c', p') \<longrightarrow>
        pk_frames p' = pk_frames (eliciting p1) @ map announce_frame (unannounced ?c) \<and> unannounced c' = []"
      by blast
    obtain a rest where ar: "unannounced c = a # rest" using fa(3) by (cases "unannounced c") auto
    have eq: "pk_frames (eliciting p1) @ map announce_frame (unannounced ?c) =
        pk_frames p @ map announce_frame (unannounced c)"
      using push unfolding fa(5) unfolding ar by (simp add: eliciting_def)
    have "send_fc_announce c p = Some r" using r(1) push unfolding step p1 by simp
    then show ?thesis using r(2) unfolding eq by blast
  qed
qed

section \<open>Properties\<close>


text \<open>C13: When the frame of the first pending announcement does not fit in the packet, the loop
  that sends the announcements never returns.\<close>

theorem send_fc_announce_stuck:
  assumes "fc_should_send_fc_announce c = Some idx"
    and "wire_len (announce_frame (hd (unannounced c))) = Inr n" "pk_left p < n"
  shows "send_fc_announce c p = None"
proof (rule ccontr)
  assume "send_fc_announce c p \<noteq> None"
  then obtain r where "send_fc_announce c p = Some r" by blast
  then have "\<not> (fc_should_send_fc_announce c = Some idx \<and>
      wire_len (announce_frame (hd (unannounced c))) = Inr n \<and> pk_left p < n)"
  proof (rule send_fc_announce.raw_induct [rotated])
    fix f c p and r :: "(fc_conn \<times> pkt_build) result"
    assume IH: "\<And>c p r. f c p = Some r \<Longrightarrow> \<not> (fc_should_send_fc_announce c = Some idx \<and>
        wire_len (announce_frame (hd (unannounced c))) = Inr n \<and> pk_left p < n)"
      and run: "(case fc_should_send_fc_announce c of None \<Rightarrow> Some (Inr (c, p))
        | Some idx \<Rightarrow> (case fcc_flexicast c of None \<Rightarrow> Some (err (Flexicast McDisabled))
          | Some fa \<Rightarrow> (case get_mc_announce_data idx fa of None \<Rightarrow> Some (err (Flexicast McDisabled))
            | Some a \<Rightarrow> (case push_frame_to_pkt (announce_frame a) p of Inl f \<Rightarrow> Some (Inl f)
              | Inr (pushed, p') \<Rightarrow> if pushed then f (mark_announced idx a fa c) (eliciting p')
                 else f c p')))) = Some r"
    show "\<not> (fc_should_send_fc_announce c = Some idx \<and>
        wire_len (announce_frame (hd (unannounced c))) = Inr n \<and> pk_left p < n)"
    proof
      assume st: "fc_should_send_fc_announce c = Some idx \<and>
        wire_len (announce_frame (hd (unannounced c))) = Inr n \<and> pk_left p < n"
      obtain fa where "fcc_flexicast c = Some fa" "get_mc_announce_data idx fa = Some (hd (unannounced c))"
        using should_announce_Some [of c idx] st by blast
      moreover have "push_frame_to_pkt (announce_frame (hd (unannounced c))) p = Inr (False, p)"
        using st by (simp add: push_frame_to_pkt_def)
      ultimately have "f c p = Some r" using run st by simp
      with IH st show False by blast
    qed
  qed
  with assms show False by blast
qed

text \<open>A server with one announcement, for the examples.\<close>

definition sample_announce :: mc_announce_data where
  "sample_announce = \<lparr>an_channel_id = [7], an_is_ipv6_addr = False, an_probe_path = True,
     an_source_ip = [127, 0, 0, 1], an_group_ip = [224, 3, 0, 225], an_udp_port = 7676, an_public_key = None,
     an_expiration_timer = 0, an_is_processed = False, an_bitrate = None, an_secret = None, an_algo = None,
     an_reset_stream_on_join = False, an_qos = 0\<rparr>"

definition sample_conn :: "bool \<Rightarrow> flexicast_attributes option \<Rightarrow> fc_conn" where
  "sample_conn is_server fa = \<lparr>fcc_is_server = is_server, fcc_support = True, fcc_handshake_completed = True,
     fcc_info_delay = 0, fcc_throughput_window = 0, fcc_flexicast = fa\<rparr>"

definition sample_pkt :: "byte list \<Rightarrow> pkt_build" where
  "sample_pkt bs = \<lparr>pk_b = \<lparr>buf = bs, off = 0\<rparr>, pk_frames = [], pk_left = length bs,
     pk_ack_eliciting = False, pk_in_flight = False, pk_has_data = False\<rparr>"

definition sample_server :: fc_conn where
  "sample_server = sample_conn True (Some ((FlexicastAttributes_default 0)
     \<lparr>fa_role := ServerUnicast Unaware, fa_announce := [sample_announce]\<rparr>))"

lemma sample_server_facts:
  "fc_should_send_fc_announce sample_server = Some 0" "unannounced sample_server = [sample_announce]"
  "wire_len (announce_frame sample_announce) = Inr 27"
  by (simp_all add: sample_server_def sample_conn_def fc_should_send_fc_announce_def unannounced_def
      sample_announce_def announce_frame_def wire_len_def len_sum_def mc_announce_wire_len_def varint_len_def)


theorem send_fc_announce_stuck_witness: "send_fc_announce sample_server (sample_pkt (replicate 20 0)) = None"
  by (rule send_fc_announce_stuck [where idx = 0 and n = 27]) (simp_all add: sample_server_facts sample_pkt_def)

text \<open>C15: Once the receiver listens to the flexicast path, a key that is declared lost can not be
  sent again: the server decides that it has to send the key, and then fails with an error
  instead of sending anything.\<close>

theorem lost_key_blocks_sender:
  assumes "fcc_flexicast c = Some fa" "fa_role fa = ServerUnicast (ListenMcPath b)"
    and "get_mc_announce_data_active fa = Some a" "an_secret a \<noteq> None"
  shows "send_mc_key (lost_mc_key c) p = err (Flexicast (McInvalidRole (ServerUnicast (ListenMcPath b))))"
proof -
  obtain cid idx where chan: "fa_chan_id fa = Some (cid, idx)" "get_mc_announce_data idx fa = Some a"
    using assms(3) by (auto simp: get_mc_announce_data_active_def split: option.splits prod.splits)
  let ?fa = "set_mc_key_read False fa"
  have fa: "fa_chan_id ?fa = Some (cid, idx)" "get_mc_announce_data idx ?fa = Some a"
    "get_mc_announce_data_active ?fa = Some a" "fa_role ?fa = ServerUnicast (ListenMcPath b)"
    using chan assms(2,3) by (auto simp: set_mc_key_read_def get_mc_announce_data_def get_mc_announce_data_active_def split: if_splits)
  have "should_send_fc_key ?fa = Inr True"
    using fa assms(2,4) by (auto simp: should_send_fc_key_def announce_at_def key_wanted_def set_mc_key_read_def)
  moreover have "mc_key_frame ?fa = err (Flexicast (McInvalidRole (ServerUnicast (ListenMcPath b))))"
    using fa by (simp add: mc_key_frame_def get_decryption_key_secret_def)
  ultimately show ?thesis using assms(1) by (simp add: send_mc_key_def lost_mc_key_def put_fca_def)
qed

theorem lost_key_blocks_sender_witness:
  "\<exists>c1 c2 p1. send_mc_key (sample_conn True (Some ((FlexicastAttributes_default 0)
       \<lparr>fa_role := ServerUnicast JoinedNoKey, fa_announce := [sample_announce\<lparr>an_secret := Some [1]\<rparr>],
         fa_chan_id := Some ([7], 0)\<rparr>))) (sample_pkt [0, 0, 0, 0, 0, 0, 0, 0]) = Inr (c1, p1) \<and>
     recv_mc_state panic [7] 4 9 c1 = Inr c2 \<and>
     send_mc_key (lost_mc_key c2) (sample_pkt [0, 0, 0, 0, 0, 0, 0, 0]) = err (Flexicast (McInvalidRole (ServerUnicast (ListenMcPath True))))"
proof -
  let ?fa = "(FlexicastAttributes_default 0)\<lparr>fa_role := ServerUnicast JoinedNoKey,
      fa_announce := [sample_announce\<lparr>an_secret := Some [1]\<rparr>], fa_chan_id := Some ([7], 0)\<rparr>"
  let ?c1 = "sample_conn True (Some (?fa\<lparr>fa_key_up_to_date := True\<rparr>))"
  let ?fa2 = "?fa\<lparr>fa_role := ServerUnicast (ListenMcPath True), fa_key_up_to_date := True, fa_path_id := Some 9\<rparr>"
  have key: "should_send_fc_key ?fa = Inr True" "mc_key_frame ?fa = Inr (McKey [7] [1] AES128_GCM 0)"
    by (simp_all add: should_send_fc_key_def announce_at_def get_mc_announce_data_def key_wanted_def
        mc_key_frame_def get_mc_announce_data_active_def get_decryption_key_secret_def fc_chan_idx_def
        get_decryption_key_algo_def sample_announce_def FlexicastAttributes_default_def)
  obtain p1 where push: "push_frame_to_pkt (McKey [7] [1] AES128_GCM 0) (sample_pkt [0, 0, 0, 0, 0, 0, 0, 0]) = Inr (True, p1)"
    by (simp add: push_frame_to_pkt_def wire_len_def len_sum_def varint_len_def sample_pkt_def
        Frame_to_bytes_def put_mc_key_def put_all.simps put_varint_def put_varint_with_len_def put_bytes_def
        put_u8_def put_u16_def put_u_def cap_def or_first_def be_bytes_numerals)
  have s1: "send_mc_key (sample_conn True (Some ?fa)) (sample_pkt [0, 0, 0, 0, 0, 0, 0, 0]) = Inr (?c1, eliciting p1)"
    using key push by (simp add: send_mc_key_def sample_conn_def put_fca_def set_mc_key_read_def)
  have s2: "recv_mc_state panic [7] 4 9 ?c1 = Inr (sample_conn True (Some ?fa2))"
    by (simp add: recv_mc_state_def fca_def sample_conn_def FcClientAction_try_from_def update_client_state_def
        update_status_def next_status_def path_status_def get_mc_announce_data_index_def sample_announce_def put_fca_def)
  have "send_mc_key (lost_mc_key (sample_conn True (Some ?fa2))) (sample_pkt [0, 0, 0, 0, 0, 0, 0, 0]) =
      err (Flexicast (McInvalidRole (ServerUnicast (ListenMcPath True))))"
    by (rule lost_key_blocks_sender [where fa = ?fa2 and a = "sample_announce\<lparr>an_secret := Some [1]\<rparr>"])
      (simp_all add: sample_conn_def get_mc_announce_data_active_def get_mc_announce_data_def)
  with s1 s2 show ?thesis by blast
qed

end
