(* ===== verification/Fc_Join.thy ===== *)
theory Fc_Join
  imports Fc_Send
begin

text \<open>
  A receiver and its unicast server while the receiver joins a flexicast channel: both ends run
  the functions of \<open>Fc_State\<close> and \<open>Fc_Send\<close>, and the network may delay, reorder, repeat or lose
  their control frames. Frames once sent stay deliverable, and an acknowledgment or a declared
  loss may come at any time after, so that spurious losses are included.
\<close>

section \<open>The system\<close>

record join_sys =
  js_client :: fc_conn
  js_server :: fc_conn
  js_c_sent :: "frame set"
  js_s_sent :: "frame set"
  js_c_received :: "frame set"
  js_s_received :: "frame set"

text \<open>\<open>js_c_sent\<close> and \<open>js_s_sent\<close> are the frames sent by the client and by the server, the
  received sets those of them that the other end has processed.\<close>

inductive join_step :: "(algorithm \<Rightarrow> byte list \<Rightarrow> bool) \<Rightarrow> join_sys \<Rightarrow> join_sys \<Rightarrow> bool"
  for derive where
  client_join: "mc_join_channel cid (js_client s) = Inr (st, c) \<Longrightarrow> join_step derive s (s\<lparr>js_client := c\<rparr>)"
| client_path: "fcc_flexicast (js_client s) = Some fa \<Longrightarrow> fa_path_id fa = None \<Longrightarrow>
    join_step derive s (s\<lparr>js_client := put_fca (set_fc_path_id pid fa) (js_client s)\<rparr>)"
| client_send: "pk_frames p = [] \<Longrightarrow> send_mc_state (js_client s) p = Inr (c, p') \<Longrightarrow>
    join_step derive s (s\<lparr>js_client := c, js_c_sent := js_c_sent s \<union> set (pk_frames p')\<rparr>)"
| client_acked: "McState cid action data \<in> js_c_received s \<Longrightarrow>
    acked_mc_state action data (js_client s) = Inr c \<Longrightarrow> join_step derive s (s\<lparr>js_client := c\<rparr>)"
| client_lost: "join_step derive s (s\<lparr>js_client := lost_mc_state (js_client s)\<rparr>)"
| client_key: "McKey cid key algo pn \<in> js_s_sent s \<Longrightarrow>
    recv_mc_key derive key algo pn (js_client s) = Inr (c, space) \<Longrightarrow>
    join_step derive s (s\<lparr>js_client := c, js_s_received := insert (McKey cid key algo pn) (js_s_received s)\<rparr>)"
| server_state: "McState cid action data \<in> js_c_sent s \<Longrightarrow>
    recv_mc_state new_path cid action data (js_server s) = Inr c \<Longrightarrow>
    join_step derive s (s\<lparr>js_server := c, js_c_received := insert (McState cid action data) (js_c_received s)\<rparr>)"
| server_send: "pk_frames p = [] \<Longrightarrow> send_mc_key (js_server s) p = Inr (c, p') \<Longrightarrow>
    join_step derive s (s\<lparr>js_server := c, js_s_sent := js_s_sent s \<union> set (pk_frames p')\<rparr>)"
| server_acked: "McKey cid key algo pn \<in> js_s_received s \<Longrightarrow> acked_mc_key (js_server s) = Inr c \<Longrightarrow>
    join_step derive s (s\<lparr>js_server := c\<rparr>)"
| server_lost: "join_step derive s (s\<lparr>js_server := lost_mc_key (js_server s)\<rparr>)"
| server_announced: "acked_mc_announce cid (js_server s) = Inr c \<Longrightarrow> join_step derive s (s\<lparr>js_server := c\<rparr>)"

inductive_cases join_stepE: "join_step derive s s'"

text \<open>At the start the client knows the announcements and has not joined, the server has
  announced its channels, all of which require path probing.\<close>

definition join_init :: "join_sys \<Rightarrow> bool" where
  "join_init s \<longleftrightarrow> (\<exists>fc fs. fcc_flexicast (js_client s) = Some fc \<and> fcc_flexicast (js_server s) = Some fs \<and>
     \<not> fcc_is_server (js_client s) \<and> fcc_is_server (js_server s) \<and>
     fa_role fc = Client AwareUnjoined \<and> fa_path_id fc = None \<and>
     fa_role fs = ServerUnicast Unaware \<and> fa_chan_id fs = None \<and> (\<forall>a \<in> set (fa_announce fs). an_probe_path a) \<and>
     js_c_sent s = {} \<and> js_s_sent s = {} \<and> js_c_received s = {} \<and> js_s_received s = {})"

inductive join_reach :: "(algorithm \<Rightarrow> byte list \<Rightarrow> bool) \<Rightarrow> join_sys \<Rightarrow> bool" for derive where
  reach_init: "join_init s \<Longrightarrow> join_reach derive s"
| reach_step: "join_reach derive s \<Longrightarrow> join_step derive s s' \<Longrightarrow> join_reach derive s'"

section \<open>The invariant\<close>

text \<open>What the attributes of the client say: it has joined from the moment it has a channel, all
  its frames name that channel, and it asks for the path only when it holds the key.\<close>

definition joined_cid :: "flexicast_attributes \<Rightarrow> byte list" where
  "joined_cid fa = (case fa_chan_id fa of Some (cid, _) \<Rightarrow> cid | None \<Rightarrow> [])"

definition chan_ok :: "flexicast_attributes \<Rightarrow> bool" where
  "chan_ok fa \<longleftrightarrow> (\<exists>a. get_mc_announce_data_active fa = Some a \<and> an_channel_id a = joined_cid fa)"

definition holds_key :: "flexicast_attributes \<Rightarrow> bool" where
  "holds_key fa \<longleftrightarrow> fa_role fa = Client JoinedAndKey \<or> fa_role fa = Client (ListenMcPath True)"

definition client_frames :: "flexicast_attributes \<Rightarrow> frame set" where
  "client_frames fa = insert (McState (joined_cid fa) 1 0)
     (if holds_key fa then {McState (joined_cid fa) 4 pid |pid. fa_path_id fa = Some pid} else {})"

definition key_from :: "flexicast_attributes \<Rightarrow> frame set \<Rightarrow> bool" where
  "key_from fa keys \<longleftrightarrow> (\<exists>cid key algo pn. McKey cid key algo pn \<in> keys \<and> fa_crypto_open fa = Some (algo, key))"

definition path_agreed :: "flexicast_attributes \<Rightarrow> frame set \<Rightarrow> bool" where
  "path_agreed fa received \<longleftrightarrow> (\<exists>pid. fa_path_id fa = Some pid \<and> McState (joined_cid fa) 4 pid \<in> received)"

definition client_inv :: "flexicast_attributes \<Rightarrow> frame set \<Rightarrow> frame set \<Rightarrow> frame set \<Rightarrow> bool" where
  "client_inv fc sent received keys \<longleftrightarrow>
     fa_role fc = Client AwareUnjoined \<and> sent = {} \<or>
     chan_ok fc \<and> sent \<subseteq> client_frames fc \<and>
       (fa_role fc = Client WaitingToJoin \<or> fa_role fc = Client JoinedNoKey \<or>
        holds_key fc \<and> key_from fc keys \<and>
          (fa_role fc = Client (ListenMcPath True) \<longrightarrow> path_agreed fc received))"

text \<open>The channel a server believes in, and the keys it has sent.\<close>

definition server_key :: "flexicast_attributes \<Rightarrow> frame \<Rightarrow> bool" where
  "server_key fs f \<longleftrightarrow> (\<exists>idx a key algo pn. fa_chan_id fs = Some (an_channel_id a, idx) \<and>
     get_mc_announce_data_index (an_channel_id a) fs = Some idx \<and> get_mc_announce_data idx fs = Some a \<and>
     an_secret a = Some key \<and> algo = (case an_algo a of Some x \<Rightarrow> x | None \<Rightarrow> AES128_GCM) \<and>
     f = McKey (an_channel_id a) key algo pn)"

definition server_joined :: "flexicast_attributes \<Rightarrow> bool" where
  "server_joined fs \<longleftrightarrow> fa_role fs \<in> {ServerUnicast JoinedNoKey, ServerUnicast JoinedAndKey,
     ServerUnicast (ListenMcPath True)}"

definition server_inv :: "flexicast_attributes \<Rightarrow> frame set \<Rightarrow> frame set \<Rightarrow> frame set \<Rightarrow> bool" where
  "server_inv fs sent received keys \<longleftrightarrow>
     (server_joined fs \<or> (fa_role fs = ServerUnicast Unaware \<or> fa_role fs = ServerUnicast AwareUnjoined) \<and> keys = {}) \<and>
     (\<forall>a \<in> set (fa_announce fs). an_probe_path a) \<and>
     (\<forall>f \<in> keys. server_key fs f) \<and>
     (\<forall>cid idx. fa_chan_id fs = Some (cid, idx) \<longrightarrow>
        get_mc_announce_data_index cid fs = Some idx \<and> (\<exists>action data. McState cid action data \<in> sent)) \<and>
     (\<forall>cid pid. McState cid 4 pid \<in> received \<longrightarrow>
        fa_role fs = ServerUnicast (ListenMcPath True) \<and> fa_path_id fs = Some pid) \<and>
     (fa_role fs = ServerUnicast (ListenMcPath True) \<longrightarrow>
        (\<exists>cid pid. McState cid 4 pid \<in> received \<and> fa_path_id fs = Some pid))"

definition join_inv :: "join_sys \<Rightarrow> bool" where
  "join_inv s \<longleftrightarrow> (\<exists>fc fs. fcc_flexicast (js_client s) = Some fc \<and> fcc_flexicast (js_server s) = Some fs \<and>
     \<not> fcc_is_server (js_client s) \<and> fcc_is_server (js_server s) \<and>
     js_c_received s \<subseteq> js_c_sent s \<and> js_s_received s \<subseteq> js_s_sent s \<and>
     client_inv fc (js_c_sent s) (js_c_received s) (js_s_sent s) \<and>
     server_inv fs (js_c_sent s) (js_c_received s) (js_s_sent s))"

section \<open>The state machine on the statuses of joining\<close>

lemma RFcUcPath_default_Inr: "\<exists>u. RFcUcPath_default = Inr u"
  by (simp add: RFcUcPath_default_def new_recv_def McAck_new_def)

text \<open>The client: what an action does to it, up to the congestion state and flags.\<close>

lemma client_update:
  assumes "fa_role fa = Client st"
  shows "update_client_state action data fa = update_status False st action data fa"
  using assms by (simp add: update_client_state_def)

lemma server_update:
  assumes "fa_role fa = ServerUnicast st"
  shows "update_client_state action data fa = update_status True st action data fa"
  using assms by (simp add: update_client_state_def)

lemmas update_defs = update_status_def next_status_def path_status_def leave_status_def Let_def

lemma put_fca_same: "fcc_flexicast c = Some fa \<Longrightarrow> put_fca fa c = c"
  by (simp add: put_fca_def)

section \<open>Steps of the client\<close>

lemma client_cong:
  assumes "fa_chan_id fa' = fa_chan_id fa" "fa_announce fa' = fa_announce fa"
  shows "chan_ok fa' = chan_ok fa" "joined_cid fa' = joined_cid fa"
  using assms by (auto simp: chan_ok_def joined_cid_def get_mc_announce_data_def get_mc_announce_data_active_def
      split: option.splits)

lemma client_inv_flag:
  "client_inv (fc\<lparr>fa_state_in_flight := v\<rparr>) sent received keys = client_inv fc sent received keys"
  using client_cong [of "fc\<lparr>fa_state_in_flight := v\<rparr>" fc]
  by (simp add: client_inv_def client_frames_def holds_key_def key_from_def path_agreed_def)

lemma client_join_inv:
  assumes inv: "client_inv fc sent received keys" and c: "fcc_flexicast c = Some fc"
    and step: "mc_join_channel cid c = Inr (st, c')"
  shows "\<exists>fc'. c' = put_fca fc' c \<and> client_inv fc' sent received keys"
proof -
  have role: "fa_role fc = Client AwareUnjoined" "sent = {}"
    using inv step c by (auto simp: client_inv_def holds_key_def mc_join_channel_def fca_def)
  obtain chan st' fc' where chan: "(case cid of Some cid \<Rightarrow> (case get_mc_announce_data_index cid fc of
        Some idx \<Rightarrow> Inr (cid, idx) | None \<Rightarrow> err (Flexicast FcMcAnnounce))
      | None \<Rightarrow> try_bind (announce_at 0 fc) (\<lambda>a. Inr (an_channel_id a, 0))) = Inr chan"
    and upd: "update_client_state Join None
      (fc\<lparr>fa_chan_id := Some chan, fa_reliable := Receiver RFcRecv_default\<rparr>) = Inr (st', fc')" and c': "c' = put_fca fc' c"
    using step c role by (auto simp: mc_join_channel_def fca_def)
  have fc': "fc' = fc\<lparr>fa_chan_id := Some chan, fa_reliable := Receiver RFcRecv_default, fa_role := Client WaitingToJoin\<rparr>"
    using upd role by (simp add: update_client_state_def update_defs)
  have "chan_ok fc'"
    using chan position_SomeD [of "\<lambda>a. an_channel_id a = the cid" "fa_announce fc"]
    by (cases chan) (auto simp: fc' chan_ok_def joined_cid_def get_mc_announce_data_active_def get_mc_announce_data_def
        get_mc_announce_data_index_def announce_at_def split: option.splits if_splits)
  then have "client_inv fc' sent received keys" using role(2) by (auto simp: client_inv_def fc')
  with c' show ?thesis by blast
qed

lemma client_path_inv:
  assumes "client_inv fc sent received keys" "fa_path_id fc = None"
  shows "client_inv (set_fc_path_id pid fc) sent received keys"
  using assms client_cong [of "set_fc_path_id pid fc" fc]
  by (auto simp: client_inv_def set_fc_path_id_def client_frames_def holds_key_def key_from_def path_agreed_def)

lemma push_frames:
  "push_frame_to_pkt f p = Inr (ok, p') \<Longrightarrow> pk_frames p' = (if ok then pk_frames p @ [f] else pk_frames p)"
  by (auto simp: push_frame_to_pkt_def split: if_splits)

lemma mc_state_frame_client:
  assumes inv: "client_inv fc sent received keys" and send: "should_send_fc_state fc"
    and f: "mc_state_frame fc = Inr f"
  shows "client_inv fc (insert f sent) received keys"
proof -
  have not_new: "fa_role fc \<noteq> Client AwareUnjoined" using send by (auto simp: should_send_fc_state_def)
  then have "chan_ok fc" using inv by (simp add: client_inv_def)
  then obtain a where a: "get_mc_announce_data_active fc = Some a" "an_channel_id a = joined_cid fc"
    by (auto simp: chan_ok_def)
  have "fa_role fc = Client WaitingToJoin \<or> fa_role fc = Client JoinedAndKey \<and> fa_path_id fc \<noteq> None"
    using inv send not_new by (auto simp: client_inv_def holds_key_def should_send_fc_state_def)
  then have "f \<in> client_frames fc"
    using f a by (auto simp: client_frames_def holds_key_def mc_state_frame_def)
  then show ?thesis using inv not_new by (simp add: client_inv_def)
qed

lemma client_send_inv:
  assumes inv: "client_inv fc sent received keys" and c: "fcc_flexicast c = Some fc"
    and step: "send_mc_state c p = Inr (c', p')" and p: "pk_frames p = []"
  shows "\<exists>fc'. c' = put_fca fc' c \<and> client_inv fc' (sent \<union> set (pk_frames p')) received keys"
proof (cases "should_send_fc_state fc")
  case False
  then show ?thesis using step c inv p put_fca_same [OF c] by (intro exI [of _ fc]) (auto simp: send_mc_state_def)
next
  case True
  with step c obtain f ok p1 where f: "mc_state_frame fc = Inr f" "push_frame_to_pkt f p = Inr (ok, p1)"
    and r: "if ok then c' = put_fca (set_mc_state_in_flight True fc) c \<and> p' = (eliciting p1)\<lparr>pk_has_data := True\<rparr>
      else c' = c \<and> p' = p1"
    by (auto simp: send_mc_state_def split: if_splits)
  show ?thesis
  proof (cases ok)
    case True
    then have "set (pk_frames p') = {f}" using r push_frames [OF f(2)] p by (simp add: eliciting_def)
    with True r mc_state_frame_client [OF inv \<open>should_send_fc_state fc\<close> f(1)] show ?thesis
      by (auto simp: set_mc_state_in_flight_def client_inv_flag)
  next
    case False
    with r push_frames [OF f(2)] p inv put_fca_same [OF c] show ?thesis by (intro exI [of _ fc]) auto
  qed
qed

lemma client_acked_update:
  assumes role: "fa_role fc = Client stc"
    and stc: "stc = WaitingToJoin \<or> stc = JoinedNoKey \<or> stc = JoinedAndKey \<or> stc = ListenMcPath True"
    and upd: "update_client_state act (Some data) fc = Inr (st, fc')" and act: "act = Join \<or> act = McPath"
  shows "fc' = fc\<lparr>fa_role := Client st\<rparr> \<and> (st = stc \<or> stc = WaitingToJoin \<and> st = JoinedNoKey) \<or>
    fc' = fc\<lparr>fa_path_id := Some data, fa_role := Client (ListenMcPath True)\<rparr> \<and> act = McPath \<and> stc = JoinedAndKey"
  using stc act upd unfolding client_update [OF role] by (elim disjE) (auto simp: update_defs)

lemma client_acked_inv:
  assumes inv: "client_inv fc sent received keys" and c: "fcc_flexicast c = Some fc"
    and f: "McState cid action data \<in> received" "received \<subseteq> sent"
    and step: "acked_mc_state action data c = Inr c'"
  shows "\<exists>fc'. c' = put_fca fc' c \<and> client_inv fc' sent received keys"
proof -
  let ?fc = "fc\<lparr>fa_state_in_flight := False\<rparr>"
  have inv': "client_inv ?fc sent received keys" using inv by (simp add: client_inv_flag)
  have mem: "McState cid action data \<in> client_frames ?fc" using inv' f by (auto simp: client_inv_def)
  then obtain act where act: "FcClientAction_try_from action = Inr act"
    "act = Join \<or> act = McPath \<and> holds_key ?fc \<and> fa_path_id ?fc = Some data \<and> McState (joined_cid ?fc) 4 data \<in> received"
    using f(1) by (auto simp: client_frames_def FcClientAction_try_from_def split: if_splits)
  then have "action \<noteq> 5" by (auto simp: FcClientAction_try_from_def)
  with step c act(1) obtain st fc' where upd: "update_client_state act (Some data) ?fc = Inr (st, fc')"
    and c': "c' = put_fca fc' c"
    by (auto simp: acked_mc_state_def set_mc_state_in_flight_def)
  have "\<exists>stc. fa_role ?fc = Client stc \<and>
      (stc = WaitingToJoin \<or> stc = JoinedNoKey \<or> stc = JoinedAndKey \<or> stc = ListenMcPath True)"
    using inv' f by (auto simp: client_inv_def holds_key_def)
  then obtain stc where stc: "fa_role ?fc = Client stc"
    "stc = WaitingToJoin \<or> stc = JoinedNoKey \<or> stc = JoinedAndKey \<or> stc = ListenMcPath True" by blast
  have ne: "chan_ok ?fc" "sent \<subseteq> client_frames ?fc" "holds_key ?fc \<Longrightarrow> key_from ?fc keys"
    "stc = ListenMcPath True \<Longrightarrow> path_agreed ?fc received"
    using inv' f stc(1) by (auto simp: client_inv_def holds_key_def)
  have "act = Join \<or> act = McPath" using act(2) by blast
  from client_acked_update [OF stc upd this] have "client_inv fc' sent received keys"
  proof (elim disjE conjE)
    assume fc': "fc' = ?fc\<lparr>fa_role := Client st\<rparr>" and "st = stc"
    then have "fc' = ?fc" using stc(1) by simp
    then show ?thesis using inv' by simp
  next
    assume fc': "fc' = ?fc\<lparr>fa_role := Client st\<rparr>" and st: "stc = WaitingToJoin" "st = JoinedNoKey"
    then have "client_frames fc' = client_frames ?fc" "chan_ok fc' = chan_ok ?fc"
      using stc(1) client_cong [of fc' ?fc] by (auto simp: client_frames_def holds_key_def)
    with ne st fc' show ?thesis by (simp add: client_inv_def)
  next
    assume fc': "fc' = ?fc\<lparr>fa_path_id := Some data, fa_role := Client (ListenMcPath True)\<rparr>"
      and st: "act = McPath" "stc = JoinedAndKey"
    have "act \<noteq> Join" using st by simp
    with act(2) have d: "fa_path_id ?fc = Some data" "McState (joined_cid ?fc) 4 data \<in> received" by auto
    then have "client_frames fc' = client_frames ?fc" "chan_ok fc' = chan_ok ?fc" "path_agreed fc' received"
      "key_from fc' keys = key_from ?fc keys" "holds_key fc'" "holds_key ?fc"
      using stc(1) st client_cong [of fc' ?fc] fc'
      by (auto simp: client_frames_def holds_key_def path_agreed_def key_from_def)
    with ne show ?thesis by (simp add: client_inv_def)
  qed
  with c' show ?thesis by blast
qed

lemma client_key_inv:
  assumes inv: "client_inv fc sent received keys" and c: "fcc_flexicast c = Some fc" "\<not> fcc_is_server c"
    and f: "McKey cid key algo pn \<in> keys" and step: "recv_mc_key derive key algo pn c = Inr (c', space)"
  shows "\<exists>fc'. c' = put_fca fc' c \<and> client_inv fc' sent received keys"
proof -
  obtain fc1 st fc' where set: "set_decryption_key_secret derive key algo fc = Inr fc1"
    and upd: "update_client_state DecryptionKey None fc1 = Inr (st, fc')" and c': "c' = put_fca fc' c"
    using step c by (auto simp: recv_mc_key_def)
  obtain idx a where idx: "fc_chan_idx fc = Inr idx" "announce_at idx fc = Inr a"
    and fc1: "fc1 = set_announce idx (a\<lparr>an_secret := Some key, an_algo := Some algo\<rparr>)
      (fc\<lparr>fa_crypto_open := Some (algo, key), fa_crypto_seal := Some (algo, key)\<rparr>)"
    and role: "fa_role fc \<in> {Client JoinedNoKey, Client WaitingToJoin, Client Changing}"
    using set by (auto simp: set_decryption_key_secret_def split: if_splits)
  have role': "fa_role fc = Client JoinedNoKey \<or> fa_role fc = Client WaitingToJoin"
    using inv role by (auto simp: client_inv_def holds_key_def)
  have fc': "fc' = fc1\<lparr>fa_role := Client JoinedAndKey\<rparr>"
    using upd role' by (auto simp: fc1 set_announce_def update_client_state_def update_defs)
  have ok: "chan_ok fc" "sent \<subseteq> client_frames fc" using inv role' by (auto simp: client_inv_def)
  have at: "idx < length (fa_announce fc)" "fa_announce fc ! idx = a"
    using idx(2) by (auto simp: announce_at_def get_mc_announce_data_def split: if_splits)
  obtain cid where chan: "fa_chan_id fc = Some (cid, idx)"
    using idx(1) by (auto simp: fc_chan_idx_def split: option.splits)
  have same: "fa_chan_id fc' = fa_chan_id fc" by (simp add: fc' fc1 set_announce_def)
  then have "joined_cid fc' = joined_cid fc" by (simp add: joined_cid_def)
  moreover have "chan_ok fc'"
    using ok(1) chan at by (auto simp: chan_ok_def get_mc_announce_data_active_def get_mc_announce_data_def
        joined_cid_def fc' fc1 set_announce_def)
  moreover have "holds_key fc'" "fa_role fc' = Client JoinedAndKey" by (simp_all add: holds_key_def fc')
  moreover have "key_from fc' keys" using f by (auto simp: key_from_def fc' fc1 set_announce_def)
  moreover have "\<not> holds_key fc" using role' by (auto simp: holds_key_def)
  ultimately have "client_inv fc' sent received keys" using ok(2) by (auto simp: client_inv_def client_frames_def)
  with c' show ?thesis by blast
qed

lemma client_inv_mono:
  "client_inv fc sent received keys \<Longrightarrow> received \<subseteq> received' \<Longrightarrow> keys \<subseteq> keys' \<Longrightarrow>
   client_inv fc sent received' keys'"
  unfolding client_inv_def key_from_def path_agreed_def by blast

section \<open>Steps of the server\<close>

lemma server_inv_mono:
  "server_inv fs sent received keys \<Longrightarrow> sent \<subseteq> sent' \<Longrightarrow> server_inv fs sent' received keys"
  unfolding server_inv_def by blast

lemma server_key_cong:
  assumes "fa_chan_id fs' = fa_chan_id fs" "fa_announce fs' = fa_announce fs"
  shows "server_key fs' = server_key fs" "get_mc_announce_data_index cid fs' = get_mc_announce_data_index cid fs"
    "get_mc_announce_data idx fs' = get_mc_announce_data idx fs"
  by (intro ext, simp only: server_key_def get_mc_announce_data_index_def get_mc_announce_data_def assms)
    (simp_all only: get_mc_announce_data_index_def get_mc_announce_data_def assms)

lemma server_inv_same:
  assumes "server_inv fs sent received keys" "fa_chan_id fs' = fa_chan_id fs" "fa_announce fs' = fa_announce fs"
    "fa_role fs' = fa_role fs" "fa_path_id fs' = fa_path_id fs"
  shows "server_inv fs' sent received keys"
  using assms server_key_cong [OF assms(2,3)] by (simp add: server_inv_def server_joined_def)

lemma server_invI:
  assumes "server_joined fs \<or> (fa_role fs = ServerUnicast Unaware \<or> fa_role fs = ServerUnicast AwareUnjoined) \<and> keys = {}"
    and "\<forall>a \<in> set (fa_announce fs). an_probe_path a" "\<forall>f \<in> keys. server_key fs f"
    and "\<And>cid idx. fa_chan_id fs = Some (cid, idx) \<Longrightarrow>
      get_mc_announce_data_index cid fs = Some idx \<and> (\<exists>action data. McState cid action data \<in> sent)"
    and "\<And>cid pid. McState cid 4 pid \<in> received \<Longrightarrow>
      fa_role fs = ServerUnicast (ListenMcPath True) \<and> fa_path_id fs = Some pid"
    and "fa_role fs = ServerUnicast (ListenMcPath True) \<Longrightarrow>
      \<exists>cid pid. McState cid 4 pid \<in> received \<and> fa_path_id fs = Some pid"
  shows "server_inv fs sent received keys"
  using assms unfolding server_inv_def by blast

text \<open>What a received state frame does to the server.\<close>

lemma server_state_update:
  assumes role: "fa_role fs = ServerUnicast st"
    and st: "st \<in> {Unaware, AwareUnjoined, JoinedNoKey, JoinedAndKey, ListenMcPath True}"
    and act: "act = Join \<or> act = McPath"
    and upd: "update_client_state act (Some data) fs = Inr (st', fs')"
  shows "fa_chan_id fs' = fa_chan_id fs \<and> fa_announce fs' = fa_announce fs \<and> fa_role fs' = ServerUnicast st' \<and>
    (if act = McPath \<and> (st = JoinedNoKey \<or> st = JoinedAndKey)
     then st' = ListenMcPath True \<and> fa_path_id fs' = Some data
     else fa_path_id fs' = fa_path_id fs \<and> (st' = st \<or> (st = Unaware \<or> st = AwareUnjoined) \<and> st' = JoinedNoKey))"
proof -
  obtain u where "RFcUcPath_default = Inr u" using RFcUcPath_default_Inr by blast
  then show ?thesis
    using st act upd unfolding server_update [OF role]
    by (elim insertE disjE emptyE) (auto simp: update_defs)
qed

lemma server_status:
  "server_inv fs sent received keys \<Longrightarrow> \<exists>st. fa_role fs = ServerUnicast st \<and>
     st \<in> {Unaware, AwareUnjoined, JoinedNoKey, JoinedAndKey, ListenMcPath True} \<and>
     (keys \<noteq> {} \<longrightarrow> st \<in> {JoinedNoKey, JoinedAndKey, ListenMcPath True})"
  by (auto simp: server_inv_def server_joined_def)

lemma server_state_inv:
  assumes inv: "server_inv fs sent received keys" and cinv: "client_inv fc sent received keys"
    and c: "fcc_flexicast c = Some fs" and sub: "received \<subseteq> sent"
    and f: "McState cid action data \<in> sent" and step: "recv_mc_state new_path cid action data c = Inr c'"
  shows "\<exists>fs'. c' = put_fca fs' c \<and> server_inv fs' sent (insert (McState cid action data) received) keys"
proof -
  have keys: "holds_key fc \<Longrightarrow> keys \<noteq> {}" and sent: "sent \<subseteq> client_frames fc"
    using cinv f by (auto simp: client_inv_def key_from_def holds_key_def)
  have frame: "g = McState (joined_cid fc) 1 0 \<or>
      (\<exists>p. g = McState (joined_cid fc) 4 p \<and> fa_path_id fc = Some p \<and> keys \<noteq> {})" if "g \<in> sent" for g
    using that sent keys by (auto simp: client_frames_def split: if_splits)
  have cid: "cid' = cid" if "McState cid' a d \<in> sent" for cid' a d using frame [OF that] frame [OF f] by auto
  have act4: "keys \<noteq> {} \<and> fa_path_id fc = Some d" if "McState cid' 4 d \<in> sent" for cid' d
    using frame [OF that] by auto
  have "action = 1 \<or> action = 4" using frame [OF f] by auto
  then obtain act where act: "FcClientAction_try_from action = Inr act" "act = Join \<and> action = 1 \<or> act = McPath \<and> action = 4"
    by (auto simp: FcClientAction_try_from_def)
  obtain st where st: "fa_role fs = ServerUnicast st"
    "st \<in> {Unaware, AwareUnjoined, JoinedNoKey, JoinedAndKey, ListenMcPath True}"
    "keys \<noteq> {} \<longrightarrow> st \<in> {JoinedNoKey, JoinedAndKey, ListenMcPath True}" using server_status [OF inv] by blast
  obtain st' fs1 where upd: "update_client_state act (Some data) fs = Inr (st', fs1)"
    using step c act(1) by (auto simp: recv_mc_state_def fca_def)
  have u: "fa_chan_id fs1 = fa_chan_id fs" "fa_announce fs1 = fa_announce fs" "fa_role fs1 = ServerUnicast st'"
    "if act = McPath \<and> (st = JoinedNoKey \<or> st = JoinedAndKey)
     then st' = ListenMcPath True \<and> fa_path_id fs1 = Some data
     else fa_path_id fs1 = fa_path_id fs \<and> (st' = st \<or> (st = Unaware \<or> st = AwareUnjoined) \<and> st' = JoinedNoKey)"
    using server_state_update [OF st(1,2) _ upd] act(2) by auto
  obtain idx where idx: "get_mc_announce_data_index cid fs1 = Some idx"
    using step c act(1) upd by (auto simp: recv_mc_state_def fca_def split: option.splits)
  let ?fs = "fs1\<lparr>fa_chan_id := Some (cid, idx)\<rparr>"
  have "\<forall>a \<in> set (fa_announce fs1). an_probe_path a" using inv u(2) by (simp add: server_inv_def)
  then have probe: "\<not> (case get_mc_announce_data idx ?fs of Some a \<Rightarrow> \<not> an_probe_path a | None \<Rightarrow> False)"
    by (auto simp: get_mc_announce_data_def)
  have c': "c' = put_fca ?fs c"
    using step c act(1) upd idx probe by (simp add: recv_mc_state_def fca_def Let_def)
  have index: "get_mc_announce_data_index cid' ?fs = get_mc_announce_data_index cid' fs" for cid'
    using u(2) by (simp add: get_mc_announce_data_index_def)
  have chan: "fa_chan_id ?fs = fa_chan_id fs" if some: "fa_chan_id fs \<noteq> None"
  proof -
    obtain cid0 idx0 where chan0: "fa_chan_id fs = Some (cid0, idx0)" using some by auto
    then obtain a d where "get_mc_announce_data_index cid0 fs = Some idx0" "McState cid0 a d \<in> sent"
      using inv by (auto simp: server_inv_def)
    then show ?thesis using chan0 cid [of cid0 a d] idx u(2) by (simp add: get_mc_announce_data_index_def)
  qed
  have keyed: "\<forall>g \<in> keys. server_key ?fs g"
  proof
    fix g assume "g \<in> keys"
    then have g: "server_key fs g" using inv by (simp add: server_inv_def)
    then have "fa_chan_id fs \<noteq> None" by (auto simp: server_key_def)
    from server_key_cong(1) [OF chan [OF this]] u(2) g show "server_key ?fs g" by simp
  qed
  have listen: "st = ListenMcPath True \<Longrightarrow> \<exists>cid pid. McState cid 4 pid \<in> received \<and> fa_path_id fs = Some pid"
    using inv st(1) by (simp add: server_inv_def)
  have rec: "McState cid' 4 pid \<in> received \<Longrightarrow> st = ListenMcPath True \<and> fa_path_id fs = Some pid" for cid' pid
    using inv st(1) by (auto simp: server_inv_def)
  have path: "st' = ListenMcPath True \<and> fa_path_id fs1 = Some pid"
    if "McState cid' 4 pid \<in> insert (McState cid action data) received" for cid' pid
  proof (cases "McState cid' 4 pid \<in> received")
    case True
    with rec u(4) show ?thesis by auto
  next
    case False
    with that have a: "act = McPath" "pid = data" "keys \<noteq> {}" using act(2) act4 f by auto
    have "fa_path_id fs = Some data" if l: "st = ListenMcPath True"
    proof -
      obtain cid0 pid0 where "McState cid0 4 pid0 \<in> received" "fa_path_id fs = Some pid0" using listen [OF l] by blast
      then show ?thesis using act4 [of cid0 pid0] act4 [of cid data] f sub a act(2) by auto
    qed
    with a st(2,3) u(4) show ?thesis by auto
  qed
  have new: "st' = ListenMcPath True \<Longrightarrow>
      \<exists>cid' pid. McState cid' 4 pid \<in> insert (McState cid action data) received \<and> fa_path_id fs1 = Some pid"
    using u(4) act(2) listen by (auto split: if_splits)
  have "server_joined ?fs \<or> (st' = Unaware \<or> st' = AwareUnjoined) \<and> keys = {}"
    using u(3,4) st(2,3) by (auto simp: server_joined_def split: if_splits)
  then have "server_joined ?fs \<or> (fa_role ?fs = ServerUnicast Unaware \<or> fa_role ?fs = ServerUnicast AwareUnjoined) \<and> keys = {}"
    using u(3) by simp
  then have "server_inv ?fs sent (insert (McState cid action data) received) keys"
  proof (rule server_invI)
    show "\<forall>a \<in> set (fa_announce ?fs). an_probe_path a" using inv u(2) by (simp add: server_inv_def)
    show "\<forall>g \<in> keys. server_key ?fs g" by (rule keyed)
    fix cid' pid
    show "fa_role ?fs = ServerUnicast (ListenMcPath True) \<and> fa_path_id ?fs = Some pid"
      if "McState cid' 4 pid \<in> insert (McState cid action data) received" using path [OF that] u(3) by simp
    show "\<exists>cid' pid. McState cid' 4 pid \<in> insert (McState cid action data) received \<and> fa_path_id ?fs = Some pid"
      if "fa_role ?fs = ServerUnicast (ListenMcPath True)" using that new u(3) by simp
  next
    fix cid' idx' assume "fa_chan_id ?fs = Some (cid', idx')"
    then show "get_mc_announce_data_index cid' ?fs = Some idx' \<and> (\<exists>action data. McState cid' action data \<in> sent)"
      using idx f by (auto simp: get_mc_announce_data_index_def)
  qed
  with c' show ?thesis by blast
qed

lemma mc_key_frame_server:
  assumes inv: "server_inv fs sent received keys" and f: "mc_key_frame fs = Inr f"
  shows "server_key fs f \<and> server_joined fs"
proof -
  obtain a key algo where a: "get_mc_announce_data_active fs = Some a" "get_decryption_key_secret fs = Inr key"
    "get_decryption_key_algo fs = Inr algo"
    and f': "f = McKey (an_channel_id a) key algo (case fa_first_pn fs of Some pn \<Rightarrow> pn | None \<Rightarrow> 0)"
    using f by (auto simp: mc_key_frame_def split: option.splits)
  obtain cid idx where idx: "fa_chan_id fs = Some (cid, idx)" "get_mc_announce_data idx fs = Some a"
    using a(1) by (auto simp: get_mc_announce_data_active_def split: option.splits)
  then have index: "get_mc_announce_data_index cid fs = Some idx" using inv by (simp add: server_inv_def)
  then have "an_channel_id (fa_announce fs ! idx) = cid"
    using position_SomeD [of "\<lambda>a. an_channel_id a = cid" "fa_announce fs" idx]
    by (simp add: get_mc_announce_data_index_def)
  then have cid: "an_channel_id a = cid" using idx(2) by (auto simp: get_mc_announce_data_def split: if_splits)
  have "an_secret a = Some key" "algo = (case an_algo a of Some x \<Rightarrow> x | None \<Rightarrow> AES128_GCM)"
    using a(2,3) idx by (auto simp: get_decryption_key_secret_def get_decryption_key_algo_def fc_chan_idx_def
        announce_at_def split: if_splits option.splits)
  moreover have "server_joined fs"
    using a(2) inv by (auto simp: get_decryption_key_secret_def server_inv_def server_joined_def split: if_splits)
  ultimately show ?thesis using idx index f' cid unfolding server_key_def by blast
qed

lemma server_send_inv:
  assumes inv: "server_inv fs sent received keys" and c: "fcc_flexicast c = Some fs"
    and step: "send_mc_key c p = Inr (c', p')" and p: "pk_frames p = []"
  shows "\<exists>fs'. c' = put_fca fs' c \<and> server_inv fs' sent received (keys \<union> set (pk_frames p'))"
proof -
  obtain send where send: "should_send_fc_key fs = Inr send" using step c by (auto simp: send_mc_key_def)
  show ?thesis
  proof (cases send)
    case False
    then show ?thesis using step c send inv p put_fca_same [OF c] by (intro exI [of _ fs]) (auto simp: send_mc_key_def)
  next
    case True
    with step c send obtain f ok p1 where f: "mc_key_frame fs = Inr f" "push_frame_to_pkt f p = Inr (ok, p1)"
      and r: "if ok then c' = put_fca (set_mc_key_read True fs) c \<and> p' = eliciting p1 else c' = c \<and> p' = p1"
      by (auto simp: send_mc_key_def split: if_splits)
    show ?thesis
    proof (cases ok)
      case True
      then have frames: "set (pk_frames p') = {f}" using r push_frames [OF f(2)] p by (simp add: eliciting_def)
      have "server_inv fs sent received (insert f keys)"
        using inv mc_key_frame_server [OF inv f(1)] by (simp add: server_inv_def)
      then have "server_inv (set_mc_key_read True fs) sent received (insert f keys)"
        by (rule server_inv_same) (simp_all add: set_mc_key_read_def)
      then show ?thesis using True r frames by (intro exI [of _ "set_mc_key_read True fs"]) simp
    next
      case False
      with r push_frames [OF f(2)] p inv put_fca_same [OF c] show ?thesis by (intro exI [of _ fs]) auto
    qed
  qed
qed

lemma server_acked_inv:
  assumes inv: "server_inv fs sent received keys" and c: "fcc_flexicast c = Some fs" and keys: "keys \<noteq> {}"
    and step: "acked_mc_key c = Inr c'"
  shows "\<exists>fs'. c' = put_fca fs' c \<and> server_inv fs' sent received keys"
proof -
  let ?fs = "set_mc_key_read True fs"
  have inv': "server_inv ?fs sent received keys"
    using inv by (rule server_inv_same) (simp_all add: set_mc_key_read_def)
  obtain st fs' where upd: "update_client_state DecryptionKey None ?fs = Inr (st, fs')" and c': "c' = put_fca fs' c"
    using step c by (auto simp: acked_mc_key_def)
  obtain sts where sts: "fa_role ?fs = ServerUnicast sts" "sts \<in> {JoinedNoKey, JoinedAndKey, ListenMcPath True}"
    using server_status [OF inv'] keys by blast
  then have "fs' = ?fs\<lparr>fa_role := ServerUnicast (if sts = JoinedNoKey then JoinedAndKey else sts)\<rparr>"
    using upd unfolding server_update [OF sts(1)] by (elim insertE emptyE) (auto simp: update_defs)
  moreover have "server_inv (?fs\<lparr>fa_role := ServerUnicast (if sts = JoinedNoKey then JoinedAndKey else sts)\<rparr>)
      sent received keys"
  proof (cases "sts = JoinedNoKey")
    case True
    let ?fs1 = "?fs\<lparr>fa_role := ServerUnicast JoinedAndKey\<rparr>"
    have "server_key ?fs1 = server_key ?fs" "\<And>cid. get_mc_announce_data_index cid ?fs1 = get_mc_announce_data_index cid ?fs"
      using server_key_cong [of ?fs1 ?fs] by simp_all
    with True inv' sts(1) show ?thesis by (auto simp: server_inv_def server_joined_def)
  next
    case False
    with inv' sts(1) show ?thesis by (auto elim: server_inv_same)
  qed
  ultimately show ?thesis using c' by blast
qed

lemma server_announced_inv:
  assumes inv: "server_inv fs sent received keys" and c: "fcc_flexicast c = Some fs"
    and step: "acked_mc_announce cid c = Inr c'"
  shows "\<exists>fs'. c' = put_fca fs' c \<and> server_inv fs' sent received keys"
proof (cases "get_mc_announce_data_index cid fs")
  case None
  with step c inv put_fca_same [OF c] show ?thesis by (intro exI [of _ fs]) (simp add: acked_mc_announce_def)
next
  case (Some idx)
  then obtain st fs' where upd: "update_client_state Notify None fs = Inr (st, fs')" and c': "c' = put_fca fs' c"
    using step c by (auto simp: acked_mc_announce_def)
  obtain sts where sts: "fa_role fs = ServerUnicast sts"
    "sts \<in> {Unaware, AwareUnjoined, JoinedNoKey, JoinedAndKey, ListenMcPath True}"
    using server_status [OF inv] by blast
  then have fs': "fs' = fs\<lparr>fa_role := ServerUnicast (if sts = Unaware then AwareUnjoined else sts)\<rparr>"
    using upd unfolding server_update [OF sts(1)] by (elim insertE emptyE) (auto simp: update_defs)
  have "server_inv fs' sent received keys"
  proof (cases "sts = Unaware")
    case True
    have "server_key fs' = server_key fs" "\<And>cid. get_mc_announce_data_index cid fs' = get_mc_announce_data_index cid fs"
      using server_key_cong [of fs' fs] fs' by simp_all
    with True inv sts(1) fs' show ?thesis by (auto simp: server_inv_def server_joined_def)
  next
    case False
    with inv sts(1) fs' show ?thesis by (auto elim: server_inv_same)
  qed
  with c' show ?thesis by blast
qed

section \<open>Reachable states\<close>

lemma join_inv_init: "join_init s \<Longrightarrow> join_inv s"
  by (auto simp: join_init_def join_inv_def client_inv_def server_inv_def)

lemma put_fca_facts [simp]:
  "fcc_flexicast (put_fca fa c) = Some fa" "fcc_is_server (put_fca fa c) = fcc_is_server c"
  by (simp_all add: put_fca_def)

lemma join_inv_step:
  assumes "join_inv s" "join_step derive s s'"
  shows "join_inv s'"
proof -
  obtain fc fs where c: "fcc_flexicast (js_client s) = Some fc" "\<not> fcc_is_server (js_client s)"
    and sv: "fcc_flexicast (js_server s) = Some fs" "fcc_is_server (js_server s)"
    and sub: "js_c_received s \<subseteq> js_c_sent s" "js_s_received s \<subseteq> js_s_sent s"
    and ci: "client_inv fc (js_c_sent s) (js_c_received s) (js_s_sent s)"
    and si: "server_inv fs (js_c_sent s) (js_c_received s) (js_s_sent s)"
    using assms(1) by (auto simp: join_inv_def)
  from assms(2) show ?thesis
  proof cases
    case (client_join cid st c')
    with client_join_inv [OF ci c(1)] show ?thesis using c sv sub si by (fastforce simp: join_inv_def)
  next
    case (client_path fa pid)
    with client_path_inv [OF ci, of pid] show ?thesis using c sv sub si by (auto simp: join_inv_def)
  next
    case (client_send p c' p')
    with client_send_inv [OF ci c(1)] server_inv_mono [OF si, of "js_c_sent s \<union> set (pk_frames p')"]
    show ?thesis using c sv sub by (fastforce simp: join_inv_def)
  next
    case (client_acked cid action data c')
    with client_acked_inv [OF ci c(1) _ sub(1)] show ?thesis using c sv sub si by (fastforce simp: join_inv_def)
  next
    case client_lost
    then show ?thesis using c sv sub si ci
      by (auto simp: join_inv_def lost_mc_state_def set_mc_state_in_flight_def client_inv_flag)
  next
    case (client_key cid key algo pn c' space)
    with client_key_inv [OF ci c] show ?thesis using c sv sub si by (fastforce simp: join_inv_def)
  next
    case (server_state cid action data new_path c')
    with server_state_inv [OF si ci sv(1) sub(1)]
      client_inv_mono [OF ci, of "insert (McState cid action data) (js_c_received s)" "js_s_sent s"]
    show ?thesis using c sv sub by (fastforce simp: join_inv_def)
  next
    case (server_send p c' p')
    with server_send_inv [OF si sv(1)]
      client_inv_mono [OF ci, of "js_c_received s" "js_s_sent s \<union> set (pk_frames p')"]
    show ?thesis using c sv sub by (fastforce simp: join_inv_def)
  next
    case (server_acked cid key algo pn c')
    then have "js_s_sent s \<noteq> {}" using sub(2) by auto
    with server_acked_inv [OF si sv(1)] server_acked show ?thesis using c sv sub ci by (fastforce simp: join_inv_def)
  next
    case server_lost
    have "server_inv (set_mc_key_read False fs) (js_c_sent s) (js_c_received s) (js_s_sent s)"
      using si by (rule server_inv_same) (simp_all add: set_mc_key_read_def)
    with server_lost show ?thesis using c sv sub ci by (auto simp: join_inv_def lost_mc_key_def)
  next
    case (server_announced cid c')
    with server_announced_inv [OF si sv(1)] show ?thesis using c sv sub ci by (fastforce simp: join_inv_def)
  qed
qed

lemma join_reach_inv: "join_reach derive s \<Longrightarrow> join_inv s"
  by (induction rule: join_reach.induct) (auto intro: join_inv_init join_inv_step)

section \<open>Properties\<close>


text \<open>A run without loss in which the receiver joins.\<close>

lemma sample_push:
  "\<exists>p'. push_frame_to_pkt (McState [7] 1 0) (sample_pkt [0, 0, 0, 0, 0, 0, 0, 0]) = Inr (True, p') \<and> pk_frames p' = [McState [7] 1 0]"
  "\<exists>p'. push_frame_to_pkt (McState [7] 4 9) (sample_pkt [0, 0, 0, 0, 0, 0, 0, 0]) = Inr (True, p') \<and> pk_frames p' = [McState [7] 4 9]"
  "\<exists>p'. push_frame_to_pkt (McKey [7] [1] AES128_GCM 0) (sample_pkt [0, 0, 0, 0, 0, 0, 0, 0]) = Inr (True, p') \<and>
     pk_frames p' = [McKey [7] [1] AES128_GCM 0]"
  by (simp_all add: push_frame_to_pkt_def wire_len_def len_sum_def varint_len_def sample_pkt_def
      Frame_to_bytes_def put_mc_key_def put_mc_state_def put_all.simps put_varint_def put_varint_with_len_def put_bytes_def
      put_u8_def put_u16_def put_u_def cap_def or_first_def be_bytes_numerals)

definition sample_client :: "mc_client_status \<Rightarrow> bool \<Rightarrow> flexicast_attributes" where
  "sample_client st in_flight = (FlexicastAttributes_default 0)\<lparr>fa_role := Client st, fa_announce := [sample_announce],
     fa_chan_id := Some ([7], 0), fa_reliable := Receiver RFcRecv_default, fa_state_in_flight := in_flight\<rparr>"

definition sample_keyed :: "mc_client_status \<Rightarrow> bool \<Rightarrow> nat option \<Rightarrow> flexicast_attributes" where
  "sample_keyed st in_flight path = (sample_client st in_flight)\<lparr>fa_path_id := path,
     fa_announce := [sample_announce\<lparr>an_secret := Some [1], an_algo := Some AES128_GCM\<rparr>],
     fa_crypto_open := Some (AES128_GCM, [1]), fa_crypto_seal := Some (AES128_GCM, [1])\<rparr>"

definition sample_uc :: "mc_client_status \<Rightarrow> (byte list \<times> nat) option \<Rightarrow> bool \<Rightarrow> nat option \<Rightarrow> flexicast_attributes" where
  "sample_uc st chan key path = (FlexicastAttributes_default 0)\<lparr>fa_role := ServerUnicast st,
     fa_announce := [sample_announce\<lparr>an_is_processed := True, an_secret := Some [1]\<rparr>],
     fa_chan_id := chan, fa_key_up_to_date := key, fa_path_id := path\<rparr>"

lemmas sample_defs = sample_client_def sample_keyed_def sample_uc_def sample_conn_def sample_announce_def put_fca_def
  FlexicastAttributes_default_def

lemma sample_client_ops:
  "mc_join_channel None (sample_conn False (Some ((FlexicastAttributes_default 0)
     \<lparr>fa_role := Client AwareUnjoined, fa_announce := [sample_announce]\<rparr>))) =
   Inr (WaitingToJoin, sample_conn False (Some (sample_client WaitingToJoin False)))"
  "\<exists>p'. send_mc_state (sample_conn False (Some (sample_client WaitingToJoin False))) (sample_pkt [0, 0, 0, 0, 0, 0, 0, 0]) =
     Inr (sample_conn False (Some (sample_client WaitingToJoin True)), p') \<and> pk_frames p' = [McState [7] 1 0]"
  "acked_mc_state 1 0 (sample_conn False (Some (sample_client WaitingToJoin True))) =
   Inr (sample_conn False (Some (sample_client JoinedNoKey False)))"
  "\<exists>space. recv_mc_key (\<lambda>_ _. True) [1] AES128_GCM 0 (sample_conn False (Some (sample_client JoinedNoKey False))) =
   Inr (sample_conn False (Some (sample_keyed JoinedAndKey False None)), space)"
  "put_fca (set_fc_path_id 9 (sample_keyed JoinedAndKey False None)) (sample_conn False (Some (sample_keyed JoinedAndKey False None))) =
   sample_conn False (Some (sample_keyed JoinedAndKey False (Some 9)))"
  "\<exists>p'. send_mc_state (sample_conn False (Some (sample_keyed JoinedAndKey False (Some 9)))) (sample_pkt [0, 0, 0, 0, 0, 0, 0, 0]) =
     Inr (sample_conn False (Some (sample_keyed JoinedAndKey True (Some 9))), p') \<and> pk_frames p' = [McState [7] 4 9]"
  "acked_mc_state 4 9 (sample_conn False (Some (sample_keyed JoinedAndKey True (Some 9)))) =
   Inr (sample_conn False (Some (sample_keyed (ListenMcPath True) False (Some 9))))"
proof -
  show "mc_join_channel None (sample_conn False (Some ((FlexicastAttributes_default 0)
       \<lparr>fa_role := Client AwareUnjoined, fa_announce := [sample_announce]\<rparr>))) =
     Inr (WaitingToJoin, sample_conn False (Some (sample_client WaitingToJoin False)))"
    by (simp add: sample_defs mc_join_channel_def fca_def announce_at_def get_mc_announce_data_def
        update_client_state_def update_defs)
  show "\<exists>p'. send_mc_state (sample_conn False (Some (sample_client WaitingToJoin False))) (sample_pkt [0, 0, 0, 0, 0, 0, 0, 0]) =
     Inr (sample_conn False (Some (sample_client WaitingToJoin True)), p') \<and> pk_frames p' = [McState [7] 1 0]"
    using sample_push(1) by (elim exE conjE, intro exI [of _ "(eliciting _)\<lparr>pk_has_data := True\<rparr>"])
      (simp add: sample_defs send_mc_state_def should_send_fc_state_def mc_state_frame_def
        get_mc_announce_data_active_def get_mc_announce_data_def set_mc_state_in_flight_def eliciting_def)
  show "acked_mc_state 1 0 (sample_conn False (Some (sample_client WaitingToJoin True))) =
     Inr (sample_conn False (Some (sample_client JoinedNoKey False)))"
    by (simp add: sample_defs acked_mc_state_def set_mc_state_in_flight_def FcClientAction_try_from_def
        update_client_state_def update_defs)
  show "\<exists>space. recv_mc_key (\<lambda>_ _. True) [1] AES128_GCM 0 (sample_conn False (Some (sample_client JoinedNoKey False))) =
     Inr (sample_conn False (Some (sample_keyed JoinedAndKey False None)), space)"
    by (simp add: sample_defs recv_mc_key_def set_decryption_key_secret_def fc_chan_idx_def announce_at_def
        get_mc_announce_data_def set_announce_def update_client_state_def update_defs)
  show "put_fca (set_fc_path_id 9 (sample_keyed JoinedAndKey False None)) (sample_conn False (Some (sample_keyed JoinedAndKey False None))) =
     sample_conn False (Some (sample_keyed JoinedAndKey False (Some 9)))"
    by (simp add: sample_defs set_fc_path_id_def)
  show "\<exists>p'. send_mc_state (sample_conn False (Some (sample_keyed JoinedAndKey False (Some 9)))) (sample_pkt [0, 0, 0, 0, 0, 0, 0, 0]) =
     Inr (sample_conn False (Some (sample_keyed JoinedAndKey True (Some 9))), p') \<and> pk_frames p' = [McState [7] 4 9]"
    using sample_push(2) by (elim exE conjE, intro exI [of _ "(eliciting _)\<lparr>pk_has_data := True\<rparr>"])
      (simp add: sample_defs send_mc_state_def should_send_fc_state_def mc_state_frame_def
        get_mc_announce_data_active_def get_mc_announce_data_def set_mc_state_in_flight_def eliciting_def)
  show "acked_mc_state 4 9 (sample_conn False (Some (sample_keyed JoinedAndKey True (Some 9)))) =
     Inr (sample_conn False (Some (sample_keyed (ListenMcPath True) False (Some 9))))"
    by (simp add: sample_defs acked_mc_state_def set_mc_state_in_flight_def FcClientAction_try_from_def
        update_client_state_def update_defs)
qed

lemma sample_server_ops:
  "recv_mc_state panic [7] 1 0 (sample_conn True (Some (sample_uc Unaware None False None))) =
   Inr (sample_conn True (Some (sample_uc JoinedNoKey (Some ([7], 0)) False None)))"
  "\<exists>p'. send_mc_key (sample_conn True (Some (sample_uc JoinedNoKey (Some ([7], 0)) False None))) (sample_pkt [0, 0, 0, 0, 0, 0, 0, 0]) =
   Inr (sample_conn True (Some (sample_uc JoinedNoKey (Some ([7], 0)) True None)), p') \<and> pk_frames p' = [McKey [7] [1] AES128_GCM 0]"
  "recv_mc_state panic [7] 4 9 (sample_conn True (Some (sample_uc JoinedNoKey (Some ([7], 0)) True None))) =
   Inr (sample_conn True (Some (sample_uc (ListenMcPath True) (Some ([7], 0)) True (Some 9))))"
proof -
  show "recv_mc_state panic [7] 1 0 (sample_conn True (Some (sample_uc Unaware None False None))) =
     Inr (sample_conn True (Some (sample_uc JoinedNoKey (Some ([7], 0)) False None)))"
    by (simp add: sample_defs recv_mc_state_def fca_def FcClientAction_try_from_def update_client_state_def update_defs
        announce_at_def get_mc_announce_data_def get_mc_announce_data_index_def)
  show "\<exists>p'. send_mc_key (sample_conn True (Some (sample_uc JoinedNoKey (Some ([7], 0)) False None))) (sample_pkt [0, 0, 0, 0, 0, 0, 0, 0]) =
     Inr (sample_conn True (Some (sample_uc JoinedNoKey (Some ([7], 0)) True None)), p') \<and> pk_frames p' = [McKey [7] [1] AES128_GCM 0]"
    using sample_push(3) by (elim exE conjE, intro exI [of _ "eliciting _"])
      (simp add: sample_defs send_mc_key_def should_send_fc_key_def announce_at_def key_wanted_def
        get_mc_announce_data_def mc_key_frame_def get_mc_announce_data_active_def get_decryption_key_secret_def
        fc_chan_idx_def get_decryption_key_algo_def set_mc_key_read_def eliciting_def)
  show "recv_mc_state panic [7] 4 9 (sample_conn True (Some (sample_uc JoinedNoKey (Some ([7], 0)) True None))) =
     Inr (sample_conn True (Some (sample_uc (ListenMcPath True) (Some ([7], 0)) True (Some 9))))"
    by (simp add: sample_defs recv_mc_state_def fca_def FcClientAction_try_from_def update_client_state_def update_defs
        get_mc_announce_data_def get_mc_announce_data_index_def)
qed

definition sample_init :: join_sys where
  "sample_init = \<lparr>js_client = sample_conn False (Some ((FlexicastAttributes_default 0)
       \<lparr>fa_role := Client AwareUnjoined, fa_announce := [sample_announce]\<rparr>)),
     js_server = sample_conn True (Some (sample_uc Unaware None False None)),
     js_c_sent = {}, js_s_sent = {}, js_c_received = {}, js_s_received = {}\<rparr>"

lemma sample_run:
  "\<exists>s. join_reach (\<lambda>_ _. True) s \<and>
     js_client s = sample_conn False (Some (sample_keyed (ListenMcPath True) False (Some 9))) \<and>
     js_server s = sample_conn True (Some (sample_uc (ListenMcPath True) (Some ([7], 0)) True (Some 9)))"
proof -
  let ?join = "McState [7] 1 0" and ?path = "McState [7] 4 9" and ?key = "McKey [7] [1] AES128_GCM 0"
  let ?cl = "\<lambda>fa. sample_conn False (Some fa)" and ?sv = "\<lambda>fa. sample_conn True (Some fa)"
  let ?pkt = "sample_pkt [0, 0, 0, 0, 0, 0, 0, 0]"
  have pkt: "pk_frames ?pkt = []" by (simp add: sample_pkt_def)
  note step = join_reach.reach_step
  have "join_init sample_init" by (simp add: join_init_def sample_init_def sample_defs)
  then have "join_reach (\<lambda>_ _. True) sample_init" by (rule reach_init)
  from step [OF this client_join [of None]] sample_client_ops(1)
  have "join_reach (\<lambda>_ _. True) (sample_init\<lparr>js_client := ?cl (sample_client WaitingToJoin False)\<rparr>)"
    by (simp add: sample_init_def)
  from step [OF this client_send [OF pkt]] sample_client_ops(2)
  have "join_reach (\<lambda>_ _. True) (sample_init\<lparr>js_client := ?cl (sample_client WaitingToJoin True), js_c_sent := {?join}\<rparr>)"
    by (auto simp: sample_init_def)
  from step [OF this server_state [of "[7]" 1 0 _ panic]] sample_server_ops(1)
  have "join_reach (\<lambda>_ _. True) (sample_init\<lparr>js_client := ?cl (sample_client WaitingToJoin True),
      js_server := ?sv (sample_uc JoinedNoKey (Some ([7], 0)) False None), js_c_sent := {?join}, js_c_received := {?join}\<rparr>)"
    by (simp add: sample_init_def)
  from step [OF this client_acked [of "[7]" 1 0]] sample_client_ops(3)
  have "join_reach (\<lambda>_ _. True) (sample_init\<lparr>js_client := ?cl (sample_client JoinedNoKey False),
      js_server := ?sv (sample_uc JoinedNoKey (Some ([7], 0)) False None), js_c_sent := {?join}, js_c_received := {?join}\<rparr>)"
    by (simp add: sample_init_def)
  from step [OF this server_send [OF pkt]] sample_server_ops(2)
  have "join_reach (\<lambda>_ _. True) (sample_init\<lparr>js_client := ?cl (sample_client JoinedNoKey False),
      js_server := ?sv (sample_uc JoinedNoKey (Some ([7], 0)) True None), js_c_sent := {?join}, js_s_sent := {?key},
      js_c_received := {?join}\<rparr>)"
    by (auto simp: sample_init_def)
  from step [OF this client_key [of "[7]" "[1]" AES128_GCM 0]] sample_client_ops(4)
  have "join_reach (\<lambda>_ _. True) (sample_init\<lparr>js_client := ?cl (sample_keyed JoinedAndKey False None),
      js_server := ?sv (sample_uc JoinedNoKey (Some ([7], 0)) True None), js_c_sent := {?join}, js_s_sent := {?key},
      js_c_received := {?join}, js_s_received := {?key}\<rparr>)"
    by (auto simp: sample_init_def)
  from step [OF this client_path [of _ "sample_keyed JoinedAndKey False None" _ 9]] sample_client_ops(5)
  have "join_reach (\<lambda>_ _. True) (sample_init\<lparr>js_client := ?cl (sample_keyed JoinedAndKey False (Some 9)),
      js_server := ?sv (sample_uc JoinedNoKey (Some ([7], 0)) True None), js_c_sent := {?join}, js_s_sent := {?key},
      js_c_received := {?join}, js_s_received := {?key}\<rparr>)"
    by (simp add: sample_init_def sample_conn_def sample_keyed_def)
  from step [OF this client_send [OF pkt]] sample_client_ops(6)
  have "join_reach (\<lambda>_ _. True) (sample_init\<lparr>js_client := ?cl (sample_keyed JoinedAndKey True (Some 9)),
      js_server := ?sv (sample_uc JoinedNoKey (Some ([7], 0)) True None), js_c_sent := {?join, ?path}, js_s_sent := {?key},
      js_c_received := {?join}, js_s_received := {?key}\<rparr>)"
    by (auto simp: sample_init_def insert_commute)
  from step [OF this server_state [of "[7]" 4 9 _ panic]] sample_server_ops(3)
  have "join_reach (\<lambda>_ _. True) (sample_init\<lparr>js_client := ?cl (sample_keyed JoinedAndKey True (Some 9)),
      js_server := ?sv (sample_uc (ListenMcPath True) (Some ([7], 0)) True (Some 9)), js_c_sent := {?join, ?path},
      js_s_sent := {?key}, js_c_received := {?path, ?join}, js_s_received := {?key}\<rparr>)"
    by (simp add: sample_init_def)
  from step [OF this client_acked [of "[7]" 4 9]] sample_client_ops(7)
  have "join_reach (\<lambda>_ _. True) (sample_init\<lparr>js_client := ?cl (sample_keyed (ListenMcPath True) False (Some 9)),
      js_server := ?sv (sample_uc (ListenMcPath True) (Some ([7], 0)) True (Some 9)), js_c_sent := {?join, ?path},
      js_s_sent := {?key}, js_c_received := {?path, ?join}, js_s_received := {?key}\<rparr>)"
    by (simp add: sample_init_def)
  then show ?thesis by (intro exI conjI) (assumption, simp_all)
qed


end
