(* ===== verification/Recv_Buf.thy ===== *)
theory Recv_Buf
  imports Ordered_Map Range_Buf Flow_Control "HOL-Library.Multiset"
begin

text \<open>
  \<open>RecvBuf\<close> of \<open>quiche/src/stream/recv_buf.rs\<close> and its flexicast extension \<open>FcRecvBuf\<close> of
  \<open>quiche/src/stream/flexicast.rs\<close>: the receive side of a stream, which stores the chunks that
  arrive in any order and hands out the bytes in order. With stream rotation the first byte
  handed out is at an offset in the middle of the stream; when the end is reached, the buffer
  loops back to the beginning.

  In the source a receive buffer owns an optional \<open>FcRecvBuf\<close>, which owns an optional receive
  buffer. The nesting ends there: the inner buffer comes from \<open>RecvBuf::new\<close> and nothing ever
  sets its extension. Here the type of the inner buffer is a parameter, and \<open>write\<close> takes the
  \<open>write\<close> of the inner buffer and the looping as arguments; \<open>inner_write\<close> and
  \<open>stream_write\<close> tie the knot.

  An error of \<open>write\<close> or \<open>reset\<close> closes the connection, so the state it leaves behind is not
  modelled; \<open>emit\<close> can be called again after an error and returns its state in every case.
\<close>

section \<open>State\<close>

abbreviation (input) DEFAULT_STREAM_WINDOW :: nat where "DEFAULT_STREAM_WINDOW \<equiv> 32 * 1024"

record 'i fc_recv_buf =
  fc_init_off :: nat
  fc_looped :: bool
  fc_recv_buf :: "'i option"
  fc_can_read :: bool
  fc_fin_off :: "nat option"

record 'i recv_buf =
  rv_data :: "(nat, range_buf) btree_map"
  rv_off :: nat
  rv_len :: nat
  rv_flow :: flow_control
  rv_fin_off :: "nat option"
  rv_error :: "nat option"
  rv_drain :: bool
  rv_fc :: "'i fc_recv_buf option"

type_synonym inner_recv = "unit recv_buf"
type_synonym stream_recv = "inner_recv recv_buf"

definition RecvBuf_new :: "nat \<Rightarrow> nat \<Rightarrow> 'i recv_buf" where
  "RecvBuf_new maxd max_win =
     \<lparr>rv_data = [], rv_off = 0, rv_len = 0,
      rv_flow = FlowControl_new maxd (min maxd DEFAULT_STREAM_WINDOW) max_win,
      rv_fin_off = None, rv_error = None, rv_drain = False, rv_fc = None\<rparr>"

definition FcRecvBuf_new :: "nat \<Rightarrow> nat \<Rightarrow> nat \<Rightarrow> inner_recv fc_recv_buf" where
  "FcRecvBuf_new offset maxd max_win =
     \<lparr>fc_init_off = offset, fc_looped = False, fc_recv_buf = Some (RecvBuf_new maxd max_win),
      fc_can_read = False, fc_fin_off = None\<rparr>"

section \<open>Writing\<close>

text \<open>\<open>FcRecvBuf::write\<close>: after the loop there is no inner buffer and the data is dropped.\<close>

definition FcRecvBuf_write ::
  "(range_buf \<Rightarrow> 'i \<Rightarrow> 'i result) \<Rightarrow> range_buf \<Rightarrow> 'i fc_recv_buf \<Rightarrow> 'i fc_recv_buf result" where
  "FcRecvBuf_write iw buf f =
     (case fc_recv_buf f of
        Some i \<Rightarrow> try_bind (iw buf i) (\<lambda>i'. Inr (f\<lparr>fc_recv_buf := Some i'\<rparr>))
      | None \<Rightarrow> Inr f)"

text \<open>A late duplicate of data sent before the loop is cut at the new final offset.\<close>

definition write_strip :: "range_buf \<Rightarrow> 'i recv_buf \<Rightarrow> (range_buf \<times> 'i recv_buf) result" where
  "write_strip buf r =
     (case (rv_fc r, rv_fin_off r) of
        (Some f, Some fin_off) \<Rightarrow>
          try_bind (RangeBuf_max_off buf) (\<lambda>m.
            if fc_looped f \<and> m > fin_off then
              (case fc_fin_off f of
                 Some off \<Rightarrow>
                   if off \<ge> m then
                     try_bind (RangeBuf_split_off (fin_off - rb_off buf) buf) (\<lambda>(buf', _).
                     try_bind (RangeBuf_max_off buf') (\<lambda>m'.
                       Inr (buf', r\<lparr>rv_fin_off := Some m'\<rparr>)))
                   else err FinalSize
               | None \<Rightarrow> err FinalSize)
            else Inr (buf, r))
      | _ \<Rightarrow> Inr (buf, r))"

text \<open>The checks against the final size.\<close>

definition write_check :: "range_buf \<Rightarrow> 'i recv_buf \<Rightarrow> unit result" where
  "write_check buf r =
     try_bind (RangeBuf_max_off buf) (\<lambda>m.
       try_bind
         (case rv_fin_off r of
            Some fin_off \<Rightarrow>
              if m > fin_off then err FinalSize
              else if rb_fin buf \<and> fin_off \<noteq> m then err FinalSize else Inr ()
          | None \<Rightarrow> Inr ())
         (\<lambda>_. if rb_fin buf \<and> m < rv_len r then err FinalSize else Inr ()))"

text \<open>Data that lies entirely below the current offset.\<close>

definition write_below ::
  "(range_buf \<Rightarrow> 'i \<Rightarrow> 'i result) \<Rightarrow> ('i recv_buf \<Rightarrow> 'i recv_buf \<times> unit result) \<Rightarrow>
   range_buf \<Rightarrow> 'i recv_buf \<Rightarrow> 'i recv_buf result" where
  "write_below iw loop buf r =
     (case rv_fc r of
        None \<Rightarrow> Inr r
      | Some f \<Rightarrow>
          try_bind (RangeBuf_max_off buf) (\<lambda>m.
          try_bind (FcRecvBuf_write iw buf f) (\<lambda>f'.
            let r = r\<lparr>rv_fc := Some f'\<rparr> in
            if rb_fin buf then
              if fc_init_off f' > m then err FinalSize
              else if fc_init_off f' = m then
                (case loop r of (r', Inr _) \<Rightarrow> Inr r' | (_, Inl e) \<Rightarrow> Inl e)
              else Inr r
            else Inr r)))"

text \<open>The part of a buffer below the current offset is dropped or kept for the loop.\<close>

definition write_front ::
  "(range_buf \<Rightarrow> 'i \<Rightarrow> 'i result) \<Rightarrow> range_buf \<Rightarrow> 'i recv_buf \<Rightarrow>
   (range_buf \<times> 'i recv_buf) result" where
  "write_front iw buf r =
     try_bind (RangeBuf_off buf) (\<lambda>off.
       if rv_off r > off then
         try_bind (RangeBuf_split_off (rv_off r - off) buf) (\<lambda>(buf, buf_after).
           (case rv_fc r of
              Some f \<Rightarrow> try_bind (FcRecvBuf_write iw buf f) (\<lambda>f'.
                Inr (buf_after, r\<lparr>rv_fc := Some f'\<rparr>))
            | None \<Rightarrow> Inr (buf_after, r)))
       else Inr (buf, r))"

text \<open>The \<open>for\<close> loop over the stored chunks from the offset of the new buffer on. \<open>None\<close> means
  that the new buffer is contained in a chunk (\<open>continue 'tmp\<close>).\<close>

fun overlap_for ::
  "(nat \<times> range_buf) list \<Rightarrow> range_buf \<Rightarrow> range_buf list \<Rightarrow>
   (range_buf option \<times> range_buf list) result" where
  "overlap_for [] buf tmp = Inr (Some buf, tmp)"
| "overlap_for ((_, b) # bs) buf tmp =
     try_bind (RangeBuf_off buf) (\<lambda>off.
     try_bind (RangeBuf_max_off buf) (\<lambda>m.
     try_bind (RangeBuf_off b) (\<lambda>b_off.
     try_bind (RangeBuf_max_off b) (\<lambda>b_max.
       if b_off > m then Inr (Some buf, tmp)
       else if off \<ge> b_off \<and> m \<le> b_max then Inr (None, tmp)
       else
         try_bind (if off \<ge> b_off \<and> off < b_max
                   then try_bind (RangeBuf_split_off (b_max - off) buf) (\<lambda>(_, hi). Inr hi)
                   else Inr buf) (\<lambda>buf.
         try_bind (RangeBuf_max_off buf) (\<lambda>m.
           if off < b_off \<and> m > b_off
           then try_bind (RangeBuf_split_off (b_off - off) buf) (\<lambda>(lo, hi).
                  overlap_for bs lo (tmp @ [hi]))
           else overlap_for bs buf tmp))))))"

definition write_overlap ::
  "range_buf \<Rightarrow> range_buf list \<Rightarrow> 'i recv_buf \<Rightarrow>
   (range_buf option \<times> range_buf list) result" where
  "write_overlap buf tmp r =
     try_bind (RangeBuf_off buf) (\<lambda>off.
     try_bind (RangeBuf_is_empty buf) (\<lambda>e.
       if off < rv_len r \<or> e then overlap_for (bt_from off (rv_data r)) buf tmp
       else Inr (Some buf, tmp)))"

definition write_store :: "range_buf \<Rightarrow> 'i recv_buf \<Rightarrow> 'i recv_buf result" where
  "write_store buf r =
     try_bind (RangeBuf_max_off buf) (\<lambda>m.
       let r = r\<lparr>rv_len := max (rv_len r) m\<rparr> in
       Inr (if rv_drain r then r else r\<lparr>rv_data := bt_insert m buf (rv_data r)\<rparr>))"

text \<open>The queue of buffers still to be stored. Every buffer put back into it is a proper part
  of the one taken out, so the loop ends, whatever the state.\<close>

lemma split_off_len:
  "RangeBuf_split_off at buf = Inr (lo, hi) \<Longrightarrow>
     rb_len lo = at \<and> rb_len hi = rb_len buf - at \<and> at \<le> rb_len buf"
  by (auto simp: RangeBuf_split_off_def split: if_splits)

lemma split_off_parts:
  assumes "RangeBuf_split_off at buf = Inr (lo, hi)"
  shows "rb_len lo \<le> rb_len buf" "rb_len hi \<le> rb_len buf"
  using split_off_len [OF assms] by auto

lemma split_off_proper:
  "RangeBuf_split_off (b - a) buf = Inr (lo, hi) \<Longrightarrow> a < b \<Longrightarrow>
     rb_len lo \<le> rb_len buf \<and> rb_len hi < rb_len buf"
  by (auto dest: split_off_len)

lemma overlap_for_len:
  "overlap_for bs buf tmp = Inr (bo, tmp') \<Longrightarrow> rb_len buf \<le> n \<Longrightarrow>
     \<exists>ps. tmp' = tmp @ ps \<and> (\<forall>p \<in> set ps. rb_len p < n)"
proof (induction bs arbitrary: buf tmp)
  case (Cons x bs)
  obtain k b where x: "x = (k, b)" by force
  from Cons.prems(1) consider "tmp' = tmp"
    | buf1 where "rb_len buf1 \<le> rb_len buf" "overlap_for bs buf1 tmp = Inr (bo, tmp')"
    | lo hi where "rb_len lo \<le> rb_len buf" "rb_len hi < rb_len buf"
        "overlap_for bs lo (tmp @ [hi]) = Inr (bo, tmp')"
    unfolding x overlap_for.simps try_bind_eq_Inr
    by (elim exE conjE) (auto split: if_splits prod.splits dest: split_off_parts split_off_proper)
  then show ?case
  proof cases
    case 2
    with Cons.IH [OF this(2)] Cons.prems(2) show ?thesis by simp
  next
    case (3 lo hi)
    with Cons.IH [OF this(3)] Cons.prems(2) show ?thesis by auto
  qed simp
qed simp

function write_tmp ::
  "(range_buf \<Rightarrow> 'i \<Rightarrow> 'i result) \<Rightarrow> range_buf list \<Rightarrow> 'i recv_buf \<Rightarrow> 'i recv_buf result" where
  "write_tmp iw [] r = Inr r"
| "write_tmp iw (buf # tmp) r =
     try_bind (write_front iw buf r) (\<lambda>(buf, r).
     try_bind (write_overlap buf tmp r) (\<lambda>(bo, tmp).
       (case bo of
          None \<Rightarrow> write_tmp iw tmp r
        | Some buf \<Rightarrow> try_bind (write_store buf r) (\<lambda>r. write_tmp iw tmp r))))"
  by pat_completeness auto

lemma write_front_len:
  "write_front iw buf r = Inr (buf', r') \<Longrightarrow> rb_len buf' \<le> rb_len buf"
  by (auto simp: write_front_def split: if_splits option.splits prod.splits dest!: split_off_len)

lemma write_overlap_len:
  assumes "write_overlap buf tmp r = Inr (bo, tmp')" "rb_len buf \<le> n"
  shows "\<exists>ps. tmp' = tmp @ ps \<and> (\<forall>p \<in> set ps. rb_len p < n)"
  using assms overlap_for_len [of _ buf tmp bo tmp' n]
  by (auto simp: write_overlap_def split: if_splits)

lemma write_queue_less:
  assumes "write_front iw buf r = Inr (buf1, r1)" "write_overlap buf1 tmp r1 = Inr (bo, tmp')"
  shows "(mset (map rb_len tmp'), mset (map rb_len (buf # tmp))) \<in> mult less_than"
proof -
  obtain ps where ps: "tmp' = tmp @ ps" "\<forall>p \<in> set ps. rb_len p < rb_len buf"
    using write_overlap_len [OF assms(2) write_front_len [OF assms(1)]] by blast
  then show ?thesis
    using one_step_implies_mult [of "{#rb_len buf#}" "mset (map rb_len ps)" less_than
        "mset (map rb_len tmp)"]
    by auto
qed

termination write_tmp
  by (relation "inv_image (mult less_than) (\<lambda>(_, q, _). mset (map rb_len q))")
    (auto simp: wf_mult dest!: write_queue_less)

text \<open>The rest of \<open>write\<close> once the flow-control limit and late duplicates are dealt with.\<close>

definition write_buffer ::
  "(range_buf \<Rightarrow> 'i \<Rightarrow> 'i result) \<Rightarrow> ('i recv_buf \<Rightarrow> 'i recv_buf \<times> unit result) \<Rightarrow>
   range_buf \<Rightarrow> 'i recv_buf \<Rightarrow> 'i recv_buf result" where
  "write_buffer iw loop buf r =
     try_bind (write_check buf r) (\<lambda>_.
     try_bind (RangeBuf_is_empty buf) (\<lambda>e.
     try_bind (RangeBuf_max_off buf) (\<lambda>m.
       if rv_fin_off r \<noteq> None \<and> e then Inr r
       else
         let r = (if rb_fin buf then r\<lparr>rv_fin_off := Some m\<rparr> else r) in
         if \<not> rb_fin buf \<and> e then Inr r
         else if rv_off r \<ge> m \<and> \<not> e then write_below iw loop buf r
         else write_tmp iw [buf] r)))"

definition RecvBuf_write ::
  "(range_buf \<Rightarrow> 'i \<Rightarrow> 'i result) \<Rightarrow> ('i recv_buf \<Rightarrow> 'i recv_buf \<times> unit result) \<Rightarrow>
   range_buf \<Rightarrow> 'i recv_buf \<Rightarrow> 'i recv_buf result" where
  "RecvBuf_write iw loop buf r =
     try_bind (RangeBuf_max_off buf) (\<lambda>m.
       if m > max_data (rv_flow r) then err FlowControlError
       else try_bind (write_strip buf r) (\<lambda>(buf, r). write_buffer iw loop buf r))"

section \<open>Looping\<close>

definition fc_copy :: "'j recv_buf \<Rightarrow> nat \<Rightarrow> 'i recv_buf \<Rightarrow> 'i recv_buf" where
  "fc_copy other fin_off r =
     r\<lparr>rv_data := rv_data other, rv_off := rv_off other, rv_len := rv_len other,
       rv_flow := rv_flow other, rv_error := rv_error other, rv_drain := rv_drain other,
       rv_fin_off := Some fin_off\<rparr>"

definition fc_loop_recv :: "stream_recv \<Rightarrow> stream_recv \<times> unit result" where
  "fc_loop_recv r =
     (case rv_fc r of
        None \<Rightarrow> (r, err (Flexicast FcStreamRotation))
      | Some f \<Rightarrow>
          if \<not> fc_looped f then
            let f = f\<lparr>fc_looped := True, fc_fin_off := rv_fin_off r\<rparr> in
            (case fc_recv_buf f of
               None \<Rightarrow> (r\<lparr>rv_fc := Some f\<rparr>, err (Flexicast FcStreamRotation))
             | Some i \<Rightarrow>
                 (fc_copy i (fc_init_off f) (r\<lparr>rv_fc := Some (f\<lparr>fc_recv_buf := None\<rparr>)\<rparr>), Inr ()))
          else (r, Inr ()))"

definition fc_loop_none :: "inner_recv \<Rightarrow> inner_recv \<times> unit result" where
  "fc_loop_none r = (r, err (Flexicast FcStreamRotation))"

definition inner_write :: "range_buf \<Rightarrow> inner_recv \<Rightarrow> inner_recv result" where
  "inner_write = RecvBuf_write (\<lambda>_ i. Inr i) fc_loop_none"

definition stream_write :: "range_buf \<Rightarrow> stream_recv \<Rightarrow> stream_recv result" where
  "stream_write = RecvBuf_write inner_write fc_loop_recv"

section \<open>Reading\<close>

definition RecvBuf_ready :: "'i recv_buf \<Rightarrow> bool result" where
  "RecvBuf_ready r =
     (case bt_first (rv_data r) of
        None \<Rightarrow> Inr False
      | Some (_, b) \<Rightarrow> try_bind (RangeBuf_off b) (\<lambda>off. Inr (off = rv_off r)))"

definition RecvBuf_is_fin :: "'i recv_buf \<Rightarrow> bool" where
  "RecvBuf_is_fin r \<longleftrightarrow> rv_fin_off r = Some (rv_off r)"

text \<open>How many bytes of a chunk of \<open>n\<close> bytes are copied: after the loop, none past the offset
  where the reading started.\<close>

definition emit_len :: "nat \<Rightarrow> nat \<Rightarrow> 'i recv_buf \<Rightarrow> nat" where
  "emit_len n cap r =
     (case rv_fc r of
        Some f \<Rightarrow> if fc_looped f then min (min n cap) (fc_init_off f - rv_off r) else min n cap
      | None \<Rightarrow> min n cap)"

text \<open>The loop over the chunks at the front, with the bytes copied so far.\<close>

function emit_loop :: "nat \<Rightarrow> 8 word list \<Rightarrow> 'i recv_buf \<Rightarrow> (8 word list \<times> 'i recv_buf) result" where
  "emit_loop cap out r =
     try_bind (RecvBuf_ready r) (\<lambda>rdy.
       if cap > 0 \<and> rdy then
         (case rv_data r of
            [] \<Rightarrow> Inr (out, r)
          | (k, b) # d \<Rightarrow>
              try_bind (RangeBuf_deref b) (\<lambda>bytes.
                let n = emit_len (length bytes) cap r;
                    r = r\<lparr>rv_off := rv_off r + n\<rparr>;
                    out = out @ take n bytes in
                if n < length bytes
                then try_bind (RangeBuf_consume n b) (\<lambda>b.
                       Inr (out, r\<lparr>rv_data := (k, b) # d\<rparr>))
                else emit_loop (cap - n) out (r\<lparr>rv_data := d\<rparr>)))
       else Inr (out, r))"
  by pat_completeness auto
termination emit_loop
  by (relation "measure (\<lambda>(_, _, r). length (rv_data r))") (auto simp: Let_def)

declare emit_loop.simps [simp del]

definition RecvBuf_emit ::
  "('i recv_buf \<Rightarrow> 'i recv_buf \<times> unit result) \<Rightarrow> nat \<Rightarrow> 'i recv_buf \<Rightarrow>
   'i recv_buf \<times> (8 word list \<times> bool) result" where
  "RecvBuf_emit loop cap r =
     (case RecvBuf_ready r of
        Inl e \<Rightarrow> (r, Inl e)
      | Inr False \<Rightarrow> (r, err Done)
      | Inr True \<Rightarrow>
          (case rv_error r of
             Some e \<Rightarrow> (r\<lparr>rv_data := []\<rparr>, err (StreamReset e))
           | None \<Rightarrow>
               (case emit_loop cap [] r of
                  Inl e \<Rightarrow> (r, Inl e)
                | Inr (out, r) \<Rightarrow>
                    (case add_consumed (length out) (rv_flow r) of
                       Inl e \<Rightarrow> (r, Inl e)
                     | Inr fc \<Rightarrow>
                         let r = r\<lparr>rv_flow := fc\<rparr> in
                         if RecvBuf_is_fin r \<and> rv_fc r \<noteq> None then
                           (case loop r of
                              (r, Inl e) \<Rightarrow> (r, Inl e)
                            | (r, Inr _) \<Rightarrow> (r, Inr (out, RecvBuf_is_fin r)))
                         else if (case rv_fc r of
                                    Some f \<Rightarrow> fc_looped f \<and> fc_init_off f \<le> rv_off r
                                  | None \<Rightarrow> False)
                         then (r, Inr (out, True))
                         else (r, Inr (out, RecvBuf_is_fin r))))))"

definition stream_emit :: "nat \<Rightarrow> stream_recv \<Rightarrow> stream_recv \<times> (8 word list \<times> bool) result" where
  "stream_emit = RecvBuf_emit fc_loop_recv"

section \<open>The other operations\<close>

definition RecvBuf_reset :: "nat \<Rightarrow> nat \<Rightarrow> stream_recv \<Rightarrow> (stream_recv \<times> nat) result" where
  "RecvBuf_reset error_code final_size r =
     (if (case rv_fin_off r of Some fin_off \<Rightarrow> fin_off \<noteq> final_size | None \<Rightarrow> False)
      then err FinalSize
      else if final_size < rv_len r then err FinalSize
      else
        let max_data_delta = final_size - rv_len r in
        if rv_error r \<noteq> None then Inr (r, max_data_delta)
        else
          try_bind
            (stream_write (RangeBuf_from [] final_size True)
               (r\<lparr>rv_error := Some error_code, rv_off := final_size, rv_data := []\<rparr>))
            (\<lambda>r. Inr (r, max_data_delta)))"

definition RecvBuf_shutdown :: "'i recv_buf \<Rightarrow> 'i recv_buf result" where
  "RecvBuf_shutdown r =
     (if rv_drain r then err Done
      else Inr (r\<lparr>rv_drain := True, rv_data := [], rv_off := rv_len r\<rparr>))"

definition RecvBuf_update_max_data :: "nat \<Rightarrow> 'i recv_buf \<Rightarrow> 'i recv_buf result" where
  "RecvBuf_update_max_data now r =
     try_bind (update_max_data now (rv_flow r)) (\<lambda>fc. Inr (r\<lparr>rv_flow := fc\<rparr>))"

definition RecvBuf_autotune_window :: "nat \<Rightarrow> nat \<Rightarrow> 'i recv_buf \<Rightarrow> 'i recv_buf result" where
  "RecvBuf_autotune_window now rtt r =
     try_bind (autotune_window now rtt (rv_flow r)) (\<lambda>fc. Inr (r\<lparr>rv_flow := fc\<rparr>))"

definition RecvBuf_almost_full :: "'i recv_buf \<Rightarrow> bool result" where
  "RecvBuf_almost_full r =
     (if rv_fin_off r = None then should_update_max_data (rv_flow r) else Inr False)"

fun readable_for :: "(nat \<times> range_buf) list \<Rightarrow> nat \<Rightarrow> nat option result" where
  "readable_for [] off = Inr (Some off)"
| "readable_for ((_, b) # bs) off =
     (if off \<noteq> rb_off b then Inr None
      else try_bind (RangeBuf_len b) (\<lambda>l. try_bind (checked_add off l) (readable_for bs)))"

definition RecvBuf_is_fully_readable :: "'i recv_buf \<Rightarrow> bool result" where
  "RecvBuf_is_fully_readable r =
     (if rv_fin_off r = None then Inr False
      else try_bind (readable_for (rv_data r) (rv_off r)) (\<lambda>o'.
             Inr (o' \<noteq> None \<and> o' = rv_fin_off r)))"

definition fc_set_offset_at :: "nat \<Rightarrow> stream_recv \<Rightarrow> stream_recv" where
  "fc_set_offset_at offset r =
     r\<lparr>rv_fc := Some (FcRecvBuf_new offset (max_data (rv_flow r)) DEFAULT_STREAM_WINDOW),
       rv_data := [], rv_fin_off := None, rv_off := offset\<rparr>"

definition fc_init_offset :: "'i recv_buf \<Rightarrow> nat result" where
  "fc_init_offset r =
     (case rv_fc r of Some f \<Rightarrow> Inr (fc_init_off f) | None \<Rightarrow> err (Flexicast FcStreamRotation))"

definition fc_can_be_read_out_of_order :: "'i recv_buf \<Rightarrow> bool" where
  "fc_can_be_read_out_of_order r = (case rv_fc r of Some f \<Rightarrow> fc_can_read f | None \<Rightarrow> True)"

definition fc_enable_out_of_order_read :: "bool \<Rightarrow> 'i recv_buf \<Rightarrow> 'i recv_buf result" where
  "fc_enable_out_of_order_read v r =
     (case rv_fc r of
        Some f \<Rightarrow> Inr (r\<lparr>rv_fc := Some (f\<lparr>fc_can_read := v\<rparr>)\<rparr>)
      | None \<Rightarrow> err (Flexicast FcStreamRotation))"

definition fc_ensure_window_lower_bound :: "nat \<Rightarrow> 'i recv_buf \<Rightarrow> 'i recv_buf" where
  "fc_ensure_window_lower_bound v r =
     r\<lparr>rv_flow := ensure_window_lower_bound v (rv_flow r)\<rparr>"

end
