(* ===== verification/Recv_Reassembly.thy ===== *)
theory Recv_Reassembly
  imports Recv_Buf
begin

text \<open>
  Correctness of the receive side of a stream, \<open>Recv_Buf\<close>. The specification is a stream
  \<open>S\<close>, a function from offsets to bytes: every buffer that arrives holds the bytes of \<open>S\<close> at
  its place. The chunks stored are sorted, disjoint and agree with \<open>S\<close>; \<open>write\<close> adds exactly
  the positions of the buffer, \<open>emit\<close> returns the bytes of \<open>S\<close> in order.
\<close>

section \<open>Buffers as pieces of a stream\<close>

definition rb_max :: "range_buf \<Rightarrow> nat" where
  "rb_max b = rb_first b + length (rb_bytes b)"

definition rb_span :: "range_buf \<Rightarrow> nat set" where
  "rb_span b = {rb_first b ..< rb_max b}"

definition agrees :: "(nat \<Rightarrow> 8 word) \<Rightarrow> range_buf \<Rightarrow> bool" where
  "agrees S b \<longleftrightarrow> rb_bytes b = map S [rb_first b ..< rb_max b]"

text \<open>A buffer as it comes from the network: nothing of it has been read.\<close>

definition incoming :: "(nat \<Rightarrow> 8 word) \<Rightarrow> range_buf \<Rightarrow> bool" where
  "incoming S b \<longleftrightarrow> rb_wf b \<and> rb_pos b = rb_start b \<and> agrees S b"

lemma incomingD:
  assumes "incoming S b"
  shows "rb_wf b" "agrees S b" "rb_first b = rb_off b" "rb_max b = rb_off b + rb_len b"
    "length (rb_bytes b) = rb_len b"
  using assms by (auto simp: incoming_def rb_max_def rb_first_def length_rb_bytes)

lemma rb_max_less: "rb_wf b \<Longrightarrow> rb_max b < u64_size"
  using rb_first_bound [of b] by (simp add: rb_wf_def rb_max_def)

lemma rb_first_le_max [simp]: "rb_first b \<le> rb_max b"
  by (simp add: rb_max_def)

lemma rb_empty_iff: "rb_bytes b = [] \<longleftrightarrow> rb_first b = rb_max b"
  by (simp add: rb_max_def)

lemma max_off_rb_max: "rb_wf b \<Longrightarrow> RangeBuf_max_off b = Inr (rb_max b)"
  by (simp add: rb_max_def)

lemma is_empty_rb_max: "rb_wf b \<Longrightarrow> RangeBuf_is_empty b = Inr (rb_first b = rb_max b)"
  by (simp add: RangeBuf_is_empty_def rb_max_def)

lemmas rb_reads = RangeBuf_off_eq max_off_rb_max is_empty_rb_max RangeBuf_deref_eq

lemma agrees_drop:
  assumes "agrees S b" "rb_first b' = rb_first b + n" "rb_bytes b' = drop n (rb_bytes b)"
    "n \<le> length (rb_bytes b)"
  shows "agrees S b'" "rb_max b' = rb_max b"
proof -
  show m: "rb_max b' = rb_max b" using assms(2-4) by (simp add: rb_max_def)
  show "agrees S b'"
    using assms(1) unfolding agrees_def m assms(2,3) by (simp add: drop_map)
qed

lemma agrees_take:
  assumes "agrees S b" "rb_first b' = rb_first b" "rb_bytes b' = take n (rb_bytes b)"
    "n \<le> length (rb_bytes b)"
  shows "agrees S b'" "rb_max b' = rb_first b + n"
proof -
  show m: "rb_max b' = rb_first b + n" using assms(2-4) by (simp add: rb_max_def)
  have "rb_first b + n \<le> rb_max b" using assms(4) by (simp add: rb_max_def)
  then have "take n [rb_first b ..< rb_max b] = [rb_first b ..< rb_first b + n]"
    by (rule take_upt)
  then show "agrees S b'"
    using assms(1) unfolding agrees_def m assms(2,3) by (simp add: take_map)
qed

lemma split_incoming:
  assumes b: "incoming S b" and at: "at \<le> rb_len b"
  shows "\<exists>lo hi. RangeBuf_split_off at b = Inr (lo, hi) \<and> incoming S lo \<and> incoming S hi \<and>
    rb_first lo = rb_first b \<and> rb_max lo = rb_first b + at \<and> rb_first hi = rb_first b + at \<and>
    rb_max hi = rb_max b \<and> \<not> rb_fin lo \<and> rb_fin hi = rb_fin b"
proof -
  let ?lo = "b\<lparr>rb_pos := min (rb_pos b) (rb_start b + at), rb_len := at, rb_fin := False\<rparr>"
  let ?hi = "\<lparr>rb_data = rb_data b, rb_start = rb_start b + at,
    rb_pos = max (rb_pos b) (rb_start b + at), rb_len = rb_len b - at,
    rb_off = rb_off b + at, rb_fin = rb_fin b\<rparr>"
  have wf: "rb_wf b" and pos: "rb_pos b = rb_start b" and ag: "agrees S b"
    using b by (auto simp: incoming_def)
  have len: "at \<le> length (rb_bytes b)" using at incomingD(5) [OF b] by simp
  have lo: "rb_first ?lo = rb_first b" "rb_bytes ?lo = take at (rb_bytes b)"
    using wf pos at by (auto simp: rb_first_def rb_bytes_def rb_wf_def min_def take_drop add.commute)
  have hi: "rb_first ?hi = rb_first b + at" "rb_bytes ?hi = drop at (rb_bytes b)"
    using wf pos at by (auto simp: rb_first_def rb_bytes_def rb_wf_def max_def add.commute)
  have "RangeBuf_split_off at b = Inr (?lo, ?hi)" using at by (simp add: RangeBuf_split_off_def)
  moreover have "rb_wf ?lo" "rb_wf ?hi" using wf at pos by (auto simp: rb_wf_def)
  ultimately show ?thesis
    using agrees_take [OF ag lo len] agrees_drop [OF ag hi len] lo(1) hi(1) pos
    by (intro exI [of _ ?lo] exI [of _ ?hi]) (auto simp: incoming_def)
qed

lemma split_incoming_at:
  assumes b: "incoming S b" and at: "rb_first b \<le> m" "m \<le> rb_max b"
  obtains lo hi where "RangeBuf_split_off (m - rb_first b) b = Inr (lo, hi)"
    "incoming S lo" "rb_first lo = rb_first b" "rb_max lo = m" "\<not> rb_fin lo"
    "incoming S hi" "rb_first hi = m" "rb_max hi = rb_max b" "rb_fin hi = rb_fin b"
proof -
  have "m - rb_first b \<le> rb_len b" using at incomingD [OF b] by simp
  with split_incoming [OF b this] at that show ?thesis by auto
qed

section \<open>Stored chunks\<close>

definition held :: "(nat \<times> range_buf) list \<Rightarrow> nat set" where
  "held d = (\<Union>x \<in> set d. rb_span (snd x))"

definition chunk_ok :: "(nat \<Rightarrow> 8 word) \<Rightarrow> nat \<times> range_buf \<Rightarrow> bool" where
  "chunk_ok S x \<longleftrightarrow> rb_wf (snd x) \<and> agrees S (snd x) \<and> fst x = rb_max (snd x)"

definition chunks_ok :: "(nat \<Rightarrow> 8 word) \<Rightarrow> nat \<Rightarrow> nat \<Rightarrow> (nat \<times> range_buf) list \<Rightarrow> bool" where
  "chunks_ok S lo hi d \<longleftrightarrow> bt_wf d \<and>
     (\<forall>x \<in> set d. chunk_ok S x \<and> lo \<le> rb_first (snd x) \<and> fst x \<le> hi) \<and>
     sorted_wrt (\<lambda>x y. fst x \<le> rb_first (snd y)) d"

text \<open>A buffer that can be stored beside a chunk.\<close>

definition apart :: "range_buf \<Rightarrow> nat \<times> range_buf \<Rightarrow> bool" where
  "apart b x \<longleftrightarrow> (fst x \<le> rb_first b \<and> fst x < rb_max b) \<or> rb_max b \<le> rb_first (snd x)"

lemma held_simps [simp]:
  "held [] = {}" "held (x # d) = rb_span (snd x) \<union> held d"
  by (auto simp: held_def)

lemma chunks_ok_Nil [simp]: "chunks_ok S lo hi []"
  by (simp add: chunks_ok_def)

lemma chunks_ok_Cons:
  "chunks_ok S lo hi (x # d) \<longleftrightarrow> chunk_ok S x \<and> lo \<le> rb_first (snd x) \<and> fst x \<le> hi \<and>
     (\<forall>y \<in> set d. fst x < fst y \<and> fst x \<le> rb_first (snd y)) \<and> chunks_ok S lo hi d"
  by (cases x) (auto simp: chunks_ok_def bt_wf_Cons)

lemma chunks_ok_mono: "chunks_ok S lo hi d \<Longrightarrow> lo' \<le> lo \<Longrightarrow> hi \<le> hi' \<Longrightarrow> chunks_ok S lo' hi' d"
  by (force simp: chunks_ok_def)

lemma chunks_ok_raise:
  "chunks_ok S lo hi d \<Longrightarrow> (\<forall>x \<in> set d. lo' \<le> rb_first (snd x)) \<Longrightarrow> chunks_ok S lo' hi d"
  by (force simp: chunks_ok_def)

lemma chunks_ok_tl:
  assumes "chunks_ok S lo hi (x # d)"
  shows "chunks_ok S (fst x) hi d"
  using assms by (auto simp: chunks_ok_Cons intro: chunks_ok_raise)

lemma chunks_ok_from: "chunks_ok S lo hi d \<Longrightarrow> chunks_ok S lo hi (bt_from k d)"
  by (auto simp: chunks_ok_def bt_from_def bt_wf_filter sorted_wrt_filter)

lemma chunk_reads:
  assumes "chunk_ok S (k, b)"
  shows "RangeBuf_off b = Inr (rb_first b)" "RangeBuf_max_off b = Inr k" "rb_first b \<le> k"
  using assms max_off_rb_max [of b] by (auto simp: chunk_ok_def simp del: RangeBuf_max_off_eq)

text \<open>Storing a buffer beside all chunks; a chunk with the same key is empty and is replaced.\<close>

lemma chunks_ok_insert:
  assumes "chunks_ok S lo hi d" "incoming S b" "\<forall>x \<in> set d. apart b x" "lo \<le> rb_first b"
    "rb_max b \<le> hi"
  shows "chunks_ok S lo hi (bt_insert (rb_max b) b d) \<and>
    held (bt_insert (rb_max b) b d) = held d \<union> rb_span b"
  using assms(1,3)
proof (induction d)
  case Nil
  then show ?case
    using assms by (auto simp: chunks_ok_Cons chunk_ok_def incoming_def)
next
  case (Cons x d)
  obtain k c where x: "x = (k, c)" by force
  have c: "chunk_ok S (k, c)" "lo \<le> rb_first c" "k \<le> hi" and kc: "k = rb_max c"
    and d: "\<forall>y \<in> set d. k < fst y \<and> k \<le> rb_first (snd y)" "chunks_ok S lo hi d"
    using Cons.prems(1) by (auto simp: x chunks_ok_Cons chunk_ok_def)
  have ok: "chunk_ok S (rb_max b, b)" using assms(2) by (auto simp: chunk_ok_def incoming_def)
  have ap: "k \<le> rb_first b \<and> k < rb_max b \<or> rb_max b \<le> rb_first c"
    using Cons.prems(2) by (simp add: x apart_def)
  have le: "rb_first c \<le> k" by (simp add: kc)
  show ?case
  proof (cases "rb_max b \<le> k")
    case True
    with ap have f: "rb_max b \<le> rb_first c" by auto
    have tail: "\<forall>y \<in> set d. rb_max b < fst y \<and> rb_max b \<le> rb_first (snd y)"
      using d True by force
    show ?thesis
    proof (cases "rb_max b = k")
      case True
      with f le have "rb_span c = {}" by (auto simp: rb_span_def kc)
      with True show ?thesis using ok tail d assms(4,5) by (auto simp: x chunks_ok_Cons)
    next
      case False
      with True show ?thesis
        using ok tail d assms(4,5) c f Cons.prems(1) by (auto simp: x chunks_ok_Cons)
    qed
  next
    case False
    with ap le have f: "k \<le> rb_first b" "k < rb_max b" by auto
    have IH: "chunks_ok S lo hi (bt_insert (rb_max b) b d)"
      "held (bt_insert (rb_max b) b d) = held d \<union> rb_span b"
      using Cons.IH [OF d(2)] Cons.prems(2) by auto
    have "bt_wf d" using d(2) by (simp add: chunks_ok_def)
    then have "\<forall>y \<in> set (bt_insert (rb_max b) b d). k < fst y \<and> k \<le> rb_first (snd y)"
      using f d(1) by (auto simp: set_bt_insert)
    with IH c f show ?thesis by (auto simp: x chunks_ok_Cons)
  qed
qed

section \<open>The overlap loop\<close>

text \<open>What the loop makes of a buffer: the parts that are not stored yet, and no others.\<close>

definition piece_of :: "(nat \<Rightarrow> 8 word) \<Rightarrow> range_buf \<Rightarrow> range_buf \<Rightarrow> bool" where
  "piece_of S b p \<longleftrightarrow> incoming S p \<and> rb_first b \<le> rb_first p \<and> rb_max p \<le> rb_max b"

lemma piece_of_refl: "incoming S b \<Longrightarrow> piece_of S b b"
  by (simp add: piece_of_def)

lemma piece_of_trans: "piece_of S b p \<Longrightarrow> piece_of S p q \<Longrightarrow> piece_of S b q"
  by (auto simp: piece_of_def)

lemma apart_piece:
  "apart b x \<Longrightarrow> piece_of S b p \<Longrightarrow> rb_first b < rb_max b \<longrightarrow> rb_first p < rb_max p \<Longrightarrow> apart p x"
  using rb_first_le_max [of p] rb_first_le_max [of b] unfolding apart_def piece_of_def
  by linarith

definition overlap_spec ::
  "(nat \<Rightarrow> 8 word) \<Rightarrow> (nat \<times> range_buf) list \<Rightarrow> range_buf \<Rightarrow> range_buf option \<Rightarrow>
   range_buf list \<Rightarrow> bool" where
  "overlap_spec S d b bo ps \<longleftrightarrow>
     (\<forall>p \<in> set ps. piece_of S b p \<and> rb_first p < rb_max p) \<and>
     (\<forall>p. bo = Some p \<longrightarrow> piece_of S b p \<and> (\<forall>x \<in> set d. apart p x) \<and>
        (rb_first b < rb_max b \<longrightarrow> rb_first p < rb_max p)) \<and>
     rb_span b \<subseteq> held d \<union> (case bo of Some p \<Rightarrow> rb_span p | None \<Rightarrow> {}) \<union> (\<Union>p \<in> set ps. rb_span p)"

lemma overlap_spec_stop:
  assumes "incoming S b" "\<forall>x \<in> set d. apart b x"
  shows "overlap_spec S d b (Some b) []"
  using assms by (auto simp: overlap_spec_def piece_of_refl)

lemma overlap_spec_step:
  assumes rest: "overlap_spec S d b' bo ps"
    and b': "piece_of S b b'" "rb_first b < rb_max b \<longrightarrow> rb_first b' < rb_max b'" "apart b' x"
    and ps0: "\<forall>p \<in> set ps0. piece_of S b p \<and> rb_first p < rb_max p"
    and cover: "rb_span b \<subseteq> rb_span b' \<union> rb_span (snd x) \<union> (\<Union>p \<in> set ps0. rb_span p)"
  shows "overlap_spec S (x # d) b bo (ps0 @ ps)"
  unfolding overlap_spec_def
proof (intro conjI allI impI)
  show "\<forall>p \<in> set (ps0 @ ps). piece_of S b p \<and> rb_first p < rb_max p"
    using rest b'(1) ps0 by (auto simp: overlap_spec_def intro: piece_of_trans)
  show "rb_span b \<subseteq> held (x # d) \<union> (case bo of Some p \<Rightarrow> rb_span p | None \<Rightarrow> {}) \<union>
      (\<Union>p \<in> set (ps0 @ ps). rb_span p)"
    using rest cover by (auto simp: overlap_spec_def)
next
  fix p assume bo: "bo = Some p"
  with rest have p: "piece_of S b' p" "\<forall>y \<in> set d. apart p y"
    "rb_first b' < rb_max b' \<longrightarrow> rb_first p < rb_max p"
    by (auto simp: overlap_spec_def)
  then show "piece_of S b p" using b'(1) by (blast intro: piece_of_trans)
  show "\<forall>y \<in> set (x # d). apart p y" using p apart_piece [OF b'(3) p(1,3)] by simp
  show "rb_first p < rb_max p" if "rb_first b < rb_max b" using that p b'(2) by blast
qed

lemma overlap_for_spec:
  assumes "chunks_ok S lo hi d" "incoming S b" "\<forall>x \<in> set d. rb_first b \<le> fst x"
  shows "\<exists>bo ps. overlap_for d b tmp = Inr (bo, tmp @ ps) \<and> overlap_spec S d b bo ps"
  using assms
proof (induction d arbitrary: b tmp)
  case Nil
  then show ?case using overlap_spec_stop [of S b "[]"] by simp
next
  case (Cons x d)
  obtain k c where x: "x = (k, c)" by force
  note b = Cons.prems(2)
  have ok: "chunk_ok S (k, c)" and d: "chunks_ok S lo hi d"
    and after: "\<forall>y \<in> set d. k < fst y \<and> k \<le> rb_first (snd y)"
    using Cons.prems(1) by (auto simp: x chunks_ok_Cons)
  have k: "rb_first b \<le> k" and kc: "k = rb_max c"
    using Cons.prems(3) ok by (auto simp: x chunk_ok_def)
  note IH = Cons.IH [OF d]
  note reads = rb_reads(1,2) [OF incomingD(1) [OF b]] chunk_reads(1,2) [OF ok]
  note run = x overlap_for.simps reads try_bind_Inr
  consider (past) "rb_first c > rb_max b"
    | (inside) "rb_first c \<le> rb_first b" "rb_max b \<le> k"
    | (left) "rb_first c \<le> rb_first b" "k < rb_max b"
    | (right) "rb_first b < rb_first c" "rb_first c \<le> rb_max b"
    by linarith
  then show ?case
  proof cases
    case past
    then have "\<forall>y \<in> set (x # d). apart b y"
      using after chunk_reads(3) [OF ok] by (force simp: x apart_def)
    then show ?thesis using past overlap_spec_stop [OF b] by (simp add: run)
  next
    case inside
    then have "overlap_spec S (x # d) b None []"
      by (auto simp: overlap_spec_def x rb_span_def kc)
    moreover have "\<not> rb_first c > rb_max b" using inside by (meson le_trans not_le rb_first_le_max)
    ultimately show ?thesis using inside by (auto simp: run)
  next
    case left
    have past: "\<not> rb_first c > rb_max b" using left by (meson le_trans not_le rb_first_le_max)
    show ?thesis
    proof (cases "rb_first b < k")
      case True
      obtain lo hi where sp: "RangeBuf_split_off (k - rb_first b) b = Inr (lo, hi)"
        and hi: "incoming S hi" "rb_first hi = k" "rb_max hi = rb_max b"
        by (rule split_incoming_at [OF b, of k]) (use True left in auto)
      obtain bo ps where r: "overlap_for d hi tmp = Inr (bo, tmp @ ps)" "overlap_spec S d hi bo ps"
        using IH [OF hi(1)] hi(2) after by fastforce
      have "overlap_spec S (x # d) b bo ([] @ ps)"
        using True left hi by (intro overlap_spec_step [OF r(2)])
          (auto simp: x piece_of_def apart_def rb_span_def kc)
      with r(1) left True past show ?thesis by (auto simp: run sp rb_reads(2) [OF incomingD(1) [OF hi(1)]])
    next
      case False
      with k have eq: "rb_first b = k" by simp
      obtain bo ps where r: "overlap_for d b tmp = Inr (bo, tmp @ ps)" "overlap_spec S d b bo ps"
        using IH [OF b] eq after by fastforce
      have "overlap_spec S (x # d) b bo ([] @ ps)"
        using eq left b by (intro overlap_spec_step [OF r(2)])
          (auto simp: x piece_of_refl apart_def)
      with r(1) left False past show ?thesis by (auto simp: run)
    qed
  next
    case right
    show ?thesis
    proof (cases "rb_first c < rb_max b")
      case True
      obtain lo hi where sp: "RangeBuf_split_off (rb_first c - rb_first b) b = Inr (lo, hi)"
        and lo: "incoming S lo" "rb_first lo = rb_first b" "rb_max lo = rb_first c"
        and hi: "incoming S hi" "rb_first hi = rb_first c" "rb_max hi = rb_max b"
        by (rule split_incoming_at [OF b, of "rb_first c"]) (use True right in auto)
      obtain bo ps where r: "overlap_for d lo (tmp @ [hi]) = Inr (bo, (tmp @ [hi]) @ ps)"
          "overlap_spec S d lo bo ps"
        using IH [OF lo(1)] lo(2) Cons.prems(3) by fastforce
      have "overlap_spec S (x # d) b bo ([hi] @ ps)"
        using True right lo hi by (intro overlap_spec_step [OF r(2)])
          (auto simp: x piece_of_def apart_def rb_span_def)
      with r(1) right True show ?thesis by (auto simp: run sp)
    next
      case False
      with right have eq: "rb_max b = rb_first c" by simp
      obtain bo ps where r: "overlap_for d b tmp = Inr (bo, tmp @ ps)" "overlap_spec S d b bo ps"
        using IH [OF b] Cons.prems(3) by fastforce
      have "overlap_spec S (x # d) b bo ([] @ ps)"
        using eq right b by (intro overlap_spec_step [OF r(2)])
          (auto simp: x piece_of_refl apart_def)
      with r(1) right eq show ?thesis by (auto simp: run)
    qed
  qed
qed

section \<open>The queue of buffers to store\<close>

declare write_tmp.simps [simp del]

lemma write_overlap_spec:
  assumes d: "chunks_ok S lo (rv_len r) (rv_data r)" and b: "incoming S b"
  shows "\<exists>bo ps. write_overlap b tmp r = Inr (bo, tmp @ ps) \<and> overlap_spec S (rv_data r) b bo ps"
proof -
  note reads = rb_reads(1,3) [OF incomingD(1) [OF b]]
  show ?thesis
  proof (cases "rb_first b < rv_len r \<or> rb_first b = rb_max b")
    case True
    let ?d = "bt_from (rb_first b) (rv_data r)"
    obtain bo ps where r: "overlap_for ?d b tmp = Inr (bo, tmp @ ps)" "overlap_spec S ?d b bo ps"
      using overlap_for_spec [OF chunks_ok_from [OF d] b, of "rb_first b" tmp]
      unfolding bt_from_def by force
    have "apart p x" if "bo = Some p" "x \<in> set (rv_data r)" for p x
    proof (cases "rb_first b \<le> fst x")
      case True
      then have "x \<in> set ?d" using that(2) by (simp add: bt_from_def)
      with r(2) that(1) show ?thesis unfolding overlap_spec_def by blast
    next
      case False
      moreover have "rb_first b \<le> rb_first p" using r(2) that(1) by (auto simp: overlap_spec_def piece_of_def)
      moreover have "rb_first p \<le> rb_max p" by simp
      ultimately show ?thesis unfolding apart_def by linarith
    qed
    then have "overlap_spec S (rv_data r) b bo ps"
      using r(2) by (auto simp: overlap_spec_def held_def bt_from_def)
    with r(1) True show ?thesis by (auto simp: write_overlap_def reads)
  next
    case False
    then have "rb_first b < rb_max b" using rb_first_le_max [of b] by linarith
    then have "\<forall>x \<in> set (rv_data r). apart b x"
      using d False by (fastforce simp: chunks_ok_def apart_def)
    with False overlap_spec_stop [OF b this] show ?thesis by (auto simp: write_overlap_def reads)
  qed
qed

lemma piece_of_span: "piece_of S b p \<Longrightarrow> rb_span p \<subseteq> rb_span b"
  by (auto simp: piece_of_def rb_span_def)

text \<open>What storing a queue of buffers does to the chunks and to the largest offset.\<close>

definition stored ::
  "(nat \<Rightarrow> 8 word) \<Rightarrow> range_buf list \<Rightarrow> 'i recv_buf \<Rightarrow> (nat \<times> range_buf) list \<Rightarrow> nat \<Rightarrow> bool" where
  "stored S q r d l \<longleftrightarrow> chunks_ok S (rv_off r) l d \<and>
     (if rv_drain r then d = [] else held d = held (rv_data r) \<union> (\<Union>b \<in> set q. rb_span b)) \<and>
     rv_len r \<le> l \<and> (\<forall>M. rv_len r \<le> M \<and> (\<forall>b \<in> set q. rb_max b \<le> M) \<longrightarrow> l \<le> M)"

definition data_ok :: "(nat \<Rightarrow> 8 word) \<Rightarrow> 'i recv_buf \<Rightarrow> bool" where
  "data_ok S r \<longleftrightarrow> chunks_ok S (rv_off r) (rv_len r) (rv_data r) \<and> (rv_drain r \<longrightarrow> rv_data r = [])"

lemma write_front_above:
  "incoming S b \<Longrightarrow> rv_off r \<le> rb_first b \<Longrightarrow> write_front iw b r = Inr (b, r)"
  using incomingD(1) [of S b] by (simp add: write_front_def)

lemma write_store_spec:
  assumes "data_ok S r" "incoming S p" "\<forall>x \<in> set (rv_data r). apart p x" "rv_off r \<le> rb_first p"
  shows "\<exists>r'. write_store p r = Inr r' \<and> data_ok S r' \<and> r' = r\<lparr>rv_data := rv_data r', rv_len := rv_len r'\<rparr> \<and>
    rv_len r' = max (rv_len r) (rb_max p) \<and>
    (\<not> rv_drain r \<longrightarrow> held (rv_data r') = held (rv_data r) \<union> rb_span p)"
proof -
  have "chunks_ok S (rv_off r) (max (rv_len r) (rb_max p)) (rv_data r)"
    using assms(1) by (auto simp: data_ok_def intro: chunks_ok_mono)
  note ins = chunks_ok_insert [OF this assms(2-4)]
  note m = rb_reads(2) [OF incomingD(1) [OF assms(2)]]
  show ?thesis
  proof (cases "rv_drain r")
    case True
    with assms(1) show ?thesis by (simp add: write_store_def m data_ok_def Let_def)
  next
    case False
    with ins show ?thesis by (simp add: write_store_def m data_ok_def Let_def)
  qed
qed

lemma stored_step:
  assumes st: "stored S (q @ ps) r1 d l"
    and same: "rv_off r1 = rv_off r" "rv_drain r1 = rv_drain r"
    and len: "rv_len r \<le> rv_len r1" "rv_len r1 \<le> max (rv_len r) (rb_max b)"
    and max: "\<forall>p \<in> set ps. rb_max p \<le> rb_max b"
    and hd: "\<not> rv_drain r \<Longrightarrow>
      held (rv_data r1) \<union> (\<Union>p \<in> set ps. rb_span p) = held (rv_data r) \<union> rb_span b"
  shows "stored S (b # q) r d l"
proof -
  have "l \<le> M" if M: "rv_len r \<le> M" "\<forall>p \<in> set (b # q). rb_max p \<le> M" for M
  proof -
    have "rv_len r1 \<le> M" using len(2) M by auto
    moreover have "\<forall>p \<in> set (q @ ps). rb_max p \<le> M" using M(2) max by force
    ultimately show ?thesis using st by (simp add: stored_def)
  qed
  moreover have "held d = held (rv_data r) \<union> (\<Union>p \<in> set (b # q). rb_span p)" if "\<not> rv_drain r"
    using st same that hd by (auto simp: stored_def)
  ultimately show ?thesis using st same len(1) by (auto simp: stored_def)
qed

lemma write_tmp_spec:
  assumes "data_ok S r" "\<forall>b \<in> set q. incoming S b \<and> rv_off r \<le> rb_first b"
  shows "\<exists>d l. write_tmp iw q r = Inr (r\<lparr>rv_data := d, rv_len := l\<rparr>) \<and> stored S q r d l"
  using assms
proof (induction iw q r rule: write_tmp.induct)
  case (1 iw r)
  then show ?case
    by (intro exI [of _ "rv_data r"] exI [of _ "rv_len r"]) (auto simp: write_tmp.simps(1) stored_def data_ok_def)
next
  case (2 iw b q r)
  have b: "incoming S b" "rv_off r \<le> rb_first b" and q: "\<forall>b \<in> set q. incoming S b \<and> rv_off r \<le> rb_first b"
    using "2.prems"(2) by auto
  have d: "chunks_ok S (rv_off r) (rv_len r) (rv_data r)" using "2.prems"(1) by (simp add: data_ok_def)
  note fr = write_front_above [OF b, of iw]
  obtain bo ps where ov: "write_overlap b q r = Inr (bo, q @ ps)"
    and sp: "overlap_spec S (rv_data r) b bo ps"
    using write_overlap_spec [OF d b(1)] by blast
  have ps: "\<forall>p \<in> set ps. piece_of S b p" using sp by (simp add: overlap_spec_def)
  have q': "\<forall>p \<in> set (q @ ps). incoming S p \<and> rv_off r \<le> rb_first p"
    using q ps b(2) by (auto simp: piece_of_def)
  have span: "(\<Union>p \<in> set ps. rb_span p) \<subseteq> rb_span b" using ps piece_of_span by blast
  have max: "\<forall>p \<in> set ps. rb_max p \<le> rb_max b" using ps by (simp add: piece_of_def)
  show ?case
  proof (cases bo)
    case None
    obtain d l where r: "write_tmp iw (q @ ps) r = Inr (r\<lparr>rv_data := d, rv_len := l\<rparr>)"
        "stored S (q @ ps) r d l"
      using "2.IH"(1) [OF fr refl ov refl None "2.prems"(1) q'] by blast
    have "rb_span b \<subseteq> held (rv_data r) \<union> (\<Union>p \<in> set ps. rb_span p)"
      using sp None by (simp add: overlap_spec_def)
    then have "stored S (b # q) r d l"
      using "2.prems"(1) span by (intro stored_step [OF r(2) _ _ _ _ max]) auto
    with r(1) show ?thesis by (auto simp: write_tmp.simps(2) fr ov None)
  next
    case (Some p)
    have p: "piece_of S b p" "\<forall>x \<in> set (rv_data r). apart p x"
      using sp Some by (auto simp: overlap_spec_def)
    then have pin: "incoming S p" "rv_off r \<le> rb_first p" "rb_max p \<le> rb_max b"
      using b(2) by (auto simp: piece_of_def)
    obtain r1 where w: "write_store p r = Inr r1" and ok: "data_ok S r1"
      and eq: "r1 = r\<lparr>rv_data := rv_data r1, rv_len := rv_len r1\<rparr>"
      and len: "rv_len r1 = max (rv_len r) (rb_max p)"
      and hd: "\<not> rv_drain r \<longrightarrow> held (rv_data r1) = held (rv_data r) \<union> rb_span p"
      using write_store_spec [OF "2.prems"(1) pin(1) p(2) pin(2)] by blast
    have same: "rv_off r1 = rv_off r" "rv_drain r1 = rv_drain r"
      by (subst eq, simp)+
    obtain d l where r: "write_tmp iw (q @ ps) r1 = Inr (r1\<lparr>rv_data := d, rv_len := l\<rparr>)"
        "stored S (q @ ps) r1 d l"
      using "2.IH"(2) [OF fr refl ov refl Some w ok] q' same by auto
    have "rb_span b \<subseteq> held (rv_data r) \<union> rb_span p \<union> (\<Union>p \<in> set ps. rb_span p)"
      using sp Some by (simp add: overlap_spec_def)
    then have "stored S (b # q) r d l"
      using hd span piece_of_span [OF p(1)] len pin(3)
      by (intro stored_step [OF r(2) same _ _ max]) auto
    moreover have "r1\<lparr>rv_data := d, rv_len := l\<rparr> = r\<lparr>rv_data := d, rv_len := l\<rparr>"
      by (subst eq) simp
    ultimately show ?thesis using r(1) by (auto simp: write_tmp.simps(2) fr ov Some w)
  qed
qed

section \<open>Reading\<close>

text \<open>Where the reading stops after the loop.\<close>

definition limit :: "'i recv_buf \<Rightarrow> nat option" where
  "limit r = (case rv_fc r of
     Some f \<Rightarrow> if fc_looped f then Some (fc_init_off f) else None | None \<Rightarrow> None)"

lemma emit_len_limit:
  "emit_len n cap r =
     (case limit r of Some o' \<Rightarrow> min (min n cap) (o' - rv_off r) | None \<Rightarrow> min n cap)"
  by (auto simp: emit_len_def limit_def split: option.splits)

definition emitted ::
  "(nat \<Rightarrow> 8 word) \<Rightarrow> nat \<Rightarrow> 'i recv_buf \<Rightarrow> nat \<Rightarrow> 'i recv_buf \<Rightarrow> bool" where
  "emitted S cap r n r' \<longleftrightarrow>
     (\<exists>d. r' = r\<lparr>rv_off := rv_off r + n, rv_data := d\<rparr>) \<and> data_ok S r' \<and>
     held (rv_data r') = held (rv_data r) \<inter> {rv_off r + n ..} \<and>
     n \<le> cap \<and> (n = 0 \<or> rv_off r + n \<le> rv_len r) \<and>
     (\<forall>o'. limit r = Some o' \<and> rv_off r \<le> o' \<longrightarrow> rv_off r + n \<le> o') \<and>
     (n = cap \<or> rv_off r + n \<notin> held (rv_data r) \<or> limit r = Some (rv_off r + n))"

lemma ready_iff:
  assumes "data_ok S r"
  shows "RecvBuf_ready r =
    Inr (case rv_data r of [] \<Rightarrow> False | x # _ \<Rightarrow> rb_first (snd x) = rv_off r)"
  using assms
  by (auto simp: RecvBuf_ready_def bt_first_def data_ok_def chunks_ok_Cons chunk_ok_def
      split: list.splits)

lemma held_below: "chunks_ok S lo hi d \<Longrightarrow> p < lo \<Longrightarrow> p \<notin> held d"
  by (force simp: chunks_ok_def held_def rb_span_def)

lemma held_from: "chunks_ok S lo hi d \<Longrightarrow> held d \<inter> {lo ..} = held d"
  using held_below [of S lo hi d] by (auto intro: leI)

lemma not_ready_not_held:
  assumes "data_ok S r" "RecvBuf_ready r = Inr False"
  shows "rv_off r \<notin> held (rv_data r)"
proof (cases "rv_data r")
  case (Cons x d)
  have d: "chunks_ok S (rv_off r) (rv_len r) (x # d)" using assms(1) Cons by (simp add: data_ok_def)
  then have "rb_first (snd x) > rv_off r"
    using assms Cons by (auto simp: ready_iff chunks_ok_Cons)
  moreover from this have "rv_off r < fst x"
    using d by (auto simp: chunks_ok_Cons chunk_ok_def intro: less_le_trans)
  ultimately show ?thesis
    using held_below [OF chunks_ok_tl [OF d]] Cons by (auto simp: rb_span_def)
qed simp

lemma take_agrees:
  assumes "agrees S b" "n \<le> length (rb_bytes b)"
  shows "take n (rb_bytes b) = map S [rb_first b ..< rb_first b + n]"
proof -
  have "rb_first b + n \<le> rb_max b" using assms(2) by (simp add: rb_max_def)
  then have "take n [rb_first b ..< rb_max b] = [rb_first b ..< rb_first b + n]"
    by (rule take_upt)
  with assms(1) show ?thesis by (simp add: agrees_def take_map)
qed

lemma emitted_0:
  "data_ok S r \<Longrightarrow> cap = 0 \<or> rv_off r \<notin> held (rv_data r) \<Longrightarrow> emitted S cap r 0 r"
  using held_from [of S "rv_off r" "rv_len r" "rv_data r"]
  by (auto simp: emitted_def data_ok_def intro: exI [of _ "rv_data r"])

text \<open>One chunk of the loop: part of it is read, or all of it.\<close>

lemma emitted_part:
  assumes ok: "data_ok S r" and d: "rv_data r = (k, b) # d" and at: "rb_first b = rv_off r"
    and n: "n = emit_len (length (rb_bytes b)) cap r" "n < length (rb_bytes b)"
    and lim: "\<forall>o'. limit r = Some o' \<longrightarrow> rv_off r \<le> o'"
  shows "\<exists>b'. RangeBuf_consume n b = Inr b' \<and>
    emitted S cap r n (r\<lparr>rv_off := rv_off r + n, rv_data := (k, b') # d\<rparr>)"
proof -
  have c: "chunk_ok S (k, b)" "chunks_ok S (rv_off r) (rv_len r) ((k, b) # d)"
    using ok d by (auto simp: data_ok_def chunks_ok_Cons)
  then have b: "rb_wf b" "agrees S b" "k = rb_max b" "k \<le> rv_len r"
    by (auto simp: chunk_ok_def chunks_ok_Cons)
  obtain b' where b': "RangeBuf_consume n b = Inr b'" "rb_wf b'" "rb_first b' = rb_first b + n"
      "rb_bytes b' = drop n (rb_bytes b)"
    using RangeBuf_consume_eq [OF b(1), of n] n(2) by auto
  have ag: "agrees S b'" "rb_max b' = rb_max b"
    using agrees_drop [OF b(2) b'(3,4)] n(2) by auto
  have lt: "rv_off r + n < k" using n(2) at b(3) by (simp add: rb_max_def)
  have tl: "chunks_ok S k (rv_len r) d" using chunks_ok_tl [OF c(2)] by simp
  have "chunks_ok S (rv_off r + n) (rv_len r) ((k, b') # d)"
    using chunks_ok_mono [OF tl, of "rv_off r + n" "rv_len r"] c(2) b b' ag lt at
    by (auto simp: chunks_ok_Cons chunk_ok_def)
  moreover have "held ((k, b') # d) = held ((k, b) # d) \<inter> {rv_off r + n ..}"
    using held_below [OF tl] lt b'(3) ag(2) at by (auto simp: rb_span_def not_less intro: leI)
  moreover have "n \<le> cap" "\<forall>o'. limit r = Some o' \<and> rv_off r \<le> o' \<longrightarrow> rv_off r + n \<le> o'"
    "n = cap \<or> limit r = Some (rv_off r + n) \<or> (\<exists>o'. limit r = Some o' \<and> o' < rv_off r)"
    using n by (auto simp: emit_len_limit min_def split: option.splits if_splits)
  ultimately show ?thesis
    using b'(1) ok d lt b(4) lim by (auto simp: emitted_def data_ok_def)
qed

lemma emitted_all:
  assumes ok: "data_ok S r" and d: "rv_data r = (k, b) # d" and at: "rb_first b = rv_off r"
    and n: "n = emit_len (length (rb_bytes b)) cap r" "n = length (rb_bytes b)"
    and rest: "emitted S (cap - n) (r\<lparr>rv_off := rv_off r + n, rv_data := d\<rparr>) m r'"
  shows "emitted S cap r (n + m) r'"
proof -
  have c: "chunks_ok S (rv_off r) (rv_len r) ((k, b) # d)" and k: "k = rv_off r + n" "k \<le> rv_len r"
    using ok d at n(2) by (auto simp: data_ok_def chunks_ok_Cons chunk_ok_def rb_max_def)
  have tl: "chunks_ok S k (rv_len r) d" using chunks_ok_tl [OF c] by simp
  have held: "held (rv_data r) \<inter> {rv_off r + n ..} = held d"
    using held_below [OF tl] k d at n(2) by (auto simp: rb_span_def rb_max_def intro: leI)
  have cap: "n \<le> cap" and lim: "\<And>o'. limit r = Some o' \<Longrightarrow> n \<le> o' - rv_off r"
    using n by (auto simp: emit_len_limit split: option.splits)
  have l': "limit (r\<lparr>rv_off := rv_off r + n, rv_data := d\<rparr>) = limit r" by (simp add: limit_def)
  have R: "\<exists>d. r' = r\<lparr>rv_off := rv_off r + n + m, rv_data := d\<rparr>" "data_ok S r'"
    "held (rv_data r') = held d \<inter> {rv_off r + n + m ..}" "m \<le> cap - n"
    "m = 0 \<or> rv_off r + n + m \<le> rv_len r"
    "\<forall>o'. limit r = Some o' \<and> rv_off r + n \<le> o' \<longrightarrow> rv_off r + n + m \<le> o'"
    "m = cap - n \<or> rv_off r + n + m \<notin> held d \<or> limit r = Some (rv_off r + n + m)"
    using rest unfolding emitted_def l' by simp_all
  show ?thesis
    unfolding emitted_def
  proof (intro conjI allI impI)
    show "\<exists>d. r' = r\<lparr>rv_off := rv_off r + (n + m), rv_data := d\<rparr>"
      using R(1) by (simp add: add.assoc)
    show "held (rv_data r') = held (rv_data r) \<inter> {rv_off r + (n + m) ..}"
      using R(3) held by auto
    show "rv_off r + (n + m) \<le> o'" if "limit r = Some o' \<and> rv_off r \<le> o'" for o'
      using R(6) lim [of o'] that by auto
    show "n + m = cap \<or> rv_off r + (n + m) \<notin> held (rv_data r) \<or> limit r = Some (rv_off r + (n + m))"
    proof -
      have "rv_off r + n + m \<in> held d" if "rv_off r + n + m \<in> held (rv_data r)"
      proof -
        have "rv_off r + n + m \<in> held (rv_data r) \<inter> {rv_off r + n ..}" using that by simp
        then show ?thesis unfolding held .
      qed
      with R(7) cap show ?thesis by (fastforce simp: add.assoc)
    qed
  qed (use R(2,4,5) k cap in auto)
qed

lemma emit_loop_spec:
  assumes "data_ok S r" "\<forall>o'. limit r = Some o' \<longrightarrow> rv_off r \<le> o'"
  shows "\<exists>n r'. emit_loop cap out r = Inr (out @ map S [rv_off r ..< rv_off r + n], r') \<and>
    emitted S cap r n r'"
  using assms
proof (induction cap out r rule: emit_loop.induct)
  case (1 cap out r)
  note run = emit_loop.simps [of cap out r] ready_iff [OF "1.prems"(1)]
  show ?case
  proof (cases "cap > 0 \<and> RecvBuf_ready r = Inr True")
    case False
    then have "cap = 0 \<or> rv_off r \<notin> held (rv_data r)"
      using not_ready_not_held [OF "1.prems"(1)] ready_iff [OF "1.prems"(1)] by auto
    from emitted_0 [OF "1.prems"(1) this] False show ?thesis
      by (intro exI [of _ 0] exI [of _ r]) (auto simp: run)
  next
    case True
    then obtain k b d where d: "rv_data r = (k, b) # d" and at: "rb_first b = rv_off r"
      by (auto simp: ready_iff [OF "1.prems"(1)] split: list.splits)
    have b: "rb_wf b" "agrees S b" and c: "chunks_ok S (rv_off r) (rv_len r) ((k, b) # d)"
      using "1.prems" d by (auto simp: data_ok_def chunks_ok_Cons chunk_ok_def)
    define n where "n = emit_len (length (rb_bytes b)) cap r"
    have n_le: "n \<le> length (rb_bytes b)" by (auto simp: n_def emit_len_def split: option.splits)
    have tk: "take n (rb_bytes b) = map S [rv_off r ..< rv_off r + n]"
      using take_agrees [OF b(2) n_le] at by simp
    show ?thesis
    proof (cases "n < length (rb_bytes b)")
      case True
      from emitted_part [OF "1.prems"(1) d at n_def True "1.prems"(2)] \<open>cap > 0 \<and> _\<close> show ?thesis
        using True b at by (auto simp: run d n_def [symmetric] tk)
    next
      case False
      with n_le have n: "n = length (rb_bytes b)" by simp
      let ?r = "r\<lparr>rv_off := rv_off r + n, rv_data := d\<rparr>"
      have "k = rv_off r + n" using c at n by (simp add: chunks_ok_Cons chunk_ok_def rb_max_def)
      then have ok: "data_ok S ?r"
        using chunks_ok_tl [OF c] "1.prems" d by (auto simp: data_ok_def)
      have lim: "\<forall>o'. limit ?r = Some o' \<longrightarrow> rv_off ?r \<le> o'"
        using "1.prems"(2) unfolding n_def by (auto simp: limit_def emit_len_def split: option.splits)
      have rd: "RecvBuf_ready r = Inr True" "cap > 0 \<and> True" using \<open>cap > 0 \<and> _\<close> by auto
      obtain m r' where IH: "emit_loop (cap - n) (out @ take n (rb_bytes b)) ?r =
            Inr ((out @ take n (rb_bytes b)) @ map S [rv_off ?r ..< rv_off ?r + m], r')"
          "emitted S (cap - n) ?r m r'"
        using "1.IH" [OF rd d refl] b(1) ok lim False n_def by (fastforce simp: Let_def)
      have "[rv_off r ..< rv_off r + n] @ [rv_off r + n ..< rv_off r + n + m] =
          [rv_off r ..< rv_off r + (n + m)]"
        by (metis add.assoc le_add1 upt_add_eq_append)
      then have "emit_loop cap out r = Inr (out @ map S [rv_off r ..< rv_off r + (n + m)], r')"
        using IH(1) rd b False by (auto simp: run d n_def [symmetric] tk Let_def simp flip: map_append)
      with emitted_all [OF "1.prems"(1) d at n_def n IH(2)] show ?thesis by blast
    qed
  qed
qed

section \<open>Writing one buffer\<close>

text \<open>When a buffer contradicts the final size.\<close>

definition final_size_violated :: "range_buf \<Rightarrow> 'i recv_buf \<Rightarrow> bool" where
  "final_size_violated b r \<longleftrightarrow>
     (case rv_fin_off r of
        Some f \<Rightarrow> f < rb_max b \<or> (rb_fin b \<and> f \<noteq> rb_max b) | None \<Rightarrow> False) \<or>
     (rb_fin b \<and> rb_max b < rv_len r)"

definition set_fin :: "range_buf \<Rightarrow> 'i recv_buf \<Rightarrow> 'i recv_buf" where
  "set_fin b r = (if rb_fin b then r\<lparr>rv_fin_off := Some (rb_max b)\<rparr> else r)"

lemma set_fin_sel [simp]:
  "rv_data (set_fin b r) = rv_data r" "rv_off (set_fin b r) = rv_off r"
  "rv_len (set_fin b r) = rv_len r" "rv_flow (set_fin b r) = rv_flow r"
  "rv_error (set_fin b r) = rv_error r" "rv_drain (set_fin b r) = rv_drain r"
  "rv_fc (set_fin b r) = rv_fc r" "limit (set_fin b r) = limit r"
  "data_ok S (set_fin b r) = data_ok S r"
  by (auto simp: set_fin_def limit_def data_ok_def)

lemma set_fin_known:
  "rv_fin_off r \<noteq> None \<Longrightarrow> \<not> final_size_violated b r \<Longrightarrow> set_fin b r = r"
  by (auto simp: set_fin_def final_size_violated_def split: option.splits if_splits)

lemma write_check_eq:
  "rb_wf b \<Longrightarrow> write_check b r = (if final_size_violated b r then err FinalSize else Inr ())"
  using max_off_rb_max [of b]
  by (auto simp: write_check_def final_size_violated_def simp del: RangeBuf_max_off_eq
      split: option.splits)

lemma write_buffer_eq:
  assumes "rb_wf b"
  shows "write_buffer iw loop b r =
    (if final_size_violated b r then err FinalSize
     else if rb_first b = rb_max b \<and> (rv_fin_off r \<noteq> None \<or> \<not> rb_fin b) then Inr (set_fin b r)
     else if rb_max b \<le> rv_off r \<and> rb_first b < rb_max b then write_below iw loop b (set_fin b r)
     else write_tmp iw [b] (set_fin b r))"
  using set_fin_known [of r b] rb_first_le_max [of b]
  by (auto simp: write_buffer_def write_check_eq [OF assms] rb_reads(2,3) [OF assms] set_fin_def
      simp del: rb_first_le_max)

lemma write_strip_id: "limit r = None \<Longrightarrow> rb_wf b \<Longrightarrow> write_strip b r = Inr (b, r)"
  by (auto simp: write_strip_def limit_def split: option.splits if_splits)

lemma RecvBuf_write_eq:
  assumes "rb_wf b" "limit r = None"
  shows "RecvBuf_write iw loop b r =
    (if max_data (rv_flow r) < rb_max b then err FlowControlError else write_buffer iw loop b r)"
  by (simp add: RecvBuf_write_def rb_reads(2) [OF assms(1)] write_strip_id [OF assms(2,1)])

text \<open>The effect of a buffer on the chunks: its positions from the current offset on are added.\<close>

definition absorbs ::
  "(nat \<Rightarrow> 8 word) \<Rightarrow> range_buf \<Rightarrow> 'i recv_buf \<Rightarrow> (nat \<times> range_buf) list \<Rightarrow> nat \<Rightarrow> bool" where
  "absorbs S b r d l \<longleftrightarrow> data_ok S (r\<lparr>rv_data := d, rv_len := l\<rparr>) \<and>
     (\<not> rv_drain r \<longrightarrow> held d = held (rv_data r) \<union> (rb_span b \<inter> {rv_off r ..})) \<and>
     rv_len r \<le> l \<and> l \<le> max (rv_len r) (rb_max b)"

lemma absorbs_none:
  "data_ok S r \<Longrightarrow> rb_span b \<inter> {rv_off r ..} = {} \<Longrightarrow> absorbs S b r (rv_data r) (rv_len r)"
  by (auto simp: absorbs_def)

lemma absorbs_cong:
  "absorbs S b r d l \<Longrightarrow> rv_data r' = rv_data r \<Longrightarrow> rv_off r' = rv_off r \<Longrightarrow> rv_len r' = rv_len r \<Longrightarrow>
     rv_drain r' = rv_drain r \<Longrightarrow> absorbs S b r' d l"
  by (simp add: absorbs_def data_ok_def)

lemma stored_absorbs:
  assumes "stored S [b'] r d l" "rb_span b' = rb_span b \<inter> {rv_off r ..}" "rb_max b' = rb_max b"
  shows "absorbs S b r d l"
  using assms by (auto simp: stored_def absorbs_def data_ok_def)

text \<open>The part of a buffer above the current offset is stored; the part below it goes to the
  inner buffer, if there is one.\<close>

lemma write_tmp_above:
  assumes "data_ok S r" "incoming S b" "rv_off r \<le> rb_first b"
  shows "\<exists>d l. write_tmp iw [b] r = Inr (r\<lparr>rv_data := d, rv_len := l\<rparr>) \<and> absorbs S b r d l"
proof -
  have "rb_span b = rb_span b \<inter> {rv_off r ..}" using assms(3) by (auto simp: rb_span_def)
  with stored_absorbs [of S b r _ _ b] write_tmp_spec [of S r "[b]" iw] assms show ?thesis
    by force
qed

lemma write_tmp_front:
  assumes "write_front iw b r = Inr (b', r')" "incoming S b'" "rv_off r' \<le> rb_first b'"
  shows "write_tmp iw [b] r = write_tmp iw [b'] r'"
  by (simp add: write_tmp.simps(2) assms(1) write_front_above [OF assms(2,3)])

lemma write_tmp_below:
  assumes ok: "data_ok S r" and b: "incoming S b" "rb_first b < rv_off r" "rv_off r \<le> rb_max b"
  obtains lo where "incoming S lo" "rb_first lo = rb_first b" "rb_max lo = rv_off r" "\<not> rb_fin lo"
    "rv_fc r = None \<longrightarrow> (\<exists>d l. write_tmp iw [b] r = Inr (r\<lparr>rv_data := d, rv_len := l\<rparr>) \<and>
       absorbs S b r d l)"
    "\<forall>f. rv_fc r = Some f \<longrightarrow> (\<exists>d l. absorbs S b r d l \<and>
       write_tmp iw [b] r = try_bind (FcRecvBuf_write iw lo f) (\<lambda>f'.
         Inr (r\<lparr>rv_fc := Some f', rv_data := d, rv_len := l\<rparr>)))"
proof -
  obtain lo hi where sp: "RangeBuf_split_off (rv_off r - rb_first b) b = Inr (lo, hi)"
    and lo: "incoming S lo" "rb_first lo = rb_first b" "rb_max lo = rv_off r" "\<not> rb_fin lo"
    and hi: "incoming S hi" "rb_first hi = rv_off r" "rb_max hi = rb_max b"
    by (rule split_incoming_at [OF b(1), of "rv_off r"]) (use b in auto)
  have span: "rb_span hi = rb_span b \<inter> {rv_off r ..}"
    using b(2) hi by (auto simp: rb_span_def)
  obtain d l where d: "\<And>c. write_tmp iw [hi] (r\<lparr>rv_fc := c\<rparr>) =
      Inr (r\<lparr>rv_fc := c, rv_data := d c, rv_len := l c\<rparr>)" "\<And>c. stored S [hi] (r\<lparr>rv_fc := c\<rparr>) (d c) (l c)"
  proof -
    have "\<exists>d l. write_tmp iw [hi] (r\<lparr>rv_fc := c\<rparr>) = Inr (r\<lparr>rv_fc := c, rv_data := d, rv_len := l\<rparr>) \<and>
        stored S [hi] (r\<lparr>rv_fc := c\<rparr>) d l" for c
      using write_tmp_spec [of S "r\<lparr>rv_fc := c\<rparr>" "[hi]" iw] ok hi by (auto simp: data_ok_def)
    then show ?thesis using that by metis
  qed
  note off = RangeBuf_off_eq [OF incomingD(1) [OF b(1)]]
  show ?thesis
  proof (rule that [OF lo])
    show "rv_fc r = None \<longrightarrow> (\<exists>d l. write_tmp iw [b] r = Inr (r\<lparr>rv_data := d, rv_len := l\<rparr>) \<and>
        absorbs S b r d l)"
    proof
      assume none: "rv_fc r = None"
      then have "write_front iw b r = Inr (hi, r)"
        using b(2) by (simp add: write_front_def off sp)
      then have "write_tmp iw [b] r = write_tmp iw [hi] r"
        using hi by (intro write_tmp_front) auto
      moreover have "r\<lparr>rv_fc := None\<rparr> = r" using none by simp
      ultimately show "\<exists>d l. write_tmp iw [b] r = Inr (r\<lparr>rv_data := d, rv_len := l\<rparr>) \<and>
          absorbs S b r d l"
        using d [of None] stored_absorbs [OF _ span hi(3)] by fastforce
    qed
    show "\<forall>f. rv_fc r = Some f \<longrightarrow> (\<exists>d l. absorbs S b r d l \<and>
       write_tmp iw [b] r = try_bind (FcRecvBuf_write iw lo f) (\<lambda>f'.
         Inr (r\<lparr>rv_fc := Some f', rv_data := d, rv_len := l\<rparr>)))"
    proof (intro allI impI)
      fix f assume f: "rv_fc r = Some f"
      show "\<exists>d l. absorbs S b r d l \<and>
         write_tmp iw [b] r = try_bind (FcRecvBuf_write iw lo f) (\<lambda>f'.
           Inr (r\<lparr>rv_fc := Some f', rv_data := d, rv_len := l\<rparr>))"
      proof (cases "FcRecvBuf_write iw lo f")
        case (Inl e)
        then have "write_tmp iw [b] r = Inl e"
          using b(2) f by (simp add: write_tmp.simps(2) write_front_def off sp)
        moreover have "stored S [hi] r (d (rv_fc r)) (l (rv_fc r))" using d(2) [of "rv_fc r"] by simp
        then have "absorbs S b r (d (rv_fc r)) (l (rv_fc r))" by (rule stored_absorbs [OF _ span hi(3)])
        ultimately show ?thesis using Inl by auto
      next
        case (Inr f')
        then have "write_front iw b r = Inr (hi, r\<lparr>rv_fc := Some f'\<rparr>)"
          using b(2) f by (simp add: write_front_def off sp)
        then have "write_tmp iw [b] r = write_tmp iw [hi] (r\<lparr>rv_fc := Some f'\<rparr>)"
          using hi by (intro write_tmp_front) auto
        moreover have "absorbs S b r (d (Some f')) (l (Some f'))"
          using d(2) [of "Some f'"] span hi(3)
          by (intro absorbs_cong [OF stored_absorbs [of S hi "r\<lparr>rv_fc := Some f'\<rparr>" _ _ b]]) auto
        ultimately show ?thesis using Inr d(1) [of "Some f'"] by auto
      qed
    qed
  qed
qed

text \<open>A buffer without flexicast extension.\<close>

lemma write_plain:
  assumes ok: "data_ok S r" "rv_off r \<le> rv_len r" and fc: "rv_fc r = None" and b: "incoming S b"
  shows "\<exists>d l. absorbs S b r d l \<and>
    RecvBuf_write iw loop b r =
      (if max_data (rv_flow r) < rb_max b then err FlowControlError
       else if final_size_violated b r then err FinalSize
       else Inr ((set_fin b r)\<lparr>rv_data := d, rv_len := l\<rparr>))"
proof -
  have lim: "limit r = None" using fc by (simp add: limit_def)
  note run = RecvBuf_write_eq [OF incomingD(1) [OF b] lim] write_buffer_eq [OF incomingD(1) [OF b]]
  consider (empty) "rb_first b = rb_max b" "rv_fin_off r \<noteq> None \<or> \<not> rb_fin b"
    | (dup) "rb_max b \<le> rv_off r" "rb_first b < rb_max b"
    | (above) "rv_off r \<le> rb_first b" "rb_first b < rb_max b"
    | (below) "rb_first b < rv_off r" "rv_off r < rb_max b"
    | (last) "rb_first b = rb_max b" "rv_fin_off r = None" "rb_fin b"
    using rb_first_le_max [of b] by linarith
  then show ?thesis
  proof cases
    case empty
    then have "absorbs S b r (rv_data r) (rv_len r)"
      using ok by (intro absorbs_none) (auto simp: rb_span_def)
    with empty show ?thesis by (intro exI [of _ "rv_data r"] exI [of _ "rv_len r"]) (auto simp: run set_fin_def)
  next
    case dup
    then have "absorbs S b r (rv_data r) (rv_len r)"
      using ok by (intro absorbs_none) (auto simp: rb_span_def)
    with dup fc show ?thesis
      by (intro exI [of _ "rv_data r"] exI [of _ "rv_len r"])
        (auto simp: run set_fin_def write_below_def)
  next
    case above
    then obtain d l where "write_tmp iw [b] (set_fin b r) = Inr ((set_fin b r)\<lparr>rv_data := d, rv_len := l\<rparr>)"
        "absorbs S b (set_fin b r) d l"
      using write_tmp_above [of S "set_fin b r" b iw] ok b by auto
    moreover from this have "absorbs S b r d l" by (auto elim: absorbs_cong)
    ultimately show ?thesis using above by (intro exI [of _ d] exI [of _ l]) (auto simp: run)
  next
    case below
    obtain d l where "write_tmp iw [b] (set_fin b r) = Inr ((set_fin b r)\<lparr>rv_data := d, rv_len := l\<rparr>)"
        "absorbs S b (set_fin b r) d l"
      by (rule write_tmp_below [of S "set_fin b r" b iw]) (use ok b fc below in auto)
    moreover from this have "absorbs S b r d l" by (auto elim: absorbs_cong)
    ultimately show ?thesis using below by (intro exI [of _ d] exI [of _ l]) (auto simp: run)
  next
    case last
    show ?thesis
    proof (cases "final_size_violated b r")
      case True
      have "absorbs S b r (rv_data r) (rv_len r)"
        using ok last by (intro absorbs_none) (auto simp: rb_span_def)
      with True show ?thesis by (auto simp: run)
    next
      case False
      then have "rv_off r \<le> rb_first b"
        using last ok(2) by (auto simp: final_size_violated_def)
      then obtain d l where "write_tmp iw [b] (set_fin b r) = Inr ((set_fin b r)\<lparr>rv_data := d, rv_len := l\<rparr>)"
          "absorbs S b (set_fin b r) d l"
        using write_tmp_above [of S "set_fin b r" b iw] ok b by auto
      moreover from this have "absorbs S b r d l" by (auto elim: absorbs_cong)
      ultimately show ?thesis using last False by (intro exI [of _ d] exI [of _ l]) (auto simp: run)
    qed
  qed
qed

section \<open>Runs of a receiver\<close>

text \<open>What an honest sender of the stream \<open>S\<close> of \<open>L\<close> bytes produces: buffers that agree with
  the stream, in any order, overlapping and repeated as the network likes.\<close>

definition from_sender :: "(nat \<Rightarrow> 8 word) \<Rightarrow> nat \<Rightarrow> range_buf \<Rightarrow> bool" where
  "from_sender S L b \<longleftrightarrow> incoming S b \<and> rb_max b \<le> L \<and> (rb_fin b \<longrightarrow> rb_max b = L)"

text \<open>The receive buffer, the positions received and the bytes read so far, from the state
  \<open>r0\<close> on.\<close>

inductive recv_run ::
  "(nat \<Rightarrow> 8 word) \<Rightarrow> nat \<Rightarrow> stream_recv \<Rightarrow> stream_recv \<Rightarrow> nat set \<Rightarrow> 8 word list \<Rightarrow> bool"
  for S L r0 where
  recv_start: "recv_run S L r0 r0 {} []"
| recv_write: "recv_run S L r0 r' (R \<union> rb_span b) out"
    if "recv_run S L r0 r R out" "from_sender S L b" "stream_write b r = Inr r'"
| recv_emit: "recv_run S L r0 r' R (out @ bytes)"
    if "recv_run S L r0 r R out" "stream_emit cap r = (r', Inr (bytes, fin))"
| recv_update: "recv_run S L r0 r' R out"
    if "recv_run S L r0 r R out" "RecvBuf_update_max_data now r = Inr r'"
| recv_autotune: "recv_run S L r0 r' R out"
    if "recv_run S L r0 r R out" "RecvBuf_autotune_window now rtt r = Inr r'"
| recv_ensure: "recv_run S L r0 (fc_ensure_window_lower_bound w r) R out"
    if "recv_run S L r0 r R out"
| recv_enable: "recv_run S L r0 r' R out"
    if "recv_run S L r0 r R out" "fc_enable_out_of_order_read v r = Inr r'"

text \<open>The updates of the flow-control window leave the number of consumed bytes alone.\<close>

lemma consumed_flow:
  "update_max_data now fc = Inr fc' \<Longrightarrow> consumed fc' = consumed fc"
  "autotune_window now rtt fc = Inr fc' \<Longrightarrow> consumed fc' = consumed fc"
  "consumed (ensure_window_lower_bound w fc) = consumed fc"
  by (auto simp: update_max_data_def autotune_window_def ensure_window_lower_bound_def
      split: option.splits if_splits)

lemma flow_updates:
  "RecvBuf_update_max_data now r = Inr r' \<Longrightarrow>
     \<exists>fc. r' = r\<lparr>rv_flow := fc\<rparr> \<and> consumed fc = consumed (rv_flow r)"
  "RecvBuf_autotune_window now rtt r = Inr r' \<Longrightarrow>
     \<exists>fc. r' = r\<lparr>rv_flow := fc\<rparr> \<and> consumed fc = consumed (rv_flow r)"
  "\<exists>fc. fc_ensure_window_lower_bound w r = r\<lparr>rv_flow := fc\<rparr> \<and> consumed fc = consumed (rv_flow r)"
  by (auto simp: RecvBuf_update_max_data_def RecvBuf_autotune_window_def
      fc_ensure_window_lower_bound_def consumed_flow dest: consumed_flow(1,2))

definition recv_inv ::
  "(nat \<Rightarrow> 8 word) \<Rightarrow> nat \<Rightarrow> stream_recv \<Rightarrow> nat set \<Rightarrow> 8 word list \<Rightarrow> bool" where
  "recv_inv S L r R out \<longleftrightarrow>
     data_ok S r \<and> rv_fc r = None \<and> rv_error r = None \<and> \<not> rv_drain r \<and>
     rv_off r \<le> rv_len r \<and> rv_len r \<le> L \<and> rv_len r < u64_size \<and>
     (rv_fin_off r = None \<or> rv_fin_off r = Some L) \<and> consumed (rv_flow r) \<le> rv_off r \<and>
     held (rv_data r) = R \<inter> {rv_off r ..} \<and> out = map S [0 ..< rv_off r]"

lemma recv_inv_write:
  assumes inv: "recv_inv S L r R out" and b: "from_sender S L b" and w: "stream_write b r = Inr r'"
  shows "recv_inv S L r' (R \<union> rb_span b) out"
proof -
  have i: "incoming S b" "rb_max b \<le> L" "rb_fin b \<longrightarrow> rb_max b = L" "rb_max b < u64_size"
    using b rb_max_less [of b] by (auto simp: from_sender_def incoming_def)
  obtain d l where ab: "absorbs S b r d l" and r': "r' = (set_fin b r)\<lparr>rv_data := d, rv_len := l\<rparr>"
    using write_plain [of S r b inner_write fc_loop_recv] inv i(1) w
    by (auto simp: recv_inv_def stream_write_def split: if_splits)
  have "data_ok S r'" using ab by (simp add: absorbs_def data_ok_def r')
  moreover have "l < u64_size" "l \<le> L" using ab inv i by (auto simp: absorbs_def recv_inv_def)
  moreover have "held d = (R \<union> rb_span b) \<inter> {rv_off r ..}"
    using ab inv by (auto simp: absorbs_def recv_inv_def)
  ultimately show ?thesis
    using inv i ab by (auto simp: recv_inv_def r' absorbs_def set_fin_def)
qed

text \<open>Reading before the loop, or without flexicast extension.\<close>

lemma emit_split:
  assumes ok: "data_ok S r" "rv_error r = None" and lim: "\<forall>o'. limit r = Some o' \<longrightarrow> rv_off r \<le> o'"
    and rdy: "RecvBuf_ready r = Inr True"
    and bnd: "consumed (rv_flow r) \<le> rv_off r" "rv_off r < u64_size" "rv_len r < u64_size"
  obtains n r1 fc where "emitted S cap r n r1" "consumed fc = consumed (rv_flow r) + n"
    "RecvBuf_emit loop cap r =
       (let r2 = r1\<lparr>rv_flow := fc\<rparr>; bytes = map S [rv_off r ..< rv_off r + n] in
        if RecvBuf_is_fin r2 \<and> rv_fc r2 \<noteq> None then
          (case loop r2 of (r, Inl e) \<Rightarrow> (r, Inl e) | (r, Inr _) \<Rightarrow> (r, Inr (bytes, RecvBuf_is_fin r)))
        else (r2, Inr (bytes, RecvBuf_is_fin r2 \<or> (\<exists>o'. limit r2 = Some o' \<and> o' \<le> rv_off r2))))"
proof -
  obtain n r1 where e: "emit_loop cap [] r = Inr (map S [rv_off r ..< rv_off r + n], r1)"
      "emitted S cap r n r1"
    using emit_loop_spec [OF ok(1) lim, of cap "[]"] by auto
  have r1: "rv_flow r1 = rv_flow r" "rv_off r1 = rv_off r + n" "rv_fc r1 = rv_fc r"
    using e(2) by (auto simp: emitted_def)
  have "n = 0 \<or> rv_off r + n \<le> rv_len r" using e(2) by (simp add: emitted_def)
  then have "consumed (rv_flow r) + n < u64_size" using bnd by auto
  then have "add_consumed n (rv_flow r1) = Inr ((rv_flow r)\<lparr>consumed := consumed (rv_flow r) + n\<rparr>)"
    by (simp add: add_consumed_def r1)
  then show ?thesis
    using that [OF e(2), of "(rv_flow r)\<lparr>consumed := consumed (rv_flow r) + n\<rparr>"] rdy ok(2) e(1)
    by (simp add: RecvBuf_emit_def Let_def limit_def split: option.splits prod.splits sum.splits)
qed

lemma emit_not_ready:
  "RecvBuf_ready r = Inr False \<Longrightarrow> RecvBuf_emit loop cap r = (r, err Done)"
  by (simp add: RecvBuf_emit_def)

lemma upt_extend: "map S [0 ..< a] @ map S [a ..< a + n] = map S [0 ..< a + n]"
  by (simp flip: map_append upt_add_eq_append)

lemma recv_inv_emit_ready:
  assumes inv: "recv_inv S L r R out" and rdy: "RecvBuf_ready r = Inr True"
  obtains n r' where
    "stream_emit cap r = (r', Inr (map S [rv_off r ..< rv_off r + n], rv_fin_off r = Some (rv_off r + n)))"
    "recv_inv S L r' R (out @ map S [rv_off r ..< rv_off r + n])"
    "n \<le> cap" "n = cap \<or> rv_off r + n \<notin> R"
proof -
  have lim: "limit r = None" using inv by (simp add: recv_inv_def limit_def)
  obtain n r1 fc where e: "emitted S cap r n r1" "consumed fc = consumed (rv_flow r) + n"
    and run: "RecvBuf_emit fc_loop_recv cap r =
       (let r2 = r1\<lparr>rv_flow := fc\<rparr>; bytes = map S [rv_off r ..< rv_off r + n] in
        if RecvBuf_is_fin r2 \<and> rv_fc r2 \<noteq> None then
          (case fc_loop_recv r2 of (r, Inl e) \<Rightarrow> (r, Inl e) | (r, Inr _) \<Rightarrow> (r, Inr (bytes, RecvBuf_is_fin r)))
        else (r2, Inr (bytes, RecvBuf_is_fin r2 \<or> (\<exists>o'. limit r2 = Some o' \<and> o' \<le> rv_off r2))))"
    by (rule emit_split [of S r cap fc_loop_recv]) (use inv rdy lim in \<open>auto simp: recv_inv_def\<close>)
  obtain d where r1: "r1 = r\<lparr>rv_off := rv_off r + n, rv_data := d\<rparr>" using e(1) by (auto simp: emitted_def)
  have fc: "rv_fc r1 = None" using inv by (simp add: r1 recv_inv_def)
  have "data_ok S (r1\<lparr>rv_flow := fc\<rparr>)" "held d = R \<inter> {rv_off r + n ..}" "rv_off r + n \<le> rv_len r"
    using e(1) inv by (auto simp: emitted_def r1 recv_inv_def data_ok_def)
  then have "recv_inv S L (r1\<lparr>rv_flow := fc\<rparr>) R (out @ map S [rv_off r ..< rv_off r + n])"
    using inv e(2) by (auto simp: recv_inv_def r1 upt_extend)
  moreover have "n \<le> cap" "n = cap \<or> rv_off r + n \<notin> R"
    using e(1) inv lim by (auto simp: emitted_def recv_inv_def)
  ultimately show ?thesis
    using that run fc by (simp add: stream_emit_def RecvBuf_is_fin_def r1 limit_def)
qed

lemma recv_inv_emit:
  assumes "recv_inv S L r R out" "stream_emit cap r = (r', Inr (bytes, fin))"
  shows "recv_inv S L r' R (out @ bytes)"
proof (cases "RecvBuf_ready r = Inr True")
  case True
  from recv_inv_emit_ready [OF assms(1) this, of cap] assms(2) show ?thesis by auto
next
  case False
  then have "RecvBuf_ready r = Inr False"
    using ready_iff [of S r] assms(1) by (auto simp: recv_inv_def)
  with assms(2) show ?thesis by (simp add: stream_emit_def emit_not_ready)
qed

lemma recv_inv_flow:
  "recv_inv S L r R out \<Longrightarrow> consumed fc = consumed (rv_flow r) \<Longrightarrow> recv_inv S L (r\<lparr>rv_flow := fc\<rparr>) R out"
  by (auto simp: recv_inv_def data_ok_def)

lemma recv_run_inv:
  "recv_run S L (RecvBuf_new maxd win) r R out \<Longrightarrow> recv_inv S L r R out"
proof (induction rule: recv_run.induct)
  case recv_start
  show ?case by (simp add: recv_inv_def RecvBuf_new_def FlowControl_new_def data_ok_def)
next
  case (recv_enable r R out v r')
  then show ?case by (simp add: fc_enable_out_of_order_read_def recv_inv_def)
next
  case (recv_ensure r R out w)
  with flow_updates(3) [of w r] show ?case by (auto intro: recv_inv_flow)
qed (auto intro: recv_inv_write recv_inv_emit recv_inv_flow dest!: flow_updates(1,2))

section \<open>Properties of an ordinary stream\<close>

text \<open>C11: Whatever the order, the overlaps and the repetitions in which the buffers of an honest
  sender arrive, the bytes read so far are exactly the beginning of the stream; the chunks
  stored are exactly the received positions that have not been read; the next read returns, in
  order, every byte up to the capacity or the first missing position, reports the end exactly
  when it reaches the known final offset, and that offset is the length of the stream.\<close>

theorem recv_reassembly:
  assumes "recv_run S L (RecvBuf_new maxd win) r R out"
  shows "out = map S [0 ..< rv_off r] \<and> held (rv_data r) = R \<inter> {rv_off r ..} \<and>
    (rv_fin_off r = None \<or> rv_fin_off r = Some L) \<and>
    (rv_off r \<in> R \<longrightarrow> (\<exists>n r'. stream_emit cap r =
        (r', Inr (map S [rv_off r ..< rv_off r + n], rv_fin_off r = Some (rv_off r + n))) \<and>
      n \<le> cap \<and> (n = cap \<or> rv_off r + n \<notin> R) \<and>
      recv_run S L (RecvBuf_new maxd win) r' R (map S [0 ..< rv_off r + n])))"
proof -
  have inv: "recv_inv S L r R out" using assms by (rule recv_run_inv)
  moreover have "\<exists>n r'. stream_emit cap r =
        (r', Inr (map S [rv_off r ..< rv_off r + n], rv_fin_off r = Some (rv_off r + n))) \<and>
      n \<le> cap \<and> (n = cap \<or> rv_off r + n \<notin> R) \<and>
      recv_run S L (RecvBuf_new maxd win) r' R (map S [0 ..< rv_off r + n])"
    if "rv_off r \<in> R"
  proof -
    have "RecvBuf_ready r = Inr True"
      using not_ready_not_held [of S r] ready_iff [of S r] inv that by (auto simp: recv_inv_def)
    then obtain n r' where e: "stream_emit cap r =
        (r', Inr (map S [rv_off r ..< rv_off r + n], rv_fin_off r = Some (rv_off r + n)))"
      "n \<le> cap" "n = cap \<or> rv_off r + n \<notin> R"
      using recv_inv_emit_ready [OF inv] by blast
    have "out = map S [0 ..< rv_off r]" using inv by (simp add: recv_inv_def)
    then have "recv_run S L (RecvBuf_new maxd win) r' R (map S [0 ..< rv_off r + n])"
      using recv_emit [OF assms e(1)] by (simp add: upt_extend)
    with e show ?thesis by blast
  qed
  ultimately show ?thesis by (simp add: recv_inv_def)
qed

text \<open>A stream of three bytes that arrives in two overlapping pieces, the later one first.\<close>

definition sample_bytes :: "nat \<Rightarrow> 8 word" where
  "sample_bytes p = (if p = 0 then 7 else if p = 1 then 8 else 9)"

lemma sample_sender:
  "from_sender sample_bytes 3 (RangeBuf_from [8, 9] 1 True)"
  "from_sender sample_bytes 3 (RangeBuf_from [7, 8] 0 False)"
  by (simp_all add: from_sender_def incoming_def agrees_def rb_max_def upt_rec sample_bytes_def)
    (simp_all add: RangeBuf_from_def)

lemma from_span: "rb_span (RangeBuf_from d off fin) = {off ..< off + length d}"
  by (simp add: rb_span_def rb_max_def)

lemmas recv_eval = stream_write_def stream_emit_def RecvBuf_write_def write_strip_def
  write_buffer_def write_check_def write_below_def write_front_def write_overlap_def write_store_def
  write_tmp.simps RecvBuf_emit_def RecvBuf_ready_def RecvBuf_is_fin_def emit_len_def emit_loop.simps
  add_consumed_def RangeBuf_is_empty_def RangeBuf_len_def RangeBuf_off_def RangeBuf_max_off_def
  RangeBuf_deref_def RangeBuf_consume_def RangeBuf_split_off_def RangeBuf_from_def RecvBuf_new_def
  FlowControl_new_def bt_first_def bt_from_def checked_add_def checked_sub_def Let_def

lemma sample_recv_writes:
  "\<exists>r1 r2. stream_write (RangeBuf_from [8, 9] 1 True) (RecvBuf_new 100 100) = Inr r1 \<and>
     stream_write (RangeBuf_from [7, 8] 0 False) r1 = Inr r2 \<and> rv_off r2 = 0 \<and>
     rv_fin_off r2 = Some 3 \<and> max_data (rv_flow r2) = 100"
  by (simp add: recv_eval)

lemma sample_recv_run:
  "\<exists>r. recv_run sample_bytes 3 (RecvBuf_new 100 100) r {0 ..< 3} [] \<and> rv_off r = 0 \<and>
     rv_fin_off r = Some 3 \<and> max_data (rv_flow r) = 100"
proof -
  obtain r1 r2 where w: "stream_write (RangeBuf_from [8, 9] 1 True) (RecvBuf_new 100 100) = Inr r1"
      "stream_write (RangeBuf_from [7, 8] 0 False) r1 = Inr r2" "rv_off r2 = 0" "rv_fin_off r2 = Some 3"
      "max_data (rv_flow r2) = 100"
    using sample_recv_writes by blast
  have "recv_run sample_bytes 3 (RecvBuf_new 100 100) r2
      (({} \<union> rb_span (RangeBuf_from [8, 9] 1 True)) \<union> rb_span (RangeBuf_from [7, 8] 0 False)) []"
    by (rule recv_write [OF recv_write [OF recv_start sample_sender(1) w(1)] sample_sender(2) w(2)])
  moreover have "({} \<union> rb_span (RangeBuf_from [8, 9] 1 True)) \<union> rb_span (RangeBuf_from [7, 8] 0 False) =
      {0 ..< 3}"
    by (auto simp: from_span)
  ultimately show ?thesis using w(3-5) by auto
qed

theorem recv_reassembly_witness:
  "\<exists>r n r'. recv_run sample_bytes 3 (RecvBuf_new 100 100) r {0 ..< 3} [] \<and>
     stream_emit 10 r = (r', Inr (map sample_bytes [0 ..< n], Some 3 = Some n)) \<and> n \<ge> 3"
proof -
  obtain r where r: "recv_run sample_bytes 3 (RecvBuf_new 100 100) r {0 ..< 3} []" "rv_off r = 0"
      "rv_fin_off r = Some 3"
    using sample_recv_run by blast
  with recv_reassembly [OF r(1), of 10] show ?thesis by fastforce
qed

text \<open>C12: After any run with an honest sender, the outcome of writing one more buffer is exactly
  this, and never a panic: a flow-control error when it ends beyond the advertised limit; a
  final-size error when it ends beyond the known final offset, moves it, or declares one below
  data already received; otherwise its positions that have not been read are added, the largest
  offset grows to at most its end, and the final offset is recorded. For a buffer of the
  honest sender the final-size error is impossible.\<close>

theorem recv_write_outcome:
  assumes run: "recv_run S L (RecvBuf_new maxd win) r R out" and b: "incoming S b"
  shows "\<exists>r'. stream_write b r =
      (if max_data (rv_flow r) < rb_max b then err FlowControlError
       else if (\<exists>f. rv_fin_off r = Some f \<and> (f < rb_max b \<or> rb_fin b \<and> f \<noteq> rb_max b)) \<or>
         rb_fin b \<and> rb_max b < rv_len r
       then err FinalSize else Inr r') \<and>
    held (rv_data r') = held (rv_data r) \<union> (rb_span b \<inter> {rv_off r ..}) \<and>
    rv_off r' = rv_off r \<and> rv_len r \<le> rv_len r' \<and> rv_len r' \<le> max (rv_len r) (rb_max b) \<and>
    rv_fin_off r' = (if rb_fin b then Some (rb_max b) else rv_fin_off r) \<and>
    (from_sender S L b \<longrightarrow> stream_write b r \<noteq> err FinalSize)"
proof -
  have inv: "recv_inv S L r R out" using run by (rule recv_run_inv)
  obtain d l where ab: "absorbs S b r d l" and w: "stream_write b r =
      (if max_data (rv_flow r) < rb_max b then err FlowControlError
       else if final_size_violated b r then err FinalSize
       else Inr ((set_fin b r)\<lparr>rv_data := d, rv_len := l\<rparr>))"
    using write_plain [of S r b inner_write fc_loop_recv] inv b
    by (auto simp: recv_inv_def stream_write_def)
  have viol: "final_size_violated b r \<longleftrightarrow>
      (\<exists>f. rv_fin_off r = Some f \<and> (f < rb_max b \<or> rb_fin b \<and> f \<noteq> rb_max b)) \<or>
      rb_fin b \<and> rb_max b < rv_len r"
    by (auto simp: final_size_violated_def split: option.splits)
  have "\<not> final_size_violated b r" if "from_sender S L b"
    using that inv by (auto simp: final_size_violated_def from_sender_def recv_inv_def)
  then have "from_sender S L b \<longrightarrow> stream_write b r \<noteq> err FinalSize" by (simp add: w)
  moreover have "rv_fin_off (set_fin b r) = (if rb_fin b then Some (rb_max b) else rv_fin_off r)"
    by (simp add: set_fin_def)
  ultimately show ?thesis
    using w ab inv unfolding viol
    by (intro exI [of _ "(set_fin b r)\<lparr>rv_data := d, rv_len := l\<rparr>"]) (simp add: absorbs_def recv_inv_def)
qed

theorem recv_write_outcome_witness:
  "\<exists>r. recv_run sample_bytes 3 (RecvBuf_new 100 100) r {0 ..< 3} [] \<and>
     stream_write (RangeBuf_from [8, 9, 9] 1 False) r = err FinalSize"
proof -
  obtain r where r: "recv_run sample_bytes 3 (RecvBuf_new 100 100) r {0 ..< 3} []"
      "rv_fin_off r = Some 3" "max_data (rv_flow r) = 100"
    using sample_recv_run by blast
  have "incoming sample_bytes (RangeBuf_from [8, 9, 9] 1 False)"
    by (simp add: incoming_def agrees_def rb_max_def upt_rec sample_bytes_def)
      (simp add: RangeBuf_from_def)
  from recv_write_outcome [OF r(1) this] r show ?thesis by (auto simp: rb_max_def)
qed

section \<open>Resetting a stream\<close>

text \<open>A reset of a stream whose final size is not known yet is reported to the application:
  the next read fails with the error code of the peer, whatever was buffered. When the final
  size was known already, the same reset discards the buffered data silently: the next read
  says that there is nothing to read.\<close>

lemma reset_notification:
  assumes "rv_error r = None" "rv_len r \<le> fs" "fs \<le> max_data (rv_flow r)" "fs < u64_size"
    "rv_fc r = None" "\<not> rv_drain r"
    "rv_fin_off r = None \<or> rv_fin_off r = Some fs"
  shows "\<exists>r'. RecvBuf_reset e fs r = Inr (r', fs - rv_len r) \<and>
    snd (stream_emit cap r') = (if rv_fin_off r = None then err (StreamReset e) else err Done)"
proof -
  let ?r = "r\<lparr>rv_error := Some e, rv_off := fs, rv_data := []\<rparr>" and ?b = "RangeBuf_from [] fs True"
  have b: "rb_wf ?b" "rb_max ?b = fs" "rb_first ?b = fs" "rb_fin ?b"
    using assms(4) by (simp_all add: rb_max_def)
  have lim: "limit ?r = None" using assms(5) by (simp add: limit_def)
  have viol: "\<not> final_size_violated ?b ?r"
    using assms(2,7) b by (auto simp: final_size_violated_def)
  have inc: "incoming (\<lambda>_. 0) ?b"
    using b by (simp add: incoming_def agrees_def) (simp add: RangeBuf_from_def)
  show ?thesis
  proof (cases "rv_fin_off r = None")
    case True
    have "write_tmp inner_write [?b] (set_fin ?b ?r) =
        Inr ((set_fin ?b ?r)\<lparr>rv_len := fs, rv_data := [(fs, ?b)]\<rparr>)"
      using assms(2,6) b
      by (simp add: write_tmp.simps write_front_above [OF inc] write_overlap_def write_store_def
          is_empty_rb_max max_off_rb_max bt_from_def Let_def del: RangeBuf_max_off_eq)
    then have "stream_write ?b ?r = Inr ((set_fin ?b ?r)\<lparr>rv_len := fs, rv_data := [(fs, ?b)]\<rparr>)"
      using assms(3) viol True b
      by (simp add: stream_write_def RecvBuf_write_eq [OF b(1) lim] write_buffer_eq [OF b(1)])
    with assms True show ?thesis
      by (simp add: RecvBuf_reset_def stream_emit_def RecvBuf_emit_def RecvBuf_ready_def bt_first_def
          RangeBuf_off_eq [OF b(1)] b(3) Let_def)
  next
    case False
    then have "stream_write ?b ?r = Inr (set_fin ?b ?r)"
      using assms(3) viol b
      by (simp add: stream_write_def RecvBuf_write_eq [OF b(1) lim] write_buffer_eq [OF b(1)])
    with assms False show ?thesis
      by (auto simp: RecvBuf_reset_def stream_emit_def RecvBuf_emit_def RecvBuf_ready_def bt_first_def
          Let_def)
  qed
qed

lemma reset_notification_example:
  "\<exists>r'. RecvBuf_reset 42 5 (RecvBuf_new 100 100) = Inr (r', 5) \<and>
     snd (stream_emit 10 r') = err (StreamReset 42)"
  using reset_notification [of "RecvBuf_new 100 100" 5 42 10]
  by (simp add: RecvBuf_new_def FlowControl_new_def)

end
