(* ===== verification/Recv_Rotation.thy ===== *)
theory Recv_Rotation
  imports Recv_Reassembly
begin

text \<open>
  Stream rotation on the receive side: a receiver that joins a flexicast channel while a stream
  is being sent starts reading at the current offset \<open>o\<close> (\<open>fc_set_offset_at\<close>), reads to the end,
  loops back (\<open>fc_loop_recv\<close>) and reads the beginning. The properties show what it delivers,
  and two ways in which the loop fails.
\<close>

section \<open>The two phases\<close>

text \<open>The stream as the receiver sees it.\<close>

definition rotation :: "(nat \<Rightarrow> 8 word) \<Rightarrow> nat \<Rightarrow> nat \<Rightarrow> 8 word list" where
  "rotation S off L = map S ([off ..< L] @ [0 ..< off])"

text \<open>The inner buffer, which collects the beginning of the stream.\<close>

definition inner_ok :: "(nat \<Rightarrow> 8 word) \<Rightarrow> inner_recv \<Rightarrow> bool" where
  "inner_ok S i \<longleftrightarrow> data_ok S i \<and> rv_off i = 0 \<and> rv_fc i = None \<and> \<not> rv_drain i \<and>
     rv_error i = None \<and> consumed (rv_flow i) = 0 \<and> rv_len i < u64_size"

text \<open>Before the loop.\<close>

definition rot_before ::
  "(nat \<Rightarrow> 8 word) \<Rightarrow> nat \<Rightarrow> nat \<Rightarrow> stream_recv \<Rightarrow> inner_recv fc_recv_buf \<Rightarrow> inner_recv \<Rightarrow>
   nat set \<Rightarrow> 8 word list \<Rightarrow> bool" where
  "rot_before S L off0 r f i R out \<longleftrightarrow>
     data_ok S r \<and> rv_error r = None \<and> \<not> rv_drain r \<and>
     rv_fc r = Some f \<and> \<not> fc_looped f \<and> fc_init_off f = off0 \<and> fc_recv_buf f = Some i \<and>
     inner_ok S i \<and> off0 \<le> rv_off r \<and> (rv_off r = off0 \<or> rv_off r \<le> rv_len r) \<and>
     rv_len r \<le> L \<and> rv_len r < u64_size \<and> off0 < u64_size \<and>
     (rv_fin_off r = None \<or> rv_fin_off r = Some L) \<and> consumed (rv_flow r) \<le> rv_off r \<and>
     held (rv_data r) = R \<inter> {rv_off r ..} \<and>
     held (rv_data i) \<inter> {..< off0} = R \<inter> {..< off0} \<and> out = map S [off0 ..< rv_off r]"

text \<open>After the loop.\<close>

definition rot_after ::
  "(nat \<Rightarrow> 8 word) \<Rightarrow> nat \<Rightarrow> nat \<Rightarrow> stream_recv \<Rightarrow> nat set \<Rightarrow> 8 word list \<Rightarrow> bool" where
  "rot_after S L off0 r R out \<longleftrightarrow>
     data_ok S r \<and> rv_error r = None \<and> \<not> rv_drain r \<and>
     (\<exists>f. rv_fc r = Some f \<and> fc_looped f \<and> fc_init_off f = off0 \<and> fc_recv_buf f = None \<and>
        fc_fin_off f = Some L) \<and>
     rv_off r \<le> off0 \<and> off0 \<le> L \<and> rv_len r < u64_size \<and> off0 < u64_size \<and>
     (\<exists>x. rv_fin_off r = Some x \<and> off0 \<le> x) \<and> consumed (rv_flow r) \<le> rv_off r \<and>
     held (rv_data r) \<inter> {..< off0} = R \<inter> {rv_off r ..< off0} \<and>
     out = map S [off0 ..< L] @ map S [0 ..< rv_off r]"

section \<open>Writing before the loop\<close>

lemma inner_write_ok:
  assumes "inner_ok S i" "incoming S b" "inner_write b i = Inr i'"
  shows "inner_ok S i' \<and> held (rv_data i') = held (rv_data i) \<union> rb_span b"
proof -
  obtain d l where ab: "absorbs S b i d l" and i': "i' = (set_fin b i)\<lparr>rv_data := d, rv_len := l\<rparr>"
    using write_plain [of S i b "\<lambda>_ i. Inr i" fc_loop_none] assms
    by (auto simp: inner_ok_def inner_write_def split: if_splits)
  have "rb_max b < u64_size" using rb_max_less [OF incomingD(1) [OF assms(2)]] .
  then have "l < u64_size" using ab assms(1) by (auto simp: absorbs_def inner_ok_def)
  moreover have "data_ok S i'" using ab by (simp add: absorbs_def data_ok_def i')
  ultimately show ?thesis using assms(1) ab by (auto simp: inner_ok_def i' absorbs_def)
qed

lemma fc_write_ok:
  assumes "fc_recv_buf f = Some i" "inner_ok S i" "incoming S b"
    "FcRecvBuf_write inner_write b f = Inr f'"
  obtains i' where "f' = f\<lparr>fc_recv_buf := Some i'\<rparr>" "inner_ok S i'"
    "held (rv_data i') = held (rv_data i) \<union> rb_span b"
  using assms inner_write_ok by (auto simp: FcRecvBuf_write_def)

lemma write_tmp_empty_below:
  assumes "incoming S b" "rb_first b = rb_max b" "rb_first b < rv_off r"
  shows "write_tmp iw [b] r = panic"
proof -
  have "rb_len b = 0" using incomingD [OF assms(1)] assms(2) by simp
  with assms(3) show ?thesis
    by (simp add: write_tmp.simps write_front_def RangeBuf_off_eq [OF incomingD(1) [OF assms(1)]]
        RangeBuf_split_off_def)
qed

lemma rot_before_absorb:
  assumes inv: "rot_before S L off0 r f i R out" and b: "from_sender S L b"
    and ab: "absorbs S b r d l"
    and i': "inner_ok S i'" "held (rv_data i') \<inter> {..< off0} = (R \<union> rb_span b) \<inter> {..< off0}"
  shows "rot_before S L off0
    ((set_fin b r)\<lparr>rv_fc := Some (f\<lparr>fc_recv_buf := Some i'\<rparr>), rv_data := d, rv_len := l\<rparr>)
    (f\<lparr>fc_recv_buf := Some i'\<rparr>) i' (R \<union> rb_span b) out"
proof -
  have m: "rb_max b \<le> L" "rb_max b < u64_size" "rb_fin b \<longrightarrow> rb_max b = L"
    using b rb_max_less [of b] by (auto simp: from_sender_def incoming_def)
  have "l \<le> L" "l < u64_size" "rv_len r \<le> l" using ab inv m by (auto simp: absorbs_def rot_before_def)
  moreover have "data_ok S ((set_fin b r)\<lparr>rv_fc := c, rv_data := d, rv_len := l\<rparr>)" for c
    using ab by (simp add: absorbs_def data_ok_def)
  moreover have "held d = (R \<union> rb_span b) \<inter> {rv_off r ..}"
    using ab inv by (auto simp: absorbs_def rot_before_def)
  ultimately show ?thesis
    using inv i' m by (auto simp: rot_before_def set_fin_def)
qed

lemma rot_before_same:
  assumes inv: "rot_before S L off0 r f i R out" and b: "from_sender S L b"
    and out: "rb_span b \<inter> {..< off0} = {}" and ab: "absorbs S b r d l"
  shows "rot_before S L off0 ((set_fin b r)\<lparr>rv_data := d, rv_len := l\<rparr>) f i (R \<union> rb_span b) out"
proof -
  have i: "rv_fc r = Some f" "fc_recv_buf f = Some i" "inner_ok S i"
    "held (rv_data i) \<inter> {..< off0} = (R \<union> rb_span b) \<inter> {..< off0}"
    using inv out by (auto simp: rot_before_def)
  have "f\<lparr>fc_recv_buf := Some i\<rparr> = f" "(set_fin b r)\<lparr>rv_fc := Some f\<rparr> = set_fin b r"
    using i by (auto simp: set_fin_def)
  with rot_before_absorb [OF inv b ab i(3,4)] show ?thesis by simp
qed

text \<open>The loop turns the first phase into the second.\<close>

lemma rot_loop:
  assumes "rot_before S L off0 r f i R out" "rv_fin_off r = Some L" "rv_off r = L"
  shows "\<exists>r'. fc_loop_recv r = (r', Inr ()) \<and> rot_after S L off0 r' R out \<and>
    rv_off r' = 0 \<and> rv_fin_off r' = Some off0"
  using assms
  by (auto simp: rot_before_def rot_after_def fc_loop_recv_def fc_copy_def inner_ok_def data_ok_def
      Let_def)

lemma rot_before_write:
  assumes inv: "rot_before S L off0 r f i R out" and b: "from_sender S L b"
    and w: "stream_write b r = Inr r'"
  shows "(\<exists>f i. rot_before S L off0 r' f i (R \<union> rb_span b) out) \<or>
    rot_after S L off0 r' (R \<union> rb_span b) out"
proof -
  have inc: "incoming S b" and fin: "rb_fin b \<longrightarrow> rb_max b = L" and wf: "rb_wf b"
    using b by (auto simp: from_sender_def incoming_def)
  have ok: "data_ok S r" "data_ok S (set_fin b r)" and f: "rv_fc r = Some f" "fc_recv_buf f = Some i"
    "inner_ok S i" "off0 \<le> rv_off r" "fc_init_off f = off0" "\<not> fc_looped f"
    using inv by (auto simp: rot_before_def)
  have lim: "limit r = None" using f by (simp add: limit_def)
  have "write_buffer inner_write fc_loop_recv b r = Inr r'"
    using w by (simp add: stream_write_def RecvBuf_write_eq [OF wf lim] split: if_splits)
  then have viol: "\<not> final_size_violated b r"
    and cs: "(rb_first b = rb_max b \<and> r' = set_fin b r) \<or>
      (rb_max b \<le> rv_off r \<and> rb_first b < rb_max b \<and>
         write_below inner_write fc_loop_recv b (set_fin b r) = Inr r') \<or>
      (\<not> (rb_max b \<le> rv_off r \<and> rb_first b < rb_max b) \<and>
         write_tmp inner_write [b] (set_fin b r) = Inr r')"
    by (auto simp: write_buffer_eq [OF wf] split: if_splits)
  from cs consider (empty) "rb_first b = rb_max b" "r' = set_fin b r"
    | (dup) "rb_max b \<le> rv_off r" "rb_first b < rb_max b"
        "write_below inner_write fc_loop_recv b (set_fin b r) = Inr r'"
    | (above) "rv_off r \<le> rb_first b" "write_tmp inner_write [b] (set_fin b r) = Inr r'"
    | (below) "rb_first b < rv_off r" "rv_off r \<le> rb_max b" "write_tmp inner_write [b] (set_fin b r) = Inr r'"
    | (bad) "rb_first b < rv_off r" "rb_first b = rb_max b" "write_tmp inner_write [b] (set_fin b r) = Inr r'"
    using rb_first_le_max [of b] by linarith
  then show ?thesis
  proof cases
    case empty
    then have "absorbs S b r (rv_data r) (rv_len r)" using ok by (intro absorbs_none) (auto simp: rb_span_def)
    moreover have "rb_span b \<inter> {..< off0} = {}" using empty by (simp add: rb_span_def)
    ultimately have "rot_before S L off0 ((set_fin b r)\<lparr>rv_data := rv_data r, rv_len := rv_len r\<rparr>) f i
        (R \<union> rb_span b) out"
      by (intro rot_before_same [OF inv b])
    moreover have "(set_fin b r)\<lparr>rv_data := rv_data r, rv_len := rv_len r\<rparr> = set_fin b r"
      by (simp add: set_fin_def)
    ultimately show ?thesis using empty(2) by auto
  next
    case dup
    have ab: "absorbs S b r (rv_data r) (rv_len r)"
      using ok dup by (intro absorbs_none) (auto simp: rb_span_def)
    obtain f' where fw: "FcRecvBuf_write inner_write b f = Inr f'"
      and rest: "(if rb_fin b then
              if fc_init_off f' > rb_max b then err FinalSize
              else if fc_init_off f' = rb_max b then
                (case fc_loop_recv ((set_fin b r)\<lparr>rv_fc := Some f'\<rparr>) of
                   (r', Inr _) \<Rightarrow> Inr r' | (_, Inl e) \<Rightarrow> Inl e)
              else Inr ((set_fin b r)\<lparr>rv_fc := Some f'\<rparr>)
            else Inr ((set_fin b r)\<lparr>rv_fc := Some f'\<rparr>)) = Inr r'"
      using dup(3) by (auto simp: write_below_def f max_off_rb_max [OF wf] Let_def simp del: RangeBuf_max_off_eq)
    obtain i' where i': "f' = f\<lparr>fc_recv_buf := Some i'\<rparr>" "inner_ok S i'"
        "held (rv_data i') = held (rv_data i) \<union> rb_span b"
      by (rule fc_write_ok [OF f(2,3) inc fw])
    have "held (rv_data i') \<inter> {..< off0} = (R \<union> rb_span b) \<inter> {..< off0}"
      using i'(3) inv by (auto simp: rot_before_def)
    from rot_before_absorb [OF inv b ab i'(2) this]
    have rb: "rot_before S L off0 ((set_fin b r)\<lparr>rv_fc := Some f'\<rparr>) f' i' (R \<union> rb_span b) out"
      by (simp add: i'(1) set_fin_def split: if_splits)
    show ?thesis
    proof (cases "rb_fin b \<and> fc_init_off f' = rb_max b")
      case True
      then have L: "off0 = L" "rb_max b = L" using fin f(5) i'(1) by auto
      have "rv_off r = L" using inv L dup(1) by (auto simp: rot_before_def)
      moreover have "rv_fin_off ((set_fin b r)\<lparr>rv_fc := Some f'\<rparr>) = Some L"
        using True L by (simp add: set_fin_def)
      ultimately show ?thesis using rot_loop [OF rb] rest True by auto
    next
      case False
      then have "r' = (set_fin b r)\<lparr>rv_fc := Some f'\<rparr>" using rest by (auto split: if_splits)
      with rb show ?thesis by blast
    qed
  next
    case above
    then obtain d l where "r' = (set_fin b r)\<lparr>rv_data := d, rv_len := l\<rparr>" "absorbs S b (set_fin b r) d l"
      using write_tmp_above [OF ok(2) inc, of inner_write] by auto
    moreover have "rb_span b \<inter> {..< off0} = {}" using above f(4) by (auto simp: rb_span_def)
    moreover from calculation have "absorbs S b r d l" by (auto elim: absorbs_cong)
    ultimately show ?thesis using rot_before_same [OF inv b] by blast
  next
    case below
    obtain lo where lo: "incoming S lo" "rb_first lo = rb_first b" "rb_max lo = rv_off r"
      and run: "\<exists>d l. absorbs S b (set_fin b r) d l \<and>
        write_tmp inner_write [b] (set_fin b r) = try_bind (FcRecvBuf_write inner_write lo f) (\<lambda>f'.
          Inr ((set_fin b r)\<lparr>rv_fc := Some f', rv_data := d, rv_len := l\<rparr>))"
      by (rule write_tmp_below [of S "set_fin b r" b inner_write]) (use ok inc below f in auto)
    obtain d l f' where ab: "absorbs S b (set_fin b r) d l"
      and fw: "FcRecvBuf_write inner_write lo f = Inr f'"
      and r': "r' = (set_fin b r)\<lparr>rv_fc := Some f', rv_data := d, rv_len := l\<rparr>"
    proof -
      from run obtain d l where "absorbs S b (set_fin b r) d l"
        "try_bind (FcRecvBuf_write inner_write lo f) (\<lambda>f'.
          Inr ((set_fin b r)\<lparr>rv_fc := Some f', rv_data := d, rv_len := l\<rparr>)) = Inr r'"
        using below(3) by metis
      with that show ?thesis by auto
    qed
    obtain i' where i': "f' = f\<lparr>fc_recv_buf := Some i'\<rparr>" "inner_ok S i'"
        "held (rv_data i') = held (rv_data i) \<union> rb_span lo"
      by (rule fc_write_ok [OF f(2,3) lo(1) fw])
    have "rb_span lo \<inter> {..< off0} = rb_span b \<inter> {..< off0}"
      using lo below f(4) by (auto simp: rb_span_def)
    then have "held (rv_data i') \<inter> {..< off0} = (R \<union> rb_span b) \<inter> {..< off0}"
      using i'(3) inv by (auto simp: rot_before_def)
    moreover have "absorbs S b r d l" using ab by (auto elim: absorbs_cong)
    ultimately show ?thesis using rot_before_absorb [OF inv b _ i'(2)] i'(1) r' by blast
  next
    case bad
    then show ?thesis using write_tmp_empty_below [OF inc bad(2), of "set_fin b r" inner_write] by simp
  qed
qed

section \<open>Writing after the loop\<close>

lemma loop_looped: "rv_fc r = Some f \<Longrightarrow> fc_looped f \<Longrightarrow> fc_loop_recv r = (r, Inr ())"
  by (simp add: fc_loop_recv_def)

lemma write_buffer_looped:
  assumes ok: "data_ok S r" and b: "incoming S b"
    and f: "rv_fc r = Some f" "fc_looped f" "fc_recv_buf f = None" and fin: "rv_fin_off r \<noteq> None"
    and w: "write_buffer inner_write fc_loop_recv b r = Inr r'"
  shows "\<exists>d l. r' = r\<lparr>rv_data := d, rv_len := l\<rparr> \<and> absorbs S b r d l"
proof -
  have wf: "rb_wf b" using b by (rule incomingD)
  have fw: "FcRecvBuf_write inner_write c f = Inr f" for c using f(3) by (simp add: FcRecvBuf_write_def)
  have viol: "\<not> final_size_violated b r" using w by (auto simp: write_buffer_eq [OF wf] split: if_splits)
  then have sf: "set_fin b r = r" using fin by (rule set_fin_known [rotated])
  have rf: "r\<lparr>rv_fc := Some f\<rparr> = r" using f(1) by simp
  have "(rb_first b = rb_max b \<and> r' = r) \<or>
      (rb_max b \<le> rv_off r \<and> rb_first b < rb_max b \<and> write_below inner_write fc_loop_recv b r = Inr r') \<or>
      (\<not> (rb_max b \<le> rv_off r \<and> rb_first b < rb_max b) \<and> rb_first b \<noteq> rb_max b \<and>
        write_tmp inner_write [b] r = Inr r')"
    using w viol fin by (auto simp: write_buffer_eq [OF wf] sf split: if_splits)
  then consider (empty) "rb_first b = rb_max b" "r' = r"
    | (dup) "rb_max b \<le> rv_off r" "rb_first b < rb_max b" "write_below inner_write fc_loop_recv b r = Inr r'"
    | (above) "rv_off r \<le> rb_first b" "write_tmp inner_write [b] r = Inr r'"
    | (below) "rb_first b < rv_off r" "rv_off r \<le> rb_max b" "write_tmp inner_write [b] r = Inr r'"
    using rb_first_le_max [of b] by linarith
  then show ?thesis
  proof cases
    case empty
    then have "absorbs S b r (rv_data r) (rv_len r)" using ok by (intro absorbs_none) (auto simp: rb_span_def)
    with empty(2) show ?thesis by (intro exI [of _ "rv_data r"] exI [of _ "rv_len r"]) simp
  next
    case dup
    then have ab: "absorbs S b r (rv_data r) (rv_len r)" using ok by (intro absorbs_none) (auto simp: rb_span_def)
    have "r' = r"
      using dup(3) by (auto simp: write_below_def f(1) fw rf loop_looped [OF f(1,2)] Let_def
          max_off_rb_max [OF wf] simp del: RangeBuf_max_off_eq split: if_splits)
    with ab show ?thesis by (intro exI [of _ "rv_data r"] exI [of _ "rv_len r"]) simp
  next
    case above
    with write_tmp_above [OF ok b, of inner_write] show ?thesis by auto
  next
    case below
    obtain lo where "\<exists>d l. absorbs S b r d l \<and>
        write_tmp inner_write [b] r = try_bind (FcRecvBuf_write inner_write lo f) (\<lambda>f'.
          Inr (r\<lparr>rv_fc := Some f', rv_data := d, rv_len := l\<rparr>))"
      by (rule write_tmp_below [of S r b inner_write]) (use ok b below f in auto)
    with below(3) rf show ?thesis by (auto simp: fw)
  qed
qed

lemma write_strip_looped:
  assumes b: "incoming S b" and f: "rv_fc r = Some f" "fc_looped f" and x: "rv_fin_off r = Some x"
    and st: "write_strip b r = Inr (b1, r1)"
  shows "\<exists>y. r1 = r\<lparr>rv_fin_off := Some y\<rparr> \<and> x \<le> y \<and> incoming S b1 \<and> rb_span b1 \<subseteq> rb_span b \<and>
    rb_span b \<inter> {..< x} \<subseteq> rb_span b1 \<and> rb_max b1 \<le> rb_max b"
proof (cases "rb_max b \<le> x")
  case True
  then have "b1 = b" "r1 = r"
    using st x f by (simp_all add: write_strip_def max_off_rb_max [OF incomingD(1) [OF b]]
        del: RangeBuf_max_off_eq)
  with b x show ?thesis by (intro exI [of _ x]) auto
next
  case False
  let ?c = "max x (rb_first b)"
  obtain lo hi where sp: "RangeBuf_split_off (?c - rb_first b) b = Inr (lo, hi)"
    and lo: "incoming S lo" "rb_first lo = rb_first b" "rb_max lo = ?c"
    by (rule split_incoming_at [OF b, of ?c]) (use False in auto)
  have "?c - rb_first b = x - rb_off b" using incomingD(3) [OF b] by auto
  with st x f False sp have "b1 = lo" "r1 = r\<lparr>rv_fin_off := Some ?c\<rparr>"
    using lo(3)
    by (auto simp: write_strip_def max_off_rb_max [OF incomingD(1) [OF b]]
        max_off_rb_max [OF incomingD(1) [OF lo(1)]] simp del: RangeBuf_max_off_eq
        split: option.splits if_splits)
  with lo False show ?thesis by (intro exI [of _ ?c]) (auto simp: rb_span_def)
qed

lemma rot_after_write:
  assumes inv: "rot_after S L off0 r R out" and b: "from_sender S L b"
    and w: "stream_write b r = Inr r'"
  shows "rot_after S L off0 r' (R \<union> rb_span b) out"
proof -
  have inc: "incoming S b" and m: "rb_max b < u64_size"
    using b rb_max_less [of b] by (auto simp: from_sender_def incoming_def)
  obtain f x where f: "rv_fc r = Some f" "fc_looped f" "fc_init_off f = off0" "fc_recv_buf f = None"
      "fc_fin_off f = Some L" and x: "rv_fin_off r = Some x" "off0 \<le> x" and ok: "data_ok S r"
    using inv by (auto simp: rot_after_def)
  obtain b1 r1 where st: "write_strip b r = Inr (b1, r1)"
    and wb: "write_buffer inner_write fc_loop_recv b1 r1 = Inr r'"
    using w by (auto simp: stream_write_def RecvBuf_write_def split: if_splits)
  obtain y where r1: "r1 = r\<lparr>rv_fin_off := Some y\<rparr>" and y: "x \<le> y" and b1: "incoming S b1"
      "rb_span b1 \<subseteq> rb_span b" "rb_span b \<inter> {..< x} \<subseteq> rb_span b1" "rb_max b1 \<le> rb_max b"
    using write_strip_looped [OF inc f(1,2) x(1) st] by blast
  have "data_ok S r1" using ok by (simp add: r1 data_ok_def)
  then obtain d l where r': "r' = r1\<lparr>rv_data := d, rv_len := l\<rparr>" and ab: "absorbs S b1 r1 d l"
    using write_buffer_looped [OF _ b1(1) _ f(2,4) _ wb] f(1) r1 by auto
  have "held d = held (rv_data r) \<union> (rb_span b1 \<inter> {rv_off r ..})"
    using ab inv by (simp add: absorbs_def r1 rot_after_def)
  moreover have "rb_span b1 \<inter> {..< off0} = rb_span b \<inter> {..< off0}"
    using b1(2,3) x(2) by force
  ultimately have "held d \<inter> {..< off0} = (R \<union> rb_span b) \<inter> {rv_off r ..< off0}"
    using inv by (auto simp: rot_after_def)
  moreover have "l < u64_size" using ab inv m b1(4) by (auto simp: absorbs_def r1 rot_after_def)
  moreover have "data_ok S r'" using ab by (simp add: absorbs_def data_ok_def r')
  ultimately show ?thesis using inv f x(2) y by (auto simp: rot_after_def r' r1)
qed

section \<open>Reading\<close>

lemma upt_extend_from: "a \<le> b \<Longrightarrow> map S [a ..< b] @ map S [b ..< b + n] = map S [a ..< b + n]"
  by (metis map_append upt_add_eq_append)

text \<open>A read in the first phase either stays there, without reporting the end, or reaches the end
  of the stream and loops.\<close>

lemma rot_before_emit:
  assumes inv: "rot_before S L off0 r f i R out" and e: "stream_emit cap r = (r', Inr (bytes, fin))"
  shows "(\<exists>f i. rot_before S L off0 r' f i R (out @ bytes)) \<and> \<not> fin \<or>
    rot_after S L off0 r' R (out @ bytes) \<and> rv_off r' = 0 \<and> (fin \<longrightarrow> off0 = 0)"
proof -
  have lim: "limit r = None" using inv by (auto simp: rot_before_def limit_def)
  have ok: "data_ok S r" "rv_error r = None" "consumed (rv_flow r) \<le> rv_off r" "rv_len r < u64_size"
    and off: "rv_off r < u64_size" "off0 \<le> rv_off r"
    using inv by (auto simp: rot_before_def)
  have rdy: "RecvBuf_ready r = Inr True"
    using e ready_iff [OF ok(1)] emit_not_ready [of r] by (cases "RecvBuf_ready r = Inr False")
      (auto simp: stream_emit_def)
  obtain n r1 fc where em: "emitted S cap r n r1" "consumed fc = consumed (rv_flow r) + n"
    and run: "RecvBuf_emit fc_loop_recv cap r =
       (let r2 = r1\<lparr>rv_flow := fc\<rparr>; bytes = map S [rv_off r ..< rv_off r + n] in
        if RecvBuf_is_fin r2 \<and> rv_fc r2 \<noteq> None then
          (case fc_loop_recv r2 of (r, Inl e) \<Rightarrow> (r, Inl e) | (r, Inr _) \<Rightarrow> (r, Inr (bytes, RecvBuf_is_fin r)))
        else (r2, Inr (bytes, RecvBuf_is_fin r2 \<or> (\<exists>o'. limit r2 = Some o' \<and> o' \<le> rv_off r2))))"
    by (rule emit_split [of S r cap fc_loop_recv]) (use ok off rdy lim in auto)
  define r2 where "r2 = r1\<lparr>rv_flow := fc\<rparr>"
  define bs where "bs = map S [rv_off r ..< rv_off r + n]"
  obtain d where r1: "r1 = r\<lparr>rv_off := rv_off r + n, rv_data := d\<rparr>" using em(1) by (auto simp: emitted_def)
  have r2: "data_ok S r2" "held d = R \<inter> {rv_off r + n ..}" "n = 0 \<or> rv_off r + n \<le> rv_len r"
    using em(1) inv by (auto simp: emitted_def r1 r2_def rot_before_def data_ok_def)
  have inv2: "rot_before S L off0 r2 f i R (out @ bs)"
    using inv r2 em(2) off(2)
    by (auto simp: rot_before_def r2_def r1 bs_def upt_extend_from)
  have lim2: "limit r2 = None" using lim by (simp add: r2_def r1 limit_def)
  show ?thesis
  proof (cases "RecvBuf_is_fin r2")
    case True
    then have L: "rv_fin_off r2 = Some L" "rv_off r2 = L"
      using inv2 by (auto simp: RecvBuf_is_fin_def rot_before_def)
    then obtain r3 where r3: "fc_loop_recv r2 = (r3, Inr ())" "rot_after S L off0 r3 R (out @ bs)"
        "rv_off r3 = 0" "rv_fin_off r3 = Some off0"
      using rot_loop [OF inv2] by blast
    moreover have "rv_fc r2 \<noteq> None" using inv2 by (simp add: rot_before_def)
    ultimately have "r' = r3 \<and> bytes = bs \<and> (fin \<longleftrightarrow> RecvBuf_is_fin r3)"
      using e run True by (auto simp: stream_emit_def Let_def simp flip: r2_def bs_def)
    with r3 show ?thesis by (auto simp: RecvBuf_is_fin_def)
  next
    case False
    then have "r' = r2 \<and> bytes = bs \<and> \<not> fin"
      using e run lim2 by (auto simp: stream_emit_def Let_def simp flip: r2_def bs_def)
    with inv2 show ?thesis by blast
  qed
qed

text \<open>A read in the second phase reports the end exactly at the offset where the reading began.\<close>

lemma rot_after_emit:
  assumes inv: "rot_after S L off0 r R out" and e: "stream_emit cap r = (r', Inr (bytes, fin))"
  shows "rot_after S L off0 r' R (out @ bytes) \<and> (fin \<longleftrightarrow> rv_off r' = off0)"
proof -
  obtain f x where f: "rv_fc r = Some f" "fc_looped f" "fc_init_off f = off0"
    and x: "rv_fin_off r = Some x" "off0 \<le> x"
    using inv by (auto simp: rot_after_def)
  have lim: "limit r = Some off0" using f by (simp add: limit_def)
  have ok: "data_ok S r" "rv_error r = None" "consumed (rv_flow r) \<le> rv_off r" "rv_len r < u64_size"
    and off: "rv_off r < u64_size" "rv_off r \<le> off0"
    using inv by (auto simp: rot_after_def)
  have rdy: "RecvBuf_ready r = Inr True"
    using e ready_iff [OF ok(1)] emit_not_ready [of r] by (cases "RecvBuf_ready r = Inr False")
      (auto simp: stream_emit_def)
  obtain n r1 fc where em: "emitted S cap r n r1" "consumed fc = consumed (rv_flow r) + n"
    and run: "RecvBuf_emit fc_loop_recv cap r =
       (let r2 = r1\<lparr>rv_flow := fc\<rparr>; bytes = map S [rv_off r ..< rv_off r + n] in
        if RecvBuf_is_fin r2 \<and> rv_fc r2 \<noteq> None then
          (case fc_loop_recv r2 of (r, Inl e) \<Rightarrow> (r, Inl e) | (r, Inr _) \<Rightarrow> (r, Inr (bytes, RecvBuf_is_fin r)))
        else (r2, Inr (bytes, RecvBuf_is_fin r2 \<or> (\<exists>o'. limit r2 = Some o' \<and> o' \<le> rv_off r2))))"
    by (rule emit_split [of S r cap fc_loop_recv]) (use ok off rdy lim in auto)
  define r2 where "r2 = r1\<lparr>rv_flow := fc\<rparr>"
  define bs where "bs = map S [rv_off r ..< rv_off r + n]"
  obtain d where r1: "r1 = r\<lparr>rv_off := rv_off r + n, rv_data := d\<rparr>" using em(1) by (auto simp: emitted_def)
  have r2: "data_ok S r2" "held d = held (rv_data r) \<inter> {rv_off r + n ..}" "rv_off r + n \<le> off0"
    using em(1) lim off by (auto simp: emitted_def r1 r2_def data_ok_def)
  have "held d \<inter> {..< off0} = R \<inter> {rv_off r + n ..< off0}"
    using r2(2) inv by (auto simp: rot_after_def)
  then have inv2: "rot_after S L off0 r2 R (out @ bs)"
    using inv r2(1,3) em(2) by (auto simp: rot_after_def r2_def r1 bs_def upt_extend)
  have loop: "fc_loop_recv r2 = (r2, Inr ())" and lim2: "limit r2 = Some off0"
    using f by (auto simp: r2_def r1 limit_def intro: loop_looped)
  have "r' = r2 \<and> bytes = bs \<and> (fin \<longleftrightarrow> RecvBuf_is_fin r2 \<or> off0 \<le> rv_off r2)"
    using e run by (auto simp: stream_emit_def Let_def loop lim2 simp flip: r2_def bs_def split: if_splits)
  moreover have "RecvBuf_is_fin r2 \<longrightarrow> off0 \<le> rv_off r2"
    using x by (auto simp: RecvBuf_is_fin_def r2_def r1)
  moreover have "rv_off r2 \<le> off0" using r2(3) by (simp add: r2_def r1)
  ultimately show ?thesis using inv2 by auto
qed

section \<open>Runs\<close>

definition rot_inv ::
  "(nat \<Rightarrow> 8 word) \<Rightarrow> nat \<Rightarrow> nat \<Rightarrow> stream_recv \<Rightarrow> nat set \<Rightarrow> 8 word list \<Rightarrow> bool" where
  "rot_inv S L off0 r R out \<longleftrightarrow>
     (\<exists>f i. rot_before S L off0 r f i R out) \<or> rot_after S L off0 r R out"

lemma rot_inv_start:
  "off0 < u64_size \<Longrightarrow> rot_inv S L off0 (fc_set_offset_at off0 (RecvBuf_new maxd win)) {} []"
  by (simp add: rot_inv_def rot_before_def fc_set_offset_at_def FcRecvBuf_new_def RecvBuf_new_def
      FlowControl_new_def inner_ok_def data_ok_def)

lemma rot_inv_flow:
  "rot_inv S L off0 r R out \<Longrightarrow> consumed fc = consumed (rv_flow r) \<Longrightarrow>
     rot_inv S L off0 (r\<lparr>rv_flow := fc\<rparr>) R out"
  by (auto simp: rot_inv_def rot_before_def rot_after_def data_ok_def)

lemma rot_inv_enable:
  assumes "rot_inv S L off0 r R out" "fc_enable_out_of_order_read v r = Inr r'"
  shows "rot_inv S L off0 r' R out"
proof -
  obtain f where f: "rv_fc r = Some f" and r': "r' = r\<lparr>rv_fc := Some (f\<lparr>fc_can_read := v\<rparr>)\<rparr>"
    using assms(2) by (auto simp: fc_enable_out_of_order_read_def split: option.splits)
  have ok: "data_ok S r' = data_ok S r" by (simp add: r' data_ok_def)
  show ?thesis
  proof (cases "rot_after S L off0 r R out")
    case True
    then have "rot_after S L off0 r' R out" using f ok by (simp add: rot_after_def r')
    then show ?thesis by (simp add: rot_inv_def)
  next
    case False
    with assms(1) obtain i where "rot_before S L off0 r f i R out"
      using f by (auto simp: rot_inv_def rot_before_def)
    then have "rot_before S L off0 r' (f\<lparr>fc_can_read := v\<rparr>) i R out"
      using f ok by (simp add: rot_before_def r')
    then show ?thesis unfolding rot_inv_def by blast
  qed
qed

lemma rot_inv_emit:
  assumes "rot_inv S L off0 r R out" "stream_emit cap r = (r', Inr (bytes, fin))"
  shows "rot_inv S L off0 r' R (out @ bytes) \<and> (fin \<longrightarrow> out @ bytes = rotation S off0 L)"
proof (cases "rot_after S L off0 r R out")
  case True
  with rot_after_emit [OF True assms(2)] show ?thesis
    by (auto simp: rot_inv_def rot_after_def rotation_def)
next
  case False
  with assms(1) obtain f i where "rot_before S L off0 r f i R out" by (auto simp: rot_inv_def)
  from rot_before_emit [OF this assms(2)] show ?thesis
  proof
    assume "(\<exists>f i. rot_before S L off0 r' f i R (out @ bytes)) \<and> \<not> fin"
    then show ?thesis unfolding rot_inv_def by blast
  next
    assume a: "rot_after S L off0 r' R (out @ bytes) \<and> rv_off r' = 0 \<and> (fin \<longrightarrow> off0 = 0)"
    then have "out @ bytes = map S [off0 ..< L]" by (simp add: rot_after_def)
    then have "fin \<longrightarrow> out @ bytes = rotation S off0 L" using a by (simp add: rotation_def)
    with a show ?thesis unfolding rot_inv_def by blast
  qed
qed

lemma rot_run_inv:
  assumes "recv_run S L (fc_set_offset_at off0 (RecvBuf_new maxd win)) r R out" "off0 < u64_size"
  shows "rot_inv S L off0 r R out"
  using assms(1)
proof (induction rule: recv_run.induct)
  case recv_start
  show ?case using assms(2) by (rule rot_inv_start)
next
  case (recv_write r R out b r')
  then show ?case using rot_before_write rot_after_write unfolding rot_inv_def by blast
next
  case (recv_emit r R out cap r' bytes fin)
  then show ?case using rot_inv_emit by blast
next
  case (recv_ensure r R out w)
  with flow_updates(3) [of w r] show ?case by (auto intro: rot_inv_flow)
qed (auto intro: rot_inv_flow rot_inv_enable dest!: flow_updates(1,2))

section \<open>Properties\<close>

text \<open>The positions whose bytes are still in one of the two buffers.\<close>

definition retained :: "stream_recv \<Rightarrow> nat set" where
  "retained r = held (rv_data r) \<union>
     (case rv_fc r of
        Some f \<Rightarrow> (case fc_recv_buf f of Some i \<Rightarrow> held (rv_data i) | None \<Rightarrow> {}) | None \<Rightarrow> {})"

lemma cover_before:
  fixes a b :: nat
  assumes "D = R \<inter> {b ..}" "I \<inter> {..< a} = R \<inter> {..< a}"
  shows "R \<subseteq> {a ..< b} \<union> (D \<union> I)"
proof
  fix x assume x: "x \<in> R"
  have "x \<in> I" if "x < a" using x that assms(2) by blast
  moreover have "x \<in> D" if "b \<le> x" using x that assms(1) by blast
  ultimately show "x \<in> {a ..< b} \<union> (D \<union> I)" by (cases "x < a"; cases "x < b") auto
qed

lemma cover_after:
  fixes a b :: nat
  assumes "D \<inter> {..< a} = R \<inter> {b ..< a}" "R \<subseteq> {..< L}"
  shows "R \<subseteq> {a ..< L} \<union> {0 ..< b} \<union> D"
proof
  fix x assume x: "x \<in> R"
  have "x \<in> D" if "x < a" "b \<le> x"
  proof -
    have "x \<in> R \<inter> {b ..< a}" using x that by simp
    then show ?thesis unfolding assms(1) [symmetric] by blast
  qed
  moreover have "x < L" using x assms(2) by auto
  ultimately show "x \<in> {a ..< L} \<union> {0 ..< b} \<union> D" by (cases "x < a"; cases "x < b") auto
qed

lemma rot_before_progress:
  assumes "rot_before S L off0 r f i R out"
  shows "\<exists>n. out = take n (rotation S off0 L) \<and>
    R \<subseteq> set (take n ([off0 ..< L] @ [0 ..< off0])) \<union> retained r"
proof (cases "rv_off r = off0")
  case True
  then have "out = []" "R \<subseteq> retained r"
    using assms cover_before [of "held (rv_data r)" R off0 "held (rv_data i)" off0]
    by (simp_all add: rot_before_def retained_def)
  then show ?thesis by (intro exI [of _ 0]) simp
next
  case False
  then have le: "off0 \<le> rv_off r" "rv_off r \<le> L" using assms by (auto simp: rot_before_def)
  then have tk: "take (rv_off r - off0) ([off0 ..< L] @ [0 ..< off0]) = [off0 ..< rv_off r]"
    by (simp add: take_upt)
  moreover have "out = take (rv_off r - off0) (rotation S off0 L)"
    using assms unfolding rotation_def take_map tk by (simp add: rot_before_def)
  moreover have "R \<subseteq> {off0 ..< rv_off r} \<union> retained r"
    using assms cover_before [of "held (rv_data r)" R "rv_off r" "held (rv_data i)" off0]
    by (simp add: rot_before_def retained_def)
  ultimately show ?thesis by (intro exI [of _ "rv_off r - off0"]) simp
qed

lemma rot_after_progress:
  assumes "rot_after S L off0 r R out" "R \<subseteq> {..< L}"
  shows "\<exists>n. out = take n (rotation S off0 L) \<and>
    R \<subseteq> set (take n ([off0 ..< L] @ [0 ..< off0])) \<union> retained r"
proof -
  let ?n = "L - off0 + rv_off r"
  have le: "rv_off r \<le> off0" using assms by (simp add: rot_after_def)
  then have tk: "take ?n ([off0 ..< L] @ [0 ..< off0]) = [off0 ..< L] @ [0 ..< rv_off r]"
    by (simp add: take_upt)
  moreover have "out = take ?n (rotation S off0 L)"
    using assms(1) unfolding rotation_def take_map tk by (simp add: rot_after_def)
  moreover have "R \<subseteq> {off0 ..< L} \<union> {0 ..< rv_off r} \<union> retained r"
    using cover_after [of "held (rv_data r)" off0 R "rv_off r" L] assms
    by (auto simp: rot_after_def retained_def)
  ultimately show ?thesis by (intro exI [of _ ?n]) simp
qed

lemma run_positions:
  "recv_run S L r0 r R out \<Longrightarrow> R \<subseteq> {..< L}"
  by (induction rule: recv_run.induct) (auto simp: from_sender_def rb_span_def)


lemmas rot_eval = recv_eval fc_set_offset_at_def FcRecvBuf_new_def FcRecvBuf_write_def
  inner_write_def fc_loop_recv_def fc_copy_def

lemma sample_sender_whole: "from_sender sample_bytes 3 (RangeBuf_from [7, 8, 9] 0 True)"
  by (simp add: from_sender_def incoming_def agrees_def rb_max_def upt_rec sample_bytes_def)
    (simp add: RangeBuf_from_def)

lemma sample_rot_ops:
  "\<exists>r1 r2. stream_write (RangeBuf_from [7, 8, 9] 0 True) (fc_set_offset_at 1 (RecvBuf_new 100 100)) = Inr r1 \<and>
     stream_emit 10 r1 = (r2, Inr ([8, 9], False)) \<and>
     snd (stream_emit 10 r2) = Inr ([7], True)"
  by (simp add: rot_eval)


text \<open>A receiver that has read the whole end of the stream when it learns the final offset from a
  retransmission: nothing is stored, and the loop has not happened.\<close>

definition stranded :: "stream_recv \<Rightarrow> bool" where
  "stranded r \<longleftrightarrow> rv_data r = [] \<and> rv_fin_off r = Some (rv_off r) \<and>
     (\<exists>f. rv_fc r = Some f \<and> \<not> fc_looped f \<and> fc_init_off f < rv_off r)"

lemma stranded_write:
  assumes st: "stranded r" and b: "rb_wf b" and w: "stream_write b r = Inr r'"
  shows "stranded r' \<and> rv_off r' = rv_off r"
proof -
  obtain f where f: "rv_fc r = Some f" "\<not> fc_looped f" "fc_init_off f < rv_off r"
    and fin: "rv_fin_off r = Some (rv_off r)"
    using st by (auto simp: stranded_def)
  have lim: "limit r = None" using f by (simp add: limit_def)
  have wb: "write_buffer inner_write fc_loop_recv b r = Inr r'"
    using w by (simp add: stream_write_def RecvBuf_write_eq [OF b lim] split: if_splits)
  then have viol: "\<not> final_size_violated b r" by (auto simp: write_buffer_eq [OF b] split: if_splits)
  then have m: "rb_max b \<le> rv_off r" "rb_fin b \<longrightarrow> rb_max b = rv_off r"
    using fin by (auto simp: final_size_violated_def)
  have sf: "set_fin b r = r" using set_fin_known [OF _ viol] fin by simp
  show ?thesis
  proof (cases "rb_first b = rb_max b")
    case True
    with wb viol fin sf have "r' = r" by (simp add: write_buffer_eq [OF b])
    with st show ?thesis by simp
  next
    case False
    then have lt: "rb_first b < rb_max b" using rb_first_le_max [of b] by linarith
    with wb viol sf m(1) have "write_below inner_write fc_loop_recv b r = Inr r'"
      by (simp add: write_buffer_eq [OF b])
    then obtain f' where "FcRecvBuf_write inner_write b f = Inr f'" and
        r': "fc_init_off f' = fc_init_off f \<longrightarrow> r' = r\<lparr>rv_fc := Some f'\<rparr>"
      using f m(2)
      by (auto simp: write_below_def max_off_rb_max [OF b] Let_def simp del: RangeBuf_max_off_eq
          split: if_splits)
    moreover from this(1) have "fc_init_off f' = fc_init_off f" "\<not> fc_looped f'"
      using f(2) by (auto simp: FcRecvBuf_write_def split: option.splits)
    ultimately show ?thesis using st f by (simp add: stranded_def)
  qed
qed

text \<open>C27: Such a receiver never delivers the beginning of the stream, although it may hold all of
  it: every read says that there is nothing to read, and every buffer that arrives leaves it in
  this state.\<close>

theorem rotation_late_fin_stranded:
  assumes "stranded r"
  shows "stream_emit cap r = (r, err Done) \<and> RecvBuf_is_fin r \<and>
    (\<forall>b r'. rb_wf b \<longrightarrow> stream_write b r = Inr r' \<longrightarrow>
      stranded r' \<and> stream_emit cap r' = (r', err Done))"
proof -
  have idle: "stream_emit cap r = (r, err Done)" if "stranded r" for r
    using that by (simp add: stranded_def stream_emit_def RecvBuf_emit_def RecvBuf_ready_def bt_first_def)
  moreover have "RecvBuf_is_fin r" using assms by (simp add: stranded_def RecvBuf_is_fin_def)
  ultimately show ?thesis using assms stranded_write [OF assms] by blast
qed

text \<open>The witness: an honest sender, all three bytes received, the last two read.\<close>

lemma sample_stranded_ops:
  "\<exists>r1 r2 r3. stream_write (RangeBuf_from [7, 8, 9] 0 False) (fc_set_offset_at 1 (RecvBuf_new 100 100)) = Inr r1 \<and>
     stream_emit 10 r1 = (r2, Inr ([8, 9], False)) \<and>
     stream_write (RangeBuf_from [8, 9] 1 True) r2 = Inr r3 \<and> stranded r3"
  by (simp add: rot_eval stranded_def)

theorem rotation_late_fin_stranded_witness:
  "\<exists>r. recv_run sample_bytes 3 (fc_set_offset_at 1 (RecvBuf_new 100 100)) r {0 ..< 3} [8, 9] \<and>
     stream_emit 10 r = (r, err Done)"
proof -
  obtain r1 r2 r3 where w: "stream_write (RangeBuf_from [7, 8, 9] 0 False)
        (fc_set_offset_at 1 (RecvBuf_new 100 100)) = Inr r1"
      "stream_emit 10 r1 = (r2, Inr ([8, 9], False))"
      "stream_write (RangeBuf_from [8, 9] 1 True) r2 = Inr r3" "stranded r3"
    using sample_stranded_ops by blast
  have b: "from_sender sample_bytes 3 (RangeBuf_from [7, 8, 9] 0 False)"
    by (simp add: from_sender_def incoming_def agrees_def rb_max_def upt_rec sample_bytes_def)
      (simp add: RangeBuf_from_def)
  have span: "({} \<union> rb_span (RangeBuf_from [7, 8, 9] 0 False)) \<union> rb_span (RangeBuf_from [8, 9] 1 True) = {0 ..< 3}"
    by (auto simp: from_span)
  have "recv_run sample_bytes 3 (fc_set_offset_at 1 (RecvBuf_new 100 100)) r3 {0 ..< 3} [8, 9]"
    using recv_write [OF recv_emit [OF recv_write [OF recv_start b w(1)] w(2)] sample_sender(1) w(3)]
    unfolding span by simp
  with rotation_late_fin_stranded [OF w(4), of 10] show ?thesis by blast
qed

text \<open>C26: An empty buffer with the end-of-stream flag whose offset is below the offset where the
  reading began makes the receiver panic: the assertion of \<open>split_off\<close> fails. The check against
  the data already received does not stop it, since nothing has been received yet.\<close>

theorem rotation_empty_fin_panic:
  assumes "rv_len r \<le> p" "p < rv_off r" "p \<le> max_data (rv_flow r)" "p < u64_size"
    "rv_fin_off r = None"
  shows "stream_write (RangeBuf_from [] p True) r = panic"
proof -
  let ?b = "RangeBuf_from [] p True"
  have b: "rb_wf ?b" "rb_max ?b = p" "rb_first ?b = p" "rb_fin ?b" and inc: "incoming (\<lambda>_. 0) ?b"
    using assms(4) by (simp_all add: rb_max_def incoming_def agrees_def)
      (simp add: RangeBuf_from_def)
  have "write_strip ?b r = Inr (?b, r)" using assms(5) by (simp add: write_strip_def split: option.splits)
  moreover have "write_buffer inner_write fc_loop_recv ?b r = panic"
    using assms b write_tmp_empty_below [OF inc, of "set_fin ?b r" inner_write]
    by (simp add: write_buffer_eq [OF b(1)] final_size_violated_def)
  ultimately show ?thesis
    using assms(3) b by (simp add: stream_write_def RecvBuf_write_def max_off_rb_max del: RangeBuf_max_off_eq)
qed

theorem rotation_empty_fin_panic_witness:
  "stream_write (RangeBuf_from [] 3 True) (fc_set_offset_at 5 (RecvBuf_new 100 100)) = panic"
  using rotation_empty_fin_panic [of "fc_set_offset_at 5 (RecvBuf_new 100 100)" 3]
  by (simp add: fc_set_offset_at_def RecvBuf_new_def FlowControl_new_def)

text \<open>C28: After the loop, a late duplicate that lies entirely past the offset where the reading
  began moves the final offset to its own start: a receive side that was finished is not
  finished any more.\<close>

theorem rotation_duplicate_unfinishes:
  assumes "rv_fc r = Some f" "fc_looped f" "fc_fin_off f = Some L" "rv_fin_off r = Some (rv_off r)"
    "rv_off r < off" "0 < length d" "off + length d \<le> L" "L \<le> max_data (rv_flow r)" "L < u64_size"
  shows "RecvBuf_is_fin r \<and> (\<exists>r'. stream_write (RangeBuf_from d off False) r = Inr r' \<and>
    rv_off r' = rv_off r \<and> rv_fin_off r' = Some off \<and> \<not> RecvBuf_is_fin r')"
proof -
  let ?b = "RangeBuf_from d off False"
  have b: "rb_wf ?b" "rb_max ?b = off + length d" using assms by (auto simp: rb_max_def)
  obtain lo hi where sp: "RangeBuf_split_off 0 ?b = Inr (lo, hi)" "rb_wf lo" "rb_first lo = off"
      "rb_max lo = off" "\<not> rb_fin lo"
    using b(1) by (auto simp: RangeBuf_split_off_def RangeBuf_from_def rb_wf_def rb_first_def
        rb_max_def rb_bytes_def)
  have "rv_off r - rb_off ?b = 0" using assms(5) by (simp add: RangeBuf_from_def)
  then have "write_strip ?b r = Inr (lo, r\<lparr>rv_fin_off := Some off\<rparr>)"
    using assms b sp by (simp add: write_strip_def max_off_rb_max del: RangeBuf_max_off_eq)
  moreover have "write_buffer inner_write fc_loop_recv lo (r\<lparr>rv_fin_off := Some off\<rparr>) =
      Inr (r\<lparr>rv_fin_off := Some off\<rparr>)"
    using sp(3-5) by (simp add: write_buffer_eq [OF sp(2)] final_size_violated_def set_fin_def)
  ultimately have "stream_write ?b r = Inr (r\<lparr>rv_fin_off := Some off\<rparr>)"
    using assms(7,8) b by (simp add: stream_write_def RecvBuf_write_def max_off_rb_max del: RangeBuf_max_off_eq)
  then show ?thesis using assms(4,5) by (simp add: RecvBuf_is_fin_def)
qed

lemma sample_looped:
  "\<exists>r1 r2 r3 f. stream_write (RangeBuf_from [7, 8, 9] 0 True) (fc_set_offset_at 1 (RecvBuf_new 100 100)) = Inr r1 \<and>
     stream_emit 10 r1 = (r2, Inr ([8, 9], False)) \<and> stream_emit 10 r2 = (r3, Inr ([7], True)) \<and>
     rv_fc r3 = Some f \<and> fc_looped f \<and> fc_fin_off f = Some 3 \<and> rv_fin_off r3 = Some 1 \<and> rv_off r3 = 1 \<and>
     max_data (rv_flow r3) = 100"
  by (simp add: rot_eval)

theorem rotation_duplicate_unfinishes_witness:
  "\<exists>r r'. recv_run sample_bytes 3 (fc_set_offset_at 1 (RecvBuf_new 100 100)) r {0 ..< 3} [8, 9, 7] \<and>
     RecvBuf_is_fin r \<and> stream_write (RangeBuf_from [9] 2 False) r = Inr r' \<and> \<not> RecvBuf_is_fin r'"
proof -
  obtain r1 r2 r3 f where w: "stream_write (RangeBuf_from [7, 8, 9] 0 True)
        (fc_set_offset_at 1 (RecvBuf_new 100 100)) = Inr r1"
      "stream_emit 10 r1 = (r2, Inr ([8, 9], False))" "stream_emit 10 r2 = (r3, Inr ([7], True))"
    and f: "rv_fc r3 = Some f" "fc_looped f" "fc_fin_off f = Some 3" "rv_fin_off r3 = Some 1"
      "rv_off r3 = 1" "max_data (rv_flow r3) = 100"
    using sample_looped by blast
  have span: "{} \<union> rb_span (RangeBuf_from [7, 8, 9] 0 True) = {0 ..< 3}" by (simp add: from_span eval_nat_numeral)
  have "recv_run sample_bytes 3 (fc_set_offset_at 1 (RecvBuf_new 100 100)) r3 {0 ..< 3} [8, 9, 7]"
    using recv_emit [OF recv_emit [OF recv_write [OF recv_start sample_sender_whole w(1)] w(2)] w(3)]
    unfolding span by simp
  with rotation_duplicate_unfinishes [OF f(1-3), of 2 "[9]"] f(4-6) show ?thesis by auto
qed

end
