(* ===== verification/Send_Buf.thy ===== *)
theory Send_Buf
  imports Range_Buf Ranges
begin

text \<open>
  \<open>SendBuf\<close> of \<open>quiche/src/stream/send_buf.rs\<close> and its flexicast extension \<open>FcSendBuf\<close> of
  \<open>quiche/src/stream/flexicast.rs\<close>: the send side of a stream. Data is appended by the
  application, emitted into packets from the front, marked for retransmission when a packet is
  lost, and dropped when it is acknowledged contiguously.

  As on the receive side, the extension of a buffer owns another send buffer, made by
  \<open>SendBuf::new\<close>, whose own extension is never set: the type of the inner buffer is a parameter,
  and the operations that reach it take its operation as an argument. For the inner buffer
  itself that argument is never used.
\<close>

section \<open>State\<close>

abbreviation (input) SEND_BUFFER_SIZE :: nat where "SEND_BUFFER_SIZE \<equiv> 4096"

record 'i fc_send_buf =
  fs_send_buf :: "'i option"

record 'i send_buf =
  sd_data :: "range_buf list"
  sd_pos :: nat
  sd_off :: nat
  sd_emit_off :: nat
  sd_len :: nat
  sd_max_data :: nat
  sd_blocked_at :: "nat option"
  sd_fin_off :: "nat option"
  sd_shutdown :: bool
  sd_acked :: range_set
  sd_error :: "nat option"
  sd_fc_max_offset :: "nat option"
  sd_fc_stream_rotate :: bool
  sd_fc :: "'i fc_send_buf option"

type_synonym inner_send = "unit send_buf"
type_synonym stream_send = "inner_send send_buf"

definition SendBuf_new :: "nat \<Rightarrow> 'i send_buf" where
  "SendBuf_new maxd =
     \<lparr>sd_data = [], sd_pos = 0, sd_off = 0, sd_emit_off = 0, sd_len = 0, sd_max_data = maxd,
      sd_blocked_at = None, sd_fin_off = None, sd_shutdown = False, sd_acked = RangeSet_default,
      sd_error = None, sd_fc_max_offset = None, sd_fc_stream_rotate = False, sd_fc = None\<rparr>"

definition FcSendBuf_new :: "nat \<Rightarrow> inner_send fc_send_buf" where
  "FcSendBuf_new maxd = \<lparr>fs_send_buf = Some (SendBuf_new maxd)\<rparr>"

section \<open>Offsets and capacity\<close>

text \<open>The loop of \<open>off_front\<close> and \<open>fc_off_front\<close>: the first buffer that is not empty, or what
  follows the loop.\<close>

fun off_front_while :: "range_buf list \<Rightarrow> nat result \<Rightarrow> nat result" where
  "off_front_while [] dflt = dflt"
| "off_front_while (b # bs) dflt =
     try_bind (RangeBuf_is_empty b) (\<lambda>e. if \<not> e then RangeBuf_off b else off_front_while bs dflt)"

definition off_front :: "'i send_buf \<Rightarrow> nat result" where
  "off_front s = off_front_while (drop (sd_pos s) (sd_data s)) (Inr (sd_off s))"

definition ack_off :: "'i send_buf \<Rightarrow> nat" where
  "ack_off s = (case RangeSet_iter (sd_acked s) of (0, e) # _ \<Rightarrow> e | _ \<Rightarrow> 0)"

definition send_cap :: "'i send_buf \<Rightarrow> nat result" where
  "send_cap s =
     (case sd_error s of
        Some e \<Rightarrow> err (StreamStopped e)
      | None \<Rightarrow> checked_sub (sd_max_data s) (sd_off s))"

section \<open>Writing\<close>

text \<open>\<open>slice::chunks\<close>.\<close>

function chunks :: "nat \<Rightarrow> 'a list \<Rightarrow> 'a list list" where
  "chunks n xs = (if n = 0 \<or> xs = [] then [] else take n xs # chunks n (drop n xs))"
  by pat_completeness auto
termination
  by (relation "measure (\<lambda>(n, xs). length xs)") auto

declare chunks.simps [simp del]

text \<open>The loop over the chunks; \<open>data_len\<close> is the length of the data that is written.\<close>

fun write_chunks :: "nat \<Rightarrow> bool \<Rightarrow> 8 word list list \<Rightarrow> nat \<Rightarrow> 'i send_buf \<Rightarrow> ('i send_buf \<times> nat) result" where
  "write_chunks data_len fin [] len s = Inr (s, len)"
| "write_chunks data_len fin (chunk # cs) len s =
     (let len = len + length chunk;
          buf = RangeBuf_from chunk (sd_off s) (len = data_len \<and> fin) in
      try_bind (checked_add (sd_off s) (length chunk)) (\<lambda>off.
      try_bind (checked_add (sd_len s) (length chunk)) (\<lambda>l.
        write_chunks data_len fin cs len
          (s\<lparr>sd_data := sd_data s @ [buf], sd_off := off, sd_len := l\<rparr>))))"

text \<open>The final offset is compared with the end of the data before it is truncated.\<close>

definition SendBuf_write :: "8 word list \<Rightarrow> bool \<Rightarrow> 'i send_buf \<Rightarrow> ('i send_buf \<times> nat) result" where
  "SendBuf_write data fin s =
     try_bind (checked_add (sd_off s) (length data)) (\<lambda>max_off.
     try_bind (send_cap s) (\<lambda>capacity.
       let fin = (if length data > capacity then False else fin);
           data = (if length data > capacity then take capacity data else data) in
       if (case sd_fin_off s of
             Some fin_off \<Rightarrow> max_off > fin_off \<or> (max_off = fin_off \<and> \<not> fin) | None \<Rightarrow> False)
       then err FinalSize
       else
         let s = (if fin then s\<lparr>sd_fin_off := Some max_off\<rparr> else s) in
         if ack_off s \<ge> max_off then Inr (s, length data)
         else if data = [] then Inr (s, length data)
         else write_chunks (length data) fin (chunks SEND_BUFFER_SIZE data) 0 s))"

section \<open>Emitting\<close>

text \<open>\<open>out[pos..pos + n].copy_from_slice(bytes)\<close>.\<close>

definition copy_at :: "nat \<Rightarrow> 8 word list \<Rightarrow> 8 word list \<Rightarrow> 8 word list result" where
  "copy_at pos bytes out =
     (if pos + length bytes \<le> length out
      then Inr (take pos out @ bytes @ drop (pos + length bytes) out) else panic)"

text \<open>The loop of \<open>emit\<close>, on the output buffer, the room left in it and the next offset.\<close>

function send_while ::
  "nat \<Rightarrow> 8 word list \<Rightarrow> nat \<Rightarrow> nat \<Rightarrow> 'i send_buf \<Rightarrow> (8 word list \<times> nat \<times> nat \<times> 'i send_buf) result" where
  "send_while out_off out out_len next_off s =
     (if out_len > 0 then
        try_bind (off_front s) (\<lambda>off_front.
          if sd_data s = [] \<or> off_front \<ge> sd_off s \<or> off_front \<noteq> next_off \<or> off_front \<ge> sd_max_data s
          then Inr (out, out_len, next_off, s)
          else if \<not> sd_pos s < length (sd_data s) then Inr (out, out_len, next_off, s)
          else
            let buf = sd_data s ! sd_pos s in
            try_bind (RangeBuf_is_empty buf) (\<lambda>e.
              if e then send_while out_off out out_len next_off (s\<lparr>sd_pos := sd_pos s + 1\<rparr>)
              else
                try_bind (RangeBuf_deref buf) (\<lambda>bytes.
                  let buf_len = min (length bytes) out_len in
                  try_bind (checked_sub next_off out_off) (\<lambda>out_pos.
                  try_bind (copy_at out_pos (take buf_len bytes) out) (\<lambda>out.
                  try_bind (checked_sub (sd_len s) buf_len) (\<lambda>l.
                  try_bind (RangeBuf_off buf) (\<lambda>b_off.
                  try_bind (checked_add b_off buf_len) (\<lambda>next_off.
                  try_bind (RangeBuf_consume buf_len buf) (\<lambda>buf.
                    let s = s\<lparr>sd_len := l, sd_data := (sd_data s)[sd_pos s := buf]\<rparr> in
                    if buf_len < length bytes then Inr (out, out_len - buf_len, next_off, s)
                    else send_while out_off out (out_len - buf_len) next_off
                           (s\<lparr>sd_pos := sd_pos s + 1\<rparr>))))))))))
      else Inr (out, out_len, next_off, s))"
  by pat_completeness auto
termination
  by (relation "measure (\<lambda>(_, _, _, _, s). length (sd_data s) - sd_pos s)") (auto simp: Let_def)

declare send_while.simps [simp del]

text \<open>\<open>ie\<close> is \<open>emit\<close> of the inner buffer.\<close>

definition FcSendBuf_emit ::
  "(8 word list \<Rightarrow> 'i \<Rightarrow> ('i \<times> 8 word list \<times> nat \<times> bool) result) \<Rightarrow> 8 word list \<Rightarrow> 'i fc_send_buf \<Rightarrow>
   ('i fc_send_buf \<times> 8 word list \<times> nat \<times> bool) result" where
  "FcSendBuf_emit ie out f =
     (case fs_send_buf f of
        Some i \<Rightarrow> try_bind (ie out i) (\<lambda>(i, r). Inr (f\<lparr>fs_send_buf := Some i\<rparr>, r))
      | None \<Rightarrow> err (Flexicast FcStreamRotation))"

definition SendBuf_emit ::
  "(8 word list \<Rightarrow> 'i \<Rightarrow> ('i \<times> 8 word list \<times> nat \<times> bool) result) \<Rightarrow> 8 word list \<Rightarrow> 'i send_buf \<Rightarrow>
   ('i send_buf \<times> 8 word list \<times> nat \<times> bool) result" where
  "SendBuf_emit ie out s =
     try_bind (off_front s) (\<lambda>out_off.
     try_bind (send_while out_off out (length out) out_off s) (\<lambda>(out, out_len, next_off, s).
       let fin = (sd_fin_off s = Some next_off);
           s = s\<lparr>sd_emit_off := max (sd_emit_off s) next_off\<rparr>;
           written = length out - out_len in
       if written = 0 \<and> fin \<and> sd_fc s \<noteq> None then
         (case sd_fc s of
            Some f \<Rightarrow> try_bind (FcSendBuf_emit ie out f) (\<lambda>(f, r). Inr (s\<lparr>sd_fc := Some f\<rparr>, r))
          | None \<Rightarrow> Inr (s, out, written, fin))
       else Inr (s, out, written, fin)))"

definition inner_emit :: "8 word list \<Rightarrow> inner_send \<Rightarrow> (inner_send \<times> 8 word list \<times> nat \<times> bool) result" where
  "inner_emit = SendBuf_emit (\<lambda>_ _. panic)"

definition stream_send_emit ::
  "8 word list \<Rightarrow> stream_send \<Rightarrow> (stream_send \<times> 8 word list \<times> nat \<times> bool) result" where
  "stream_send_emit = SendBuf_emit inner_emit"

section \<open>Acknowledgments\<close>

definition SendBuf_ack :: "nat \<Rightarrow> nat \<Rightarrow> 'i send_buf \<Rightarrow> 'i send_buf result" where
  "SendBuf_ack off len s =
     try_bind (checked_add off len) (\<lambda>e.
     try_bind (RangeSet_insert (off, e) (sd_acked s)) (\<lambda>acked. Inr (s\<lparr>sd_acked := acked\<rparr>)))"

text \<open>The loop that finds the last buffer that can be dropped; it returns how many can.\<close>

fun drop_for :: "nat \<Rightarrow> range_buf list \<Rightarrow> nat \<Rightarrow> nat result" where
  "drop_for a [] n = Inr n"
| "drop_for a (b # bs) n =
     (if rb_off b \<ge> a then Inr n
      else try_bind (RangeBuf_max_off b) (\<lambda>m.
             if rb_off b < a \<and> a < m then Inr n else drop_for a bs (n + 1)))"

definition send_fc_copy :: "inner_send \<Rightarrow> stream_send \<Rightarrow> stream_send" where
  "send_fc_copy other s =
     s\<lparr>sd_data := sd_data other, sd_acked := sd_acked other, sd_off := sd_off other,
       sd_len := sd_len other, sd_pos := sd_pos other, sd_emit_off := sd_emit_off other,
       sd_max_data := sd_max_data other, sd_blocked_at := sd_blocked_at other,
       sd_fin_off := sd_fin_off other, sd_shutdown := sd_shutdown other,
       sd_error := sd_error other, sd_fc_max_offset := sd_fc_max_offset other,
       sd_fc_stream_rotate := sd_fc_stream_rotate other,
       sd_fc := Some (FcSendBuf_new (sd_max_data other))\<rparr>"

text \<open>The part of \<open>ack_and_drop\<close> that is common to both levels, up to the hand-over to the inner
  buffer; \<open>ia\<close> is \<open>ack_and_drop\<close> of the inner buffer.\<close>

definition ack_inner ::
  "(nat \<Rightarrow> nat \<Rightarrow> 'i \<Rightarrow> 'i result) \<Rightarrow> nat \<Rightarrow> nat \<Rightarrow> 'i send_buf \<Rightarrow> 'i send_buf result" where
  "ack_inner ia off len s =
     (if off < ack_off s then
        (case sd_fc s of
           Some f \<Rightarrow>
             (case fs_send_buf f of
                Some i \<Rightarrow> try_bind (ia off len i) (\<lambda>i. Inr (s\<lparr>sd_fc := Some (f\<lparr>fs_send_buf := Some i\<rparr>)\<rparr>))
              | None \<Rightarrow> Inr s)
         | None \<Rightarrow> Inr s)
      else Inr s)"

definition drop_acked :: "'i send_buf \<Rightarrow> 'i send_buf result" where
  "drop_acked s =
     try_bind (drop_for (ack_off s) (sd_data s) 0) (\<lambda>n.
       Inr (s\<lparr>sd_data := drop n (sd_data s), sd_pos := sd_pos s - n\<rparr>))"

definition SendBuf_ack_and_drop ::
  "(nat \<Rightarrow> nat \<Rightarrow> 'i \<Rightarrow> 'i result) \<Rightarrow> ('i send_buf \<Rightarrow> 'i send_buf) \<Rightarrow> nat \<Rightarrow> nat \<Rightarrow> 'i send_buf \<Rightarrow>
   'i send_buf result" where
  "SendBuf_ack_and_drop ia take_inner off len s =
     try_bind (checked_add off len) (\<lambda>e.
       if sd_fc_stream_rotate s \<and> sd_off s < e then Inr s
       else
         try_bind (ack_inner ia off len s) (\<lambda>s.
         try_bind (SendBuf_ack off len s) (\<lambda>s.
           if sd_data s = [] then Inr s
           else if off > ack_off s then Inr s
           else try_bind (drop_acked s) (\<lambda>s.
                  Inr (if sd_data s = [] then take_inner s else s)))))"

definition inner_ack_and_drop :: "nat \<Rightarrow> nat \<Rightarrow> inner_send \<Rightarrow> inner_send result" where
  "inner_ack_and_drop = SendBuf_ack_and_drop (\<lambda>_ _. Inr) (\<lambda>s. s)"

text \<open>When all data is acknowledged and the inner buffer has data, it takes over.\<close>

definition take_inner_send :: "stream_send \<Rightarrow> stream_send" where
  "take_inner_send s =
     (case sd_fc s of
        Some f \<Rightarrow>
          (case fs_send_buf f of
             Some i \<Rightarrow> if sd_data i \<noteq> [] then send_fc_copy i s else s
           | None \<Rightarrow> s)
      | None \<Rightarrow> s)"

definition stream_ack_and_drop :: "nat \<Rightarrow> nat \<Rightarrow> stream_send \<Rightarrow> stream_send result" where
  "stream_ack_and_drop = SendBuf_ack_and_drop inner_ack_and_drop take_inner_send"

section \<open>Retransmission\<close>

text \<open>The new read position of a buffer that overlaps the lost range.\<close>

definition rewind :: "nat \<Rightarrow> nat \<Rightarrow> range_buf \<Rightarrow> nat" where
  "rewind off m b =
     (if off > rb_off b \<and> off \<le> m then min (rb_pos b) (rb_start b + (off - rb_off b)) else rb_start b)"

text \<open>The loop over the indices of the buffers, which are counted before the loop.\<close>

fun retransmit_for :: "nat \<Rightarrow> nat \<Rightarrow> nat list \<Rightarrow> 'i send_buf \<Rightarrow> 'i send_buf result" where
  "retransmit_for off max_off [] s = Inr s"
| "retransmit_for off max_off (i # is) s =
     (if \<not> i < length (sd_data s) then panic
      else
        let buf = sd_data s ! i in
        if rb_off buf \<ge> max_off then Inr s
        else
          try_bind (RangeBuf_max_off buf) (\<lambda>m.
            if off > m then retransmit_for off max_off is s
            else
              try_bind (if rb_off buf < max_off \<and> max_off < m
                        then try_bind (RangeBuf_split_off (max_off - rb_off buf) buf) (\<lambda>(lo, hi).
                               Inr (lo, [hi]))
                        else Inr (buf, [])) (\<lambda>(buf, new_buf).
              try_bind (RangeBuf_max_off buf) (\<lambda>m.
              try_bind (checked_sub (rb_pos buf) (rewind off m buf)) (\<lambda>d.
              try_bind (checked_add (sd_len s) d) (\<lambda>l.
                retransmit_for off max_off is
                  (s\<lparr>sd_data := take i (sd_data s) @ buf\<lparr>rb_pos := rewind off m buf\<rparr> # new_buf @
                       drop (i + 1) (sd_data s),
                     sd_pos := min (sd_pos s) i, sd_len := l\<rparr>)))))))"

definition SendBuf_retransmit :: "nat \<Rightarrow> nat \<Rightarrow> 'i send_buf \<Rightarrow> 'i send_buf result" where
  "SendBuf_retransmit off len s =
     try_bind (checked_add off len) (\<lambda>max_off.
       if sd_data s = [] then Inr s
       else if max_off \<le> ack_off s then Inr s
       else retransmit_for off max_off [0 ..< length (sd_data s)] s)"

section \<open>Ending\<close>

definition SendBuf_reset :: "'i send_buf \<Rightarrow> ('i send_buf \<times> nat \<times> nat) result" where
  "SendBuf_reset s =
     try_bind (off_front s) (\<lambda>front.
       let unsent_off = max front (sd_emit_off s);
           unsent_len = sd_off s - unsent_off in
       try_bind (SendBuf_ack 0 unsent_off
           (s\<lparr>sd_fin_off := Some unsent_off, sd_data := [], sd_off := unsent_off\<rparr>)) (\<lambda>s.
         Inr (s\<lparr>sd_pos := 0, sd_len := 0\<rparr>, sd_emit_off s, unsent_len)))"

definition SendBuf_stop :: "nat \<Rightarrow> 'i send_buf \<Rightarrow> ('i send_buf \<times> nat \<times> nat) result" where
  "SendBuf_stop error_code s =
     (if sd_error s \<noteq> None then err Done
      else try_bind (SendBuf_reset s) (\<lambda>(s, r). Inr (s\<lparr>sd_error := Some error_code\<rparr>, r)))"

definition SendBuf_shutdown :: "'i send_buf \<Rightarrow> ('i send_buf \<times> nat \<times> nat) result" where
  "SendBuf_shutdown s =
     (if sd_shutdown s then err Done else SendBuf_reset (s\<lparr>sd_shutdown := True\<rparr>))"

definition SendBuf_is_fin :: "'i send_buf \<Rightarrow> bool" where
  "SendBuf_is_fin s \<longleftrightarrow> sd_fin_off s = Some (sd_off s)"

text \<open>\<open>self.acked == acked\<close> compares the derived representations.\<close>

definition acks_complete :: "'i send_buf \<Rightarrow> bool result" where
  "acks_complete s =
     (if (case sd_fin_off s of Some fin_off \<Rightarrow> RangeSet_eq_range (sd_acked s) (0, fin_off) | None \<Rightarrow> False)
      then Inr True
      else
        (case sd_fc_max_offset s of
           Some fc_fin_off \<Rightarrow>
             try_bind (RangeSet_insert (0, fc_fin_off) (sd_acked s)) (\<lambda>acked. Inr (sd_acked s = acked))
         | None \<Rightarrow> Inr False))"

definition inner_is_complete :: "inner_send \<Rightarrow> bool result" where
  "inner_is_complete = acks_complete"

definition SendBuf_is_complete :: "stream_send \<Rightarrow> bool result" where
  "SendBuf_is_complete s =
     try_bind
       (case sd_fc s of
          Some f \<Rightarrow>
            (case fs_send_buf f of
               Some i \<Rightarrow> try_bind (inner_is_complete i) (\<lambda>c. Inr (c \<or> sd_data i = []))
             | None \<Rightarrow> Inr True)
        | None \<Rightarrow> Inr True)
       (\<lambda>fc_rotation_is_complete.
          try_bind (acks_complete s) (\<lambda>c. Inr (c \<and> fc_rotation_is_complete)))"

section \<open>Other operations\<close>

definition SendBuf_update_max_data :: "nat \<Rightarrow> 'i send_buf \<Rightarrow> 'i send_buf" where
  "SendBuf_update_max_data maxd s = s\<lparr>sd_max_data := max (sd_max_data s) maxd\<rparr>"

definition SendBuf_update_blocked_at :: "nat option \<Rightarrow> 'i send_buf \<Rightarrow> 'i send_buf" where
  "SendBuf_update_blocked_at b s = s\<lparr>sd_blocked_at := b\<rparr>"

definition SendBuf_reset_at :: "nat \<Rightarrow> 'i send_buf \<Rightarrow> 'i send_buf result" where
  "SendBuf_reset_at off s =
     try_bind (checked_sub off (sd_off s)) (\<lambda>len.
     try_bind (SendBuf_ack (sd_off s) len s) (\<lambda>s.
       Inr (s\<lparr>sd_off := off, sd_emit_off := off\<rparr>)))"

text \<open>\<open>iw\<close> is \<open>write_at_offset\<close> of the inner buffer.\<close>

definition SendBuf_write_at_offset ::
  "(8 word list \<Rightarrow> nat \<Rightarrow> bool \<Rightarrow> 'i \<Rightarrow> ('i \<times> nat) result) \<Rightarrow> 8 word list \<Rightarrow> nat \<Rightarrow> bool \<Rightarrow>
   'i send_buf \<Rightarrow> ('i send_buf \<times> nat) result" where
  "SendBuf_write_at_offset iw data offset fin s =
     (if sd_off s > offset then
        (case sd_fc s of
           Some f \<Rightarrow>
             (case fs_send_buf f of
                Some i \<Rightarrow> try_bind (iw data offset fin i) (\<lambda>(i, n).
                  Inr (s\<lparr>sd_fc := Some (f\<lparr>fs_send_buf := Some i\<rparr>)\<rparr>, n))
              | None \<Rightarrow> err (Flexicast FcStreamRotation))
         | None \<Rightarrow> err FinalSize)
      else
        try_bind (if sd_off s \<noteq> offset then SendBuf_reset_at offset s else Inr s) (\<lambda>s.
        try_bind (SendBuf_write data fin s) (\<lambda>(s, written).
        try_bind (SendBuf_retransmit offset written s) (\<lambda>s. Inr (s, written)))))"

definition inner_write_at_offset ::
  "8 word list \<Rightarrow> nat \<Rightarrow> bool \<Rightarrow> inner_send \<Rightarrow> (inner_send \<times> nat) result" where
  "inner_write_at_offset = SendBuf_write_at_offset (\<lambda>_ _ _ _. panic)"

definition stream_write_at_offset ::
  "8 word list \<Rightarrow> nat \<Rightarrow> bool \<Rightarrow> stream_send \<Rightarrow> (stream_send \<times> nat) result" where
  "stream_write_at_offset = SendBuf_write_at_offset inner_write_at_offset"

definition fc_set_close_offset :: "'i send_buf \<Rightarrow> 'i send_buf" where
  "fc_set_close_offset s = s\<lparr>sd_fc_max_offset := Some (sd_off s)\<rparr>"

definition send_fc_set_fin_off :: "nat \<Rightarrow> 'i send_buf \<Rightarrow> 'i send_buf" where
  "send_fc_set_fin_off off s = s\<lparr>sd_fin_off := Some off\<rparr>"

definition fc_off_front :: "stream_send \<Rightarrow> nat result" where
  "fc_off_front s =
     off_front_while (drop (sd_pos s) (sd_data s))
       (case sd_fc s of
          Some f \<Rightarrow> (case fs_send_buf f of Some i \<Rightarrow> off_front i | None \<Rightarrow> Inr (sd_off s))
        | None \<Rightarrow> Inr (sd_off s))"

text \<open>\<open>Stream\<close> of \<open>stream/flexicast.rs\<close>: marking a stream for rotation and starting it again.\<close>

definition fc_mark_rotate :: "bool \<Rightarrow> stream_send \<Rightarrow> stream_send" where
  "fc_mark_rotate v s = s\<lparr>sd_fc_stream_rotate := v\<rparr>"

definition fc_mark_rotate_retransmission :: "stream_send \<Rightarrow> stream_send" where
  "fc_mark_rotate_retransmission s =
     (if sd_fc s = None then s\<lparr>sd_fc := Some (FcSendBuf_new (sd_max_data s))\<rparr> else s)"

end
