(* ===== verification/Send_Correct.thy ===== *)
theory Send_Correct
  imports Send_Buf Recv_Reassembly
begin

text \<open>
  Correctness of the send side of a stream, \<open>Send_Buf\<close>, for a stream without flexicast
  extension: what is emitted are the bytes of the stream at their offsets, only acknowledged data
  is dropped, and no byte is ever forgotten: it is acknowledged, in flight or waiting to be sent.
\<close>

section \<open>Buffers of the sender\<close>

text \<open>The whole buffer, read or not, holds the bytes of the stream.\<close>

definition full :: "(nat \<Rightarrow> 8 word) \<Rightarrow> range_buf \<Rightarrow> bool" where
  "full S b \<longleftrightarrow> rb_wf b \<and>
     drop (rb_start b) (take (rb_start b + rb_len b) (rb_data b)) = map S [rb_off b ..< rb_off b + rb_len b]"

lemma full_wf: "full S b \<Longrightarrow> rb_wf b"
  by (simp add: full_def)

lemma full_max: "full S b \<Longrightarrow> rb_max b = rb_off b + rb_len b"
  using rb_first_bound [of b] by (simp add: full_def rb_max_def)

lemma full_agrees:
  assumes "full S b"
  shows "agrees S b"
proof -
  have wf: "rb_start b \<le> rb_pos b" using assms by (simp add: full_def rb_wf_def)
  then have "rb_bytes b = drop (rb_pos b - rb_start b) (drop (rb_start b) (take (rb_start b + rb_len b) (rb_data b)))"
    by (simp add: rb_bytes_def)
  also have "\<dots> = map S [rb_first b ..< rb_off b + rb_len b]"
    using assms by (simp add: full_def drop_map rb_first_def)
  finally show ?thesis by (simp add: agrees_def full_max [OF assms])
qed

lemma full_from:
  "d = map S [off ..< off + length d] \<Longrightarrow> off + length d < u64_size \<Longrightarrow> full S (RangeBuf_from d off fin)"
  by (simp add: full_def RangeBuf_from_def rb_wf_def)

lemma full_pos:
  assumes "full S b" "rb_start b \<le> p" "p \<le> rb_start b + rb_len b"
  shows "full S (b\<lparr>rb_pos := p\<rparr>)" "rb_max (b\<lparr>rb_pos := p\<rparr>) = rb_max b"
    "rb_first (b\<lparr>rb_pos := p\<rparr>) = rb_off b + (p - rb_start b)" "rb_off (b\<lparr>rb_pos := p\<rparr>) = rb_off b"
proof -
  show f: "full S (b\<lparr>rb_pos := p\<rparr>)" using assms by (auto simp: full_def rb_wf_def)
  show "rb_max (b\<lparr>rb_pos := p\<rparr>) = rb_max b" using full_max [OF f] full_max [OF assms(1)] by simp
qed (auto simp: rb_first_def)

lemma full_split:
  assumes "full S b" "at \<le> rb_len b"
  obtains lo hi where "RangeBuf_split_off at b = Inr (lo, hi)" "full S lo" "full S hi"
    "rb_off lo = rb_off b" "rb_max lo = rb_off b + at" "rb_off hi = rb_off b + at" "rb_max hi = rb_max b"
    "rb_span lo \<union> rb_span hi = rb_span b" "length (rb_bytes lo) + length (rb_bytes hi) = length (rb_bytes b)"
proof -
  let ?lo = "b\<lparr>rb_pos := min (rb_pos b) (rb_start b + at), rb_len := at, rb_fin := False\<rparr>"
  let ?hi = "\<lparr>rb_data = rb_data b, rb_start = rb_start b + at,
    rb_pos = max (rb_pos b) (rb_start b + at), rb_len = rb_len b - at,
    rb_off = rb_off b + at, rb_fin = rb_fin b\<rparr>"
  have wf: "rb_wf b" using assms(1) by (rule full_wf)
  let ?all = "drop (rb_start b) (take (rb_start b + rb_len b) (rb_data b))"
  have all: "?all = map S [rb_off b ..< rb_off b + rb_len b]" using assms(1) by (simp add: full_def)
  have "drop (rb_start b) (take (rb_start b + at) (rb_data b)) = take at ?all"
    using assms(2) by (simp add: take_drop min_def add.commute)
  also have "\<dots> = map S [rb_off b ..< rb_off b + at]"
    unfolding all using assms(2) by (simp add: take_map take_upt)
  finally have lo: "full S ?lo" using wf assms(2) by (auto simp: full_def rb_wf_def)
  have "drop (rb_start b + at) (take (rb_start b + rb_len b) (rb_data b)) = drop at ?all"
    by (simp add: add.commute)
  also have "\<dots> = map S [rb_off b + at ..< rb_off b + rb_len b]"
    unfolding all by (simp add: drop_map)
  finally have hi: "full S ?hi" using wf assms(2) by (auto simp: full_def rb_wf_def)
  have max: "rb_max ?lo = rb_off b + at" "rb_max ?hi = rb_max b"
    using full_max [OF lo] full_max [OF hi] full_max [OF assms(1)] assms(2) by auto
  have first: "rb_first ?lo = min (rb_first b) (rb_off b + at)" "rb_first ?hi = max (rb_first b) (rb_off b + at)"
    using wf by (auto simp: rb_first_def rb_wf_def)
  have bm: "rb_max b = rb_off b + rb_len b" by (rule full_max [OF assms(1)])
  have "rb_span ?lo \<union> rb_span ?hi = rb_span b"
    unfolding rb_span_def first max using rb_first_le_max [of b] assms(2) bm by auto
  moreover have "length (rb_bytes ?lo) = rb_max ?lo - rb_first ?lo"
    "length (rb_bytes ?hi) = rb_max ?hi - rb_first ?hi" "length (rb_bytes b) = rb_max b - rb_first b"
    by (simp_all add: rb_max_def)
  then have "length (rb_bytes ?lo) + length (rb_bytes ?hi) = length (rb_bytes b)"
    unfolding first max using rb_first_le_max [of b] assms(2) bm by (auto simp: min_def max_def)
  moreover have "RangeBuf_split_off at b = Inr (?lo, ?hi)" using assms(2) by (simp add: RangeBuf_split_off_def)
  ultimately show ?thesis using that lo hi max by simp
qed

section \<open>The queue\<close>

fun chain :: "(nat \<Rightarrow> 8 word) \<Rightarrow> nat \<Rightarrow> range_buf list \<Rightarrow> nat \<Rightarrow> bool" where
  "chain S a [] z \<longleftrightarrow> a = z"
| "chain S a (b # bs) z \<longleftrightarrow> full S b \<and> rb_off b = a \<and> chain S (rb_max b) bs z"

definition unsent :: "range_buf list \<Rightarrow> nat set" where
  "unsent bs = (\<Union>b \<in> set bs. rb_span b)"

definition pending_len :: "range_buf list \<Rightarrow> nat" where
  "pending_len bs = sum_list (map (\<lambda>b. length (rb_bytes b)) bs)"

lemma unsent_simps [simp]:
  "unsent [] = {}" "unsent (b # bs) = rb_span b \<union> unsent bs" "unsent (xs @ ys) = unsent xs \<union> unsent ys"
  by (auto simp: unsent_def)

lemma pending_len_simps [simp]:
  "pending_len [] = 0" "pending_len (b # bs) = length (rb_bytes b) + pending_len bs"
  "pending_len (xs @ ys) = pending_len xs + pending_len ys"
  by (simp_all add: pending_len_def)

lemma chain_append:
  "chain S a (xs @ ys) z \<longleftrightarrow> (\<exists>m. chain S a xs m \<and> chain S m ys z)"
  by (induction xs arbitrary: a) auto

lemma chain_le: "chain S a bs z \<Longrightarrow> a \<le> z"
proof (induction bs arbitrary: a)
  case (Cons b bs)
  then have "rb_off b = a" "rb_max b \<le> z" "rb_max b = rb_off b + rb_len b" by (auto simp: full_max)
  then show ?case by simp
qed simp

lemma full_span: "full S b \<Longrightarrow> rb_span b \<subseteq> {rb_off b ..< rb_max b}"
  by (auto simp: rb_span_def rb_first_def)

lemma chain_span: "chain S a bs z \<Longrightarrow> unsent bs \<subseteq> {a ..< z}"
proof (induction bs arbitrary: a)
  case (Cons b bs)
  then have "full S b" "rb_off b = a" "chain S (rb_max b) bs z" by auto
  moreover have "a \<le> rb_max b" using calculation by (simp add: full_max)
  moreover have "rb_max b \<le> z" using calculation chain_le by blast
  ultimately show ?case using Cons.IH [of "rb_max b"] full_span [of S b] by fastforce
qed simp

lemma chain_full: "chain S a bs z \<Longrightarrow> \<forall>b \<in> set bs. full S b"
  by (induction bs arbitrary: a) auto

text \<open>The state of a sender: the buffers cover the stream from \<open>a\<close> to its current end, and those
  before the current index are sent.\<close>

definition send_ok :: "(nat \<Rightarrow> 8 word) \<Rightarrow> nat \<Rightarrow> 'i send_buf \<Rightarrow> bool" where
  "send_ok S a s \<longleftrightarrow> chain S a (sd_data s) (sd_off s) \<and> sd_pos s \<le> length (sd_data s) \<and>
     (\<forall>b \<in> set (take (sd_pos s) (sd_data s)). rb_first b = rb_max b) \<and>
     pending_len (sd_data s) \<le> sd_len s \<and> sd_off s < u64_size"

lemma send_ok_split:
  assumes "send_ok S a s"
  obtains xs ys m where "sd_data s = xs @ ys" "length xs = sd_pos s" "chain S a xs m"
    "chain S m ys (sd_off s)" "unsent xs = {}" "unsent (sd_data s) = unsent ys"
proof -
  let ?xs = "take (sd_pos s) (sd_data s)" and ?ys = "drop (sd_pos s) (sd_data s)"
  have sp: "sd_data s = ?xs @ ?ys" by simp
  obtain m where "chain S a ?xs m" "chain S m ?ys (sd_off s)"
    using assms chain_append [of S a ?xs ?ys "sd_off s"] by (auto simp: send_ok_def)
  moreover have "length ?xs = sd_pos s" using assms by (simp add: send_ok_def)
  moreover have "unsent ?xs = {}" using assms by (auto simp: send_ok_def unsent_def rb_span_def)
  moreover from this have "unsent (sd_data s) = unsent ?ys" using unsent_simps(3) [of ?xs ?ys] by simp
  ultimately show ?thesis using that [OF sp] by blast
qed

text \<open>The front is the smallest position that is not sent, or the end.\<close>

lemma off_front_chain:
  assumes "chain S m ys z"
  shows "\<exists>f. off_front_while ys (Inr z) = Inr f \<and> m \<le> f \<and> f \<le> z \<and> unsent ys \<subseteq> {f ..} \<and>
    (f < z \<longrightarrow> f \<in> unsent ys) \<and> (unsent ys = {} \<longrightarrow> f = z)"
  using assms
proof (induction ys arbitrary: m)
  case (Cons b bs)
  then have b: "full S b" "rb_off b = m" "chain S (rb_max b) bs z" by auto
  have wf: "rb_wf b" by (rule full_wf [OF b(1)])
  have le: "m \<le> rb_first b" using b(2) by (simp add: rb_first_def)
  have z: "rb_max b \<le> z" by (rule chain_le [OF b(3)])
  show ?case
  proof (cases "rb_first b = rb_max b")
    case True
    then have "rb_span b = {}" by (simp add: rb_span_def)
    with True Cons.IH [OF b(3)] le show ?thesis
      by (auto simp: is_empty_rb_max [OF wf] intro: order_trans)
  next
    case False
    then have lt: "rb_first b < rb_max b" using rb_first_le_max [of b] by linarith
    then have "rb_first b \<in> rb_span b" by (simp add: rb_span_def)
    moreover have "unsent bs \<subseteq> {rb_first b ..}" using chain_span [OF b(3)] lt by fastforce
    moreover have "rb_span b \<subseteq> {rb_first b ..}" by (auto simp: rb_span_def)
    ultimately show ?thesis
      using False le lt z by (auto simp: is_empty_rb_max [OF wf] RangeBuf_off_eq [OF wf])
  qed
qed simp

lemma off_front_ok:
  assumes "send_ok S a s"
  shows "\<exists>f. off_front s = Inr f \<and> a \<le> f \<and> f \<le> sd_off s \<and> unsent (sd_data s) \<subseteq> {f ..} \<and>
    (f < sd_off s \<longrightarrow> f \<in> unsent (sd_data s)) \<and> (unsent (sd_data s) = {} \<longrightarrow> f = sd_off s)"
proof -
  obtain xs ys m where d: "sd_data s = xs @ ys" "length xs = sd_pos s" "chain S a xs m"
    "chain S m ys (sd_off s)" "unsent (sd_data s) = unsent ys"
    using assms by (rule send_ok_split) blast
  have "off_front s = off_front_while ys (Inr (sd_off s))" using d(1,2) by (simp add: off_front_def)
  with off_front_chain [OF d(4)] chain_le [OF d(3)] d(5) show ?thesis by (metis order_trans)
qed

section \<open>Emitting\<close>

text \<open>Only the buffers, the index and the count of buffered bytes change.\<close>

definition send_frame :: "'i send_buf \<Rightarrow> 'i send_buf \<Rightarrow> bool" where
  "send_frame s s' \<longleftrightarrow> s' = s\<lparr>sd_data := sd_data s', sd_pos := sd_pos s', sd_len := sd_len s'\<rparr>"

lemma send_frame_refl [simp]: "send_frame s s"
  by (simp add: send_frame_def)

lemma send_frame_upd [simp]:
  "send_frame s (s\<lparr>sd_pos := p\<rparr>)" "send_frame s (s\<lparr>sd_data := d\<rparr>)"
  "send_frame s (s\<lparr>sd_data := d, sd_pos := p\<rparr>)"
  "send_frame s (s\<lparr>sd_len := l, sd_data := d\<rparr>)"
  "send_frame s (s\<lparr>sd_data := d, sd_pos := p, sd_len := l\<rparr>)"
  by (simp_all add: send_frame_def)

lemma send_frame_sel:
  assumes "send_frame s s'"
  shows "sd_off s' = sd_off s" "sd_emit_off s' = sd_emit_off s" "sd_max_data s' = sd_max_data s"
    "sd_fin_off s' = sd_fin_off s" "sd_acked s' = sd_acked s" "sd_error s' = sd_error s"
    "sd_fc s' = sd_fc s" "sd_fc_max_offset s' = sd_fc_max_offset s"
    "sd_fc_stream_rotate s' = sd_fc_stream_rotate s" "sd_shutdown s' = sd_shutdown s"
    "sd_blocked_at s' = sd_blocked_at s"
  using assms unfolding send_frame_def
  by (metis send_buf.select_convs send_buf.surjective send_buf.update_convs(1,2,5))+

lemma send_frame_trans: "send_frame s s1 \<Longrightarrow> send_frame s1 s2 \<Longrightarrow> send_frame s s2"
  by (rule send_buf.equality [THEN iffD2 [OF send_frame_def]]) (simp_all add: send_frame_sel)

text \<open>What the loop does: it sends \<open>n\<close> consecutive bytes from the front.\<close>

definition sends ::
  "(nat \<Rightarrow> 8 word) \<Rightarrow> nat \<Rightarrow> nat \<Rightarrow> nat \<Rightarrow> 'i send_buf \<Rightarrow> 'i send_buf \<Rightarrow> bool" where
  "sends S a next_off n s s' \<longleftrightarrow> send_ok S a s' \<and>
     send_frame s s' \<and>
     {next_off ..< next_off + n} \<subseteq> unsent (sd_data s) \<and>
     unsent (sd_data s') = unsent (sd_data s) - {next_off ..< next_off + n}"

lemma sends_0: "send_ok S a s \<Longrightarrow> sends S a next_off 0 s s"
  by (simp add: sends_def)

lemma sends_trans:
  assumes "sends S a o' n s s1" "sends S a (o' + n) m s1 s2"
  shows "sends S a o' (n + m) s s2"
proof -
  have "{o' ..< o' + (n + m)} = {o' ..< o' + n} \<union> {o' + n ..< o' + n + m}" by auto
  with assms show ?thesis unfolding sends_def by (auto intro: send_frame_trans)
qed

text \<open>An empty buffer is skipped.\<close>

lemma send_skip:
  assumes ok: "send_ok S a s" and p: "sd_pos s < length (sd_data s)"
    and e: "rb_first (sd_data s ! sd_pos s) = rb_max (sd_data s ! sd_pos s)"
  shows "sends S a next_off 0 s (s\<lparr>sd_pos := sd_pos s + 1\<rparr>)"
proof -
  have "take (sd_pos s + 1) (sd_data s) = take (sd_pos s) (sd_data s) @ [sd_data s ! sd_pos s]"
    using p by (simp add: take_Suc_conv_app_nth)
  then have "send_ok S a (s\<lparr>sd_pos := sd_pos s + 1\<rparr>)" using ok p e by (auto simp: send_ok_def)
  then show ?thesis by (simp add: sends_def)
qed

text \<open>Part of a buffer is sent, or all of it.\<close>

lemma send_part:
  assumes ok: "send_ok S a s" and p: "sd_pos s < length (sd_data s)" and b: "b = sd_data s ! sd_pos s"
    and n: "n \<le> length (rb_bytes b)"
  obtains b' where "RangeBuf_consume n b = Inr b'" "rb_first b' = rb_first b + n" "rb_max b' = rb_max b"
    "sends S a (rb_first b) n s (s\<lparr>sd_len := sd_len s - n, sd_data := (sd_data s)[sd_pos s := b']\<rparr>)"
    "n \<le> sd_len s"
proof -
  obtain xs ys m where d: "sd_data s = xs @ ys" "length xs = sd_pos s" "chain S a xs m"
    "chain S m ys (sd_off s)" "unsent (sd_data s) = unsent ys" "unsent xs = {}"
    using ok by (rule send_ok_split) blast
  obtain zs where ys: "ys = b # zs"
    using p d(1,2) b by (metis append_Nil2 less_irrefl list.exhaust nth_append_length)
  have fb: "full S b" "rb_off b = m" and zs: "chain S (rb_max b) zs (sd_off s)" using d(4) ys by auto
  obtain b' where b': "RangeBuf_consume n b = Inr b'" "b' = b\<lparr>rb_pos := rb_pos b + n\<rparr>"
    using RangeBuf_consume_eq [OF full_wf [OF fb(1)] n] that
    by (auto simp: RangeBuf_consume_def checked_add_eq_Inr)
  have pos: "rb_start b \<le> rb_pos b + n" "rb_pos b + n \<le> rb_start b + rb_len b"
    using full_wf [OF fb(1)] n by (auto simp: rb_wf_def length_rb_bytes [OF full_wf [OF fb(1)]])
  note fp = full_pos [OF fb(1) pos, folded b'(2)]
  have first: "rb_first b' = rb_first b + n"
    using fp(3) full_wf [OF fb(1)] by (auto simp: rb_first_def rb_wf_def)
  have lens: "length (rb_bytes b') + n = length (rb_bytes b)"
    using fp(2) first n by (simp add: rb_max_def)
  have upd: "(sd_data s)[sd_pos s := b'] = xs @ b' # zs"
    using d(1,2) ys by (metis list_update_length)
  have pl: "n \<le> sd_len s" "pending_len (xs @ b' # zs) \<le> sd_len s - n"
    using ok lens by (auto simp: send_ok_def d(1) ys)
  have "chain S a (xs @ b' # zs) (sd_off s)"
    using d(3) zs fp fb(2) by (auto simp: chain_append)
  then have "send_ok S a (s\<lparr>sd_len := sd_len s - n, sd_data := xs @ b' # zs\<rparr>)"
    using ok pl(2) d(2) by (simp add: send_ok_def d(1))
  moreover have "unsent (xs @ b' # zs) = unsent (sd_data s) - {rb_first b ..< rb_first b + n}"
  proof -
    have "unsent zs \<inter> {rb_first b ..< rb_first b + n} = {}"
      using chain_span [OF zs] n by (fastforce simp: rb_max_def)
    moreover have "rb_span b' = rb_span b - {rb_first b ..< rb_first b + n}"
      using first fp(2) n by (auto simp: rb_span_def)
    ultimately show ?thesis using d(5,6) ys by auto
  qed
  moreover have "{rb_first b ..< rb_first b + n} \<subseteq> unsent (sd_data s)"
    using n d(5) ys by (auto simp: rb_span_def rb_max_def)
  ultimately show ?thesis
    using that [OF b'(1) first fp(2) _ pl(1)] unfolding upd
    by (simp add: sends_def)
qed

text \<open>The bytes written into the output buffer.\<close>

lemma copy_at_spec:
  assumes "pos + length bytes \<le> length out"
  shows "copy_at pos bytes out = Inr (take pos out @ bytes @ drop (pos + length bytes) out)"
    "length (take pos out @ bytes @ drop (pos + length bytes) out) = length out"
    "take (pos + length bytes) (take pos out @ bytes @ drop (pos + length bytes) out) = take pos out @ bytes"
  using assms by (auto simp: copy_at_def)

lemma send_while_stop:
  "sends S a next_off 0 s s \<Longrightarrow> out_pos \<le> length out \<Longrightarrow>
     \<exists>n out' s'. Inr (out, out_len, next_off, s) = Inr (out', out_len - n, next_off + n, s') \<and>
       n \<le> out_len \<and> sends S a next_off n s s' \<and> length out' = length out \<and>
       take (out_pos + n) out' = take out_pos out @ map S [next_off ..< next_off + n]"
  by (intro exI [of _ 0] exI [of _ out] exI [of _ s]) simp

lemma send_while_spec:
  assumes "send_ok S a s" "next_off - out_off + out_len = length out" "out_off \<le> next_off"
  shows "\<exists>n out' s'. send_while out_off out out_len next_off s = Inr (out', out_len - n, next_off + n, s') \<and>
    n \<le> out_len \<and> sends S a next_off n s s' \<and> length out' = length out \<and>
    take (next_off - out_off + n) out' = take (next_off - out_off) out @ map S [next_off ..< next_off + n] \<and>
    (0 < out_len \<and> off_front s = Inr next_off \<and> next_off < sd_off s \<and> next_off < sd_max_data s \<longrightarrow> 0 < n)"
  using assms
proof (induction out_off out out_len next_off s rule: send_while.induct)
  case (1 out_off out out_len next_off s)
  note ok = "1.prems"(1) and room = "1.prems"(2) and le = "1.prems"(3)
  have stop: "\<exists>n out' s'. Inr (out, out_len, next_off, s) = Inr (out', out_len - n, next_off + n, s') \<and>
    n \<le> out_len \<and> sends S a next_off n s s' \<and> length out' = length out \<and>
    take (next_off - out_off + n) out' = take (next_off - out_off) out @ map S [next_off ..< next_off + n]"
    using send_while_stop [OF sends_0 [OF ok], of "next_off - out_off" out out_len next_off] room by simp
  obtain f where f: "off_front s = Inr f" using off_front_ok [OF ok] by blast
  note run = send_while.simps [of out_off out out_len next_off s] f try_bind_Inr
  show ?case
  proof (cases "out_len > 0 \<and> \<not> (sd_data s = [] \<or> f \<ge> sd_off s \<or> f \<noteq> next_off \<or> f \<ge> sd_max_data s) \<and>
      sd_pos s < length (sd_data s)")
    case False
    have "\<not> (0 < out_len \<and> off_front s = Inr next_off \<and> next_off < sd_off s \<and> next_off < sd_max_data s)"
    proof
      assume a: "0 < out_len \<and> off_front s = Inr next_off \<and> next_off < sd_off s \<and> next_off < sd_max_data s"
      with off_front_ok [OF ok] f have "next_off \<in> unsent (sd_data s)" by auto
      moreover have "unsent (sd_data s) = {}" if "\<not> sd_pos s < length (sd_data s)"
        using ok that by (auto simp: send_ok_def unsent_def rb_span_def)
      ultimately show False using False a f by auto
    qed
    with stop False show ?thesis by (auto simp: run)
  next
    case go: True
    define b where "b = sd_data s ! sd_pos s"
    obtain xs ys m where d: "sd_data s = xs @ ys" "length xs = sd_pos s" "chain S m ys (sd_off s)"
      using ok by (rule send_ok_split) blast
    then have fb: "full S b" and ys: "\<exists>zs. ys = b # zs"
      using go chain_full [OF d(3)] unfolding b_def
      by (metis append_Nil2 less_irrefl list.exhaust list.set_intros(1) nth_append_length)+
    note reads = is_empty_rb_max [OF full_wf [OF fb]] RangeBuf_deref_eq [OF full_wf [OF fb]]
      RangeBuf_off_eq [OF full_wf [OF fb]]
    show ?thesis
    proof (cases "rb_first b = rb_max b")
      case True
      let ?s = "s\<lparr>sd_pos := sd_pos s + 1\<rparr>"
      have sk: "sends S a next_off 0 s ?s" using send_skip [OF ok] go True by (simp add: b_def)
      have emp: "RangeBuf_is_empty b = Inr True" using True reads by simp
      obtain n out' s' where IH: "send_while out_off out out_len next_off ?s = Inr (out', out_len - n, next_off + n, s')"
          "n \<le> out_len" "sends S a next_off n ?s s'" "length out' = length out"
          "take (next_off - out_off + n) out' = take (next_off - out_off) out @ map S [next_off ..< next_off + n]"
          "0 < out_len \<and> off_front ?s = Inr next_off \<and> next_off < sd_off ?s \<and> next_off < sd_max_data ?s \<longrightarrow> 0 < n"
        using "1.IH"(1) [of f b True] f go emp room le sk by (auto simp: b_def sends_def)
      moreover have "off_front ?s = off_front s"
        using ys d emp by (auto simp: off_front_def)
      moreover have "sends S a next_off n s s'" using sends_trans [OF sk] IH(3) by simp
      moreover have "send_while out_off out out_len next_off s = send_while out_off out out_len next_off ?s"
        using go emp by (simp add: run b_def [symmetric] Let_def)
      ultimately show ?thesis by auto
    next
      case False
      have nf: "rb_first b = next_off"
        using ys d go f False reads by (auto simp: off_front_def)
      define n where "n = min (length (rb_bytes b)) out_len"
      have n: "n \<le> length (rb_bytes b)" "n \<le> out_len" by (simp_all add: n_def)
      obtain b' where b': "RangeBuf_consume n b = Inr b'" "rb_first b' = rb_first b + n" "rb_max b' = rb_max b"
          "sends S a (rb_first b) n s (s\<lparr>sd_len := sd_len s - n, sd_data := (sd_data s)[sd_pos s := b']\<rparr>)"
          "n \<le> sd_len s"
        using send_part [OF ok _ b_def n(1)] go by blast
      let ?s1 = "s\<lparr>sd_len := sd_len s - n, sd_data := (sd_data s)[sd_pos s := b']\<rparr>"
      let ?bytes = "take n (rb_bytes b)" and ?p = "next_off - out_off"
      have bytes: "?bytes = map S [next_off ..< next_off + n]" "length ?bytes = n"
        using take_agrees [OF full_agrees [OF fb] n(1)] nf n by auto
      let ?out = "take ?p out @ ?bytes @ drop (?p + n) out"
      have cp: "copy_at ?p ?bytes out = Inr ?out" "length ?out = length out"
          "take (?p + n) ?out = take ?p out @ ?bytes"
        using copy_at_spec [of ?p ?bytes out] room n bytes(2) by auto
      have lt: "next_off + n < u64_size"
        using rb_max_less [OF full_wf [OF fb]] nf n by (simp add: rb_max_def)
      have emp: "RangeBuf_is_empty b = Inr False" using False reads by simp
      have n0: "0 < n" using False go by (auto simp: n_def rb_max_def)
      show ?thesis
      proof (cases "n < length (rb_bytes b)")
        case True
        then have "send_while out_off out out_len next_off s = Inr (?out, out_len - n, next_off + n, ?s1)"
          using go emp cp(1) b'(1,5) lt le nf
          by (simp add: run b_def [symmetric] reads(2,3) n_def [symmetric] Let_def)
        with n b'(4) nf cp(2,3) bytes(1) n0 show ?thesis by (intro exI [of _ n] exI [of _ ?out] exI [of _ ?s1]) simp
      next
        case all: False
        then have nl: "n = length (rb_bytes b)" using n by simp
        let ?s2 = "?s1\<lparr>sd_pos := sd_pos s + 1\<rparr>"
        have ok1: "send_ok S a ?s1" using b'(4) by (simp add: sends_def)
        have "rb_first b' = rb_max b'" using b'(2,3) nl by (simp add: rb_max_def)
        then have "sends S a (next_off + n) 0 ?s1 (?s1\<lparr>sd_pos := sd_pos ?s1 + 1\<rparr>)"
          using go by (intro send_skip [OF ok1]) auto
        then have sk: "sends S a next_off n s ?s2"
          using sends_trans [of S a next_off n s ?s1 0 ?s2] b'(4) nf by simp
        have step: "send_while out_off out out_len next_off s = send_while out_off ?out (out_len - n) (next_off + n) ?s2"
          using go emp cp(1) b'(1,5) lt le nf all
          by (simp add: run b_def [symmetric] reads(2,3) n_def [symmetric] Let_def)
        have "\<exists>k out' s'. send_while out_off ?out (out_len - n) (next_off + n) ?s2 =
              Inr (out', out_len - n - k, next_off + n + k, s') \<and> k \<le> out_len - n \<and>
            sends S a (next_off + n) k ?s2 s' \<and> length out' = length ?out \<and>
            take (next_off + n - out_off + k) out' =
              take (next_off + n - out_off) ?out @ map S [next_off + n ..< next_off + n + k] \<and>
            (0 < out_len - n \<and> off_front ?s2 = Inr (next_off + n) \<and> next_off + n < sd_off ?s2 \<and>
              next_off + n < sd_max_data ?s2 \<longrightarrow> 0 < k)"
          using "1.IH"(2) [of f b False "rb_bytes b" n ?p ?out "sd_len s - n" next_off "next_off + n" b' ?s1]
            go f emp cp(1) b'(1,5) lt le nf all room n sk b_def n_def cp(2) reads(2,3)
          by (simp add: sends_def)
        then obtain k out' s' where IH: "send_while out_off ?out (out_len - n) (next_off + n) ?s2 =
              Inr (out', out_len - n - k, next_off + n + k, s')" "k \<le> out_len - n"
            "sends S a (next_off + n) k ?s2 s'" "length out' = length ?out"
            "take (next_off + n - out_off + k) out' =
              take (next_off + n - out_off) ?out @ map S [next_off + n ..< next_off + n + k]"
          by blast
        have "next_off + n - out_off = ?p + n" using le by simp
        then have "take (?p + (n + k)) out' = take ?p out @ map S [next_off ..< next_off + (n + k)]"
          using IH(5) cp(3) bytes(1) upt_add_eq_append [of next_off "next_off + n" k]
          by (simp add: add.assoc)
        with IH(1,2,4) step sends_trans [OF sk IH(3)] n n0 cp(2) show ?thesis
          by (intro exI [of _ "n + k"] exI [of _ out'] exI [of _ s']) (simp add: add.assoc)
      qed
    qed
  qed
qed

lemma emit_spec:
  assumes ok: "send_ok S a s" and fc: "sd_fc s = None"
  shows "\<exists>f n out' s'. off_front s = Inr f \<and>
    SendBuf_emit ie out s = Inr (s'\<lparr>sd_emit_off := max (sd_emit_off s) (f + n)\<rparr>, out', n, sd_fin_off s = Some (f + n)) \<and>
    n \<le> length out \<and> sends S a f n s s' \<and> length out' = length out \<and> take n out' = map S [f ..< f + n] \<and>
    (0 < length out \<and> f < sd_off s \<and> f < sd_max_data s \<longrightarrow> 0 < n)"
proof -
  obtain f where f: "off_front s = Inr f" using off_front_ok [OF ok] by blast
  obtain n out' s' where w: "send_while f out (length out) f s = Inr (out', length out - n, f + n, s')"
      "n \<le> length out" "sends S a f n s s'" "length out' = length out" "take n out' = map S [f ..< f + n]"
      "0 < length out \<and> off_front s = Inr f \<and> f < sd_off s \<and> f < sd_max_data s \<longrightarrow> 0 < n"
    using send_while_spec [OF ok, of f f "length out" out] by auto
  have fr: "sd_fin_off s' = sd_fin_off s" "sd_emit_off s' = sd_emit_off s" "sd_fc s' = None"
    using send_frame_sel [of s s'] w(3) fc by (auto simp: sends_def)
  have "SendBuf_emit ie out s =
      Inr (s'\<lparr>sd_emit_off := max (sd_emit_off s) (f + n)\<rparr>, out', n, sd_fin_off s = Some (f + n))"
    using w(1,2,4) fr by (simp add: SendBuf_emit_def f Let_def)
  with w f show ?thesis by blast
qed

section \<open>Writing\<close>

lemma concat_chunks: "0 < n \<Longrightarrow> concat (chunks n xs) = xs"
proof (induction n xs rule: chunks.induct)
  case (1 n xs)
  then show ?case by (subst chunks.simps) auto
qed

lemma write_chunks_spec:
  assumes "write_chunks dl fin cs len s = Inr (s', k)" "send_ok S a s"
    "concat cs = map S [sd_off s ..< sd_off s + length (concat cs)]"
  shows "k = len + length (concat cs) \<and> send_ok S a s' \<and> send_frame (s\<lparr>sd_off := sd_off s + length (concat cs)\<rparr>) s' \<and>
    sd_off s' = sd_off s + length (concat cs) \<and>
    unsent (sd_data s') = unsent (sd_data s) \<union> {sd_off s ..< sd_off s'}"
  using assms
proof (induction cs arbitrary: len s)
  case Nil
  then show ?case by (simp add: send_frame_def)
next
  case (Cons c cs)
  let ?n = "length c" and ?m = "length (concat cs)"
  have eq: "c @ concat cs = map S [sd_off s ..< sd_off s + ?n] @ map S [sd_off s + ?n ..< sd_off s + ?n + ?m]"
    using Cons.prems(3) upt_add_eq_append [of "sd_off s" "sd_off s + ?n" ?m] by (simp add: add.assoc)
  then have c: "c = map S [sd_off s ..< sd_off s + ?n]"
    and cs: "concat cs = map S [sd_off s + ?n ..< sd_off s + ?n + ?m]"
    by (simp_all add: append_eq_append_conv)
  define b where "b = RangeBuf_from c (sd_off s) (len + ?n = dl \<and> fin)"
  define s1 where "s1 = s\<lparr>sd_data := sd_data s @ [b], sd_off := sd_off s + ?n, sd_len := sd_len s + ?n\<rparr>"
  have lt: "sd_off s + ?n < u64_size" and w: "write_chunks dl fin cs (len + ?n) s1 = Inr (s', k)"
    using Cons.prems(1) by (auto simp: Let_def checked_add_eq_Inr s1_def b_def)
  have b: "full S b" "rb_off b = sd_off s" "rb_max b = sd_off s + ?n" "length (rb_bytes b) = ?n"
      "rb_span b = {sd_off s ..< sd_off s + ?n}"
    using full_from [OF c lt] by (simp_all add: b_def rb_max_def from_span) (simp add: RangeBuf_from_def)
  have ok: "send_ok S a s1"
    using Cons.prems(2) b lt by (auto simp: send_ok_def s1_def chain_append)
  have IH: "k = len + ?n + ?m" "send_ok S a s'" "send_frame (s1\<lparr>sd_off := sd_off s1 + ?m\<rparr>) s'"
      "sd_off s' = sd_off s1 + ?m" "unsent (sd_data s') = unsent (sd_data s1) \<union> {sd_off s1 ..< sd_off s'}"
    using Cons.IH [OF w ok] cs by (simp_all add: s1_def)
  have "send_frame (s\<lparr>sd_off := sd_off s + length (concat (c # cs))\<rparr>) (s1\<lparr>sd_off := sd_off s1 + ?m\<rparr>)"
    by (simp add: s1_def send_frame_def add.assoc)
  then have "send_frame (s\<lparr>sd_off := sd_off s + length (concat (c # cs))\<rparr>) s'" using IH(3) by (rule send_frame_trans)
  moreover have "sd_off s' = sd_off s + length (concat (c # cs))" using IH(4) by (simp add: s1_def)
  moreover from this have "{sd_off s ..< sd_off s'} = {sd_off s ..< sd_off s + ?n} \<union> {sd_off s + ?n ..< sd_off s'}"
    by auto
  moreover have "unsent (sd_data s') = unsent (sd_data s) \<union> ({sd_off s ..< sd_off s + ?n} \<union> {sd_off s + ?n ..< sd_off s'})"
    using IH(5) b(5) by (simp add: s1_def Un_assoc)
  ultimately show ?case using IH(1,2) by simp
qed

lemma write_spec:
  assumes w: "SendBuf_write data fin s = Inr (s', k)" and ok: "send_ok S a s"
    and data: "data = map S [sd_off s ..< sd_off s + length data]" and ack: "ack_off s \<le> sd_off s"
  shows "k = min (length data) (sd_max_data s - sd_off s) \<and> send_ok S a s' \<and> sd_off s' = sd_off s + k \<and>
    unsent (sd_data s') = unsent (sd_data s) \<union> {sd_off s ..< sd_off s'} \<and>
    sd_acked s' = sd_acked s \<and> sd_fc s' = sd_fc s \<and> sd_emit_off s' = sd_emit_off s \<and>
    sd_max_data s' = sd_max_data s \<and> sd_off s \<le> sd_max_data s \<and>
    sd_fc_stream_rotate s' = sd_fc_stream_rotate s \<and> sd_fc_max_offset s' = sd_fc_max_offset s \<and>
    sd_fin_off s' = (if fin \<and> k = length data then Some (sd_off s + length data) else sd_fin_off s)"
proof -
  let ?cap = "sd_max_data s - sd_off s"
  define fn where "fn = (fin \<and> length data \<le> ?cap)"
  define d where "d = take ?cap data"
  define s1 where "s1 = (if fn then s\<lparr>sd_fin_off := Some (sd_off s + length data)\<rparr> else s)"
  have cap: "sd_error s = None" "sd_off s \<le> sd_max_data s"
    using w by (auto simp: SendBuf_write_def send_cap_def checked_sub_eq_Inr split: option.splits)
  have run: "(if ack_off s1 \<ge> sd_off s + length data then Inr (s1, length d)
      else if d = [] then Inr (s1, length d)
      else write_chunks (length d) fn (chunks SEND_BUFFER_SIZE d) 0 s1) = Inr (s', k)"
    using w cap by (auto simp: SendBuf_write_def send_cap_def checked_add_eq_Inr fn_def d_def s1_def Let_def
        split: if_splits)
  have s1: "sd_off s1 = sd_off s" "sd_data s1 = sd_data s" "ack_off s1 = ack_off s" "sd_acked s1 = sd_acked s"
    "send_ok S a s1" "sd_fc s1 = sd_fc s" "sd_emit_off s1 = sd_emit_off s" "sd_max_data s1 = sd_max_data s"
    "sd_fc_stream_rotate s1 = sd_fc_stream_rotate s" "sd_fc_max_offset s1 = sd_fc_max_offset s"
    using ok by (auto simp: s1_def send_ok_def ack_off_def)
  have dl: "length d = min (length data) ?cap" by (simp add: d_def)
  have fin: "sd_fin_off s1 = (if fin \<and> length d = length data then Some (sd_off s + length data) else sd_fin_off s)"
    by (auto simp: s1_def fn_def dl)
  show ?thesis
  proof (cases "d = []")
    case True
    then have "s' = s1" "k = length d" using run by (auto split: if_splits)
    with True s1 fin cap(2) dl show ?thesis by auto
  next
    case False
    then have ne: "data \<noteq> []" by (auto simp: d_def)
    then have "0 < length data" by simp
    then have "\<not> ack_off s1 \<ge> sd_off s + length data" using ack s1(3) by linarith
    with run False have wc: "write_chunks (length d) fn (chunks SEND_BUFFER_SIZE d) 0 s1 = Inr (s', k)" by simp
    have cc: "concat (chunks SEND_BUFFER_SIZE d) = d" by (rule concat_chunks) simp
    have "d = map S [sd_off s ..< sd_off s + length d]"
    proof -
      have "take (length d) [sd_off s ..< sd_off s + length data] = [sd_off s ..< sd_off s + length d]"
        using dl by (intro take_upt) simp
      moreover have "d = take (length d) data" by (simp add: d_def min_def)
      ultimately show ?thesis by (metis data take_map)
    qed
    then have wr: "k = length d" "send_ok S a s'" "send_frame (s1\<lparr>sd_off := sd_off s1 + length d\<rparr>) s'"
        "sd_off s' = sd_off s1 + length d" "unsent (sd_data s') = unsent (sd_data s1) \<union> {sd_off s1 ..< sd_off s'}"
      using write_chunks_spec [OF wc s1(5)] unfolding cc s1(1) add_0 by blast+
    show ?thesis using send_frame_sel [OF wr(3)] wr(1,2,4,5) s1(1,2,4,6-10) fin cap(2) dl by simp
  qed
qed

section \<open>Acknowledgments\<close>

lemma acked_sound:
  assumes "rs_ok t" "a \<le> b" "RangeSet_insert (a, b) t = Inr t'"
  shows "rs_ok t' \<and> rs_covered t' \<subseteq> {a ..< b} \<union> rs_covered t"
proof -
  have pts: "{a ..< b} = {x. 2 * x + 1 \<in> rpoints (a, b)}" unfolding rpoints_odd by auto
  have "rs_covered t' \<subseteq> {a ..< b} \<union> rs_covered t"
    unfolding rs_covered_def covered_points pts using rs.ins_sound [OF assms] by blast
  with rs_ok_insert [OF assms] show ?thesis by simp
qed

lemma ack_off_covered: "{..< ack_off s} \<subseteq> rs_covered (sd_acked s)"
  by (auto simp: ack_off_def rs_covered_def covered_def split: list.splits nat.splits)

lemma drop_for_spec:
  assumes "chain S a bs z"
  shows "\<exists>n m. drop_for k bs c = Inr (c + n) \<and> chain S a (take n bs) m \<and> chain S m (drop n bs) z \<and>
    n \<le> length bs \<and> (m = a \<or> m \<le> k)"
  using assms
proof (induction bs arbitrary: a c)
  case Nil
  then show ?case by (intro exI [of _ 0] exI [of _ a]) simp
next
  case (Cons b bs)
  then have b: "full S b" "rb_off b = a" "chain S (rb_max b) bs z" by auto
  note m = max_off_rb_max [OF full_wf [OF b(1)]]
  show ?case
  proof (cases "a < k \<and> rb_max b \<le> k")
    case True
    obtain n m where "drop_for k bs (c + 1) = Inr (c + 1 + n)" "chain S (rb_max b) (take n bs) m"
        "chain S m (drop n bs) z" "n \<le> length bs" "m = rb_max b \<or> m \<le> k"
      using Cons.IH [OF b(3), of "c + 1"] by auto
    with True b m show ?thesis
      by (intro exI [of _ "Suc n"] exI [of _ m]) (auto simp del: RangeBuf_max_off_eq)
  next
    case False
    with b m Cons.prems show ?thesis
      by (intro exI [of _ 0] exI [of _ a]) (auto simp del: RangeBuf_max_off_eq)
  qed
qed

lemma drop_acked_spec:
  assumes ok: "send_ok S a s"
  obtains a' s' where "drop_acked s = Inr s'" "send_ok S a' s'" "a' = a \<or> a' \<le> ack_off s"
    "send_frame s s'" "unsent (sd_data s') \<subseteq> unsent (sd_data s)"
    "unsent (sd_data s) - unsent (sd_data s') \<subseteq> {..< a'}"
proof -
  let ?d = "sd_data s"
  obtain n m where n: "drop_for (ack_off s) ?d 0 = Inr n" "chain S a (take n ?d) m"
      "chain S m (drop n ?d) (sd_off s)" "n \<le> length ?d" "m = a \<or> m \<le> ack_off s"
    using drop_for_spec [of S a ?d "sd_off s" "ack_off s" 0] ok by (auto simp: send_ok_def)
  let ?s = "s\<lparr>sd_data := drop n ?d, sd_pos := sd_pos s - n\<rparr>"
  have sp: "?d = take n ?d @ drop n ?d" by simp
  have "set (take (sd_pos s - n) (drop n ?d)) \<subseteq> set (take (sd_pos s) ?d)"
    by (metis drop_take set_drop_subset)
  moreover have "pending_len (drop n ?d) \<le> pending_len ?d"
    using pending_len_simps(3) [of "take n ?d" "drop n ?d"] by simp
  ultimately have "send_ok S m ?s" using ok n(3) by (auto simp: send_ok_def)
  moreover have "unsent ?d = unsent (take n ?d) \<union> unsent (drop n ?d)"
    using unsent_simps(3) [of "take n ?d" "drop n ?d"] by simp
  moreover have "unsent (take n ?d) \<subseteq> {..< m}" using chain_span [OF n(2)] by auto
  moreover have "drop_acked s = Inr ?s" by (simp add: drop_acked_def n(1))
  ultimately show ?thesis using that [of ?s m] n(5) by auto
qed

lemma ack_and_drop_spec:
  assumes w: "stream_ack_and_drop off len s = Inr s'" and ok: "send_ok S a s"
    and fc: "sd_fc s = None" "\<not> sd_fc_stream_rotate s" and rs: "rs_ok (sd_acked s)"
  shows "\<exists>a'. send_ok S a' s' \<and> (a' = a \<or> {..< a'} \<subseteq> rs_covered (sd_acked s')) \<and> rs_ok (sd_acked s') \<and>
    rs_covered (sd_acked s') \<subseteq> {off ..< off + len} \<union> rs_covered (sd_acked s) \<and>
    unsent (sd_data s') \<subseteq> unsent (sd_data s) \<and> unsent (sd_data s) - unsent (sd_data s') \<subseteq> {..< a'} \<and>
    send_frame (s\<lparr>sd_acked := sd_acked s'\<rparr>) s'"
proof -
  obtain t where t: "RangeSet_insert (off, off + len) (sd_acked s) = Inr t"
    using w fc by (auto simp: stream_ack_and_drop_def SendBuf_ack_and_drop_def ack_inner_def SendBuf_ack_def
        checked_add_eq_Inr split: if_splits)
  let ?s = "s\<lparr>sd_acked := t\<rparr>"
  have ok1: "send_ok S a ?s" using ok by (simp add: send_ok_def)
  have cov: "rs_ok t" "rs_covered t \<subseteq> {off ..< off + len} \<union> rs_covered (sd_acked s)"
    using acked_sound [OF rs _ t] by auto
  obtain a' s1 where d: "drop_acked ?s = Inr s1" "send_ok S a' s1" "a' = a \<or> a' \<le> ack_off ?s"
      "send_frame ?s s1" "unsent (sd_data s1) \<subseteq> unsent (sd_data ?s)"
      "unsent (sd_data ?s) - unsent (sd_data s1) \<subseteq> {..< a'}"
    by (rule drop_acked_spec [OF ok1])
  have fc1: "sd_fc s1 = None" "sd_acked s1 = t" using send_frame_sel [OF d(4)] fc by simp_all
  have "s' = ?s \<or> s' = s1"
    using w fc fc1(1) d(1) t
    by (auto simp: stream_ack_and_drop_def SendBuf_ack_and_drop_def ack_inner_def SendBuf_ack_def
        take_inner_send_def checked_add_eq_Inr split: if_splits)
  then show ?thesis
  proof
    assume s': "s' = ?s"
    with ok1 cov show ?thesis by (intro exI [of _ a]) simp
  next
    assume s': "s' = s1"
    have "a' = a \<or> {..< a'} \<subseteq> rs_covered t" using d(3) ack_off_covered [of ?s] by auto
    with s' d cov fc1(2) show ?thesis by (intro exI [of _ a']) simp
  qed
qed

section \<open>Retransmission\<close>

lemma rewind_spec:
  assumes b: "full S b" and off: "off \<le> rb_max b" and b': "b' = b\<lparr>rb_pos := rewind off (rb_max b) b\<rparr>"
  shows "full S b'" "rb_off b' = rb_off b" "rb_max b' = rb_max b" "rewind off (rb_max b) b \<le> rb_pos b"
    "rb_span b' = rb_span b \<union> ({off ..} \<inter> {rb_off b ..< rb_max b})"
    "length (rb_bytes b') = length (rb_bytes b) + (rb_pos b - rewind off (rb_max b) b)"
proof -
  let ?r = "rewind off (rb_max b) b"
  have wf: "rb_start b \<le> rb_pos b" "rb_pos b \<le> rb_start b + rb_len b" "rb_start b \<le> rb_off b"
    using full_wf [OF b] by (auto simp: rb_wf_def)
  show r: "?r \<le> rb_pos b" using wf by (auto simp: rewind_def)
  have rs: "rb_start b \<le> ?r" "?r \<le> rb_start b + rb_len b" using wf by (auto simp: rewind_def)
  note fp = full_pos [OF b rs, folded b']
  show "full S b'" "rb_off b' = rb_off b" and m: "rb_max b' = rb_max b" using fp by auto
  have first: "rb_first b' = min (rb_first b) (max off (rb_off b))"
    unfolding fp(3) rb_first_def [of b] using wf off full_max [OF b] by (auto simp: rewind_def)
  then show "rb_span b' = rb_span b \<union> ({off ..} \<inter> {rb_off b ..< rb_max b})"
    using off rb_first_le_max [of b] unfolding rb_span_def m by (auto simp: min_def max_def)
  have "rb_first b = rb_off b + (rb_pos b - rb_start b)" "rb_first b' = rb_off b + (?r - rb_start b)"
    by (simp_all add: rb_first_def b')
  moreover have "rb_max b = rb_first b + length (rb_bytes b)" "rb_max b = rb_first b' + length (rb_bytes b')"
    unfolding m [symmetric] by (simp_all only: rb_max_def) (simp_all add: m [unfolded rb_max_def])
  ultimately show "length (rb_bytes b') = length (rb_bytes b) + (rb_pos b - ?r)"
    using r rs(1) wf(1) by arith
qed

lemma retransmit_for_break:
  "(\<exists>i is'. is = i # is' \<and> i < length (sd_data s) \<and> mo \<le> rb_off (sd_data s ! i)) \<or> is = [] \<Longrightarrow>
     retransmit_for off mo is s = Inr s"
  by (auto simp: Let_def)

lemma retransmit_for_spec:
  assumes "retransmit_for off mo [length pre ..< length pre + length post] s = Inr s'"
    "sd_data s = pre @ post" "chain S c post z" "off \<le> mo"
  shows "\<exists>post' p l. s' = s\<lparr>sd_data := pre @ post', sd_pos := p, sd_len := l\<rparr> \<and> chain S c post' z \<and>
    unsent post' = unsent post \<union> ({off ..< mo} \<inter> {c ..< z}) \<and> p \<le> sd_pos s \<and>
    take p (pre @ post') = take p (pre @ post) \<and> pending_len post' + sd_len s \<le> l + pending_len post"
  using assms
proof (induction post arbitrary: pre s c)
  case Nil
  then show ?case
    by (rule_tac exI [of _ "[]"], rule_tac exI [of _ "sd_pos s"], rule_tac exI [of _ "sd_len s"]) simp
next
  case (Cons b zs)
  let ?i = "length pre" and ?is = "[Suc (length pre) ..< Suc (length pre) + length zs]"
  have same: "\<exists>post' p l. s = s\<lparr>sd_data := pre @ post', sd_pos := p, sd_len := l\<rparr> \<and> chain S c post' z \<and>
      unsent post' = unsent (b # zs) \<union> ({off ..< mo} \<inter> {c ..< z}) \<and> p \<le> sd_pos s \<and>
      take p (pre @ post') = take p (pre @ b # zs) \<and> pending_len post' + sd_len s \<le> l + pending_len (b # zs)"
    if "{off ..< mo} \<inter> {c ..< z} = {}"
    unfolding that using Cons.prems(2,3)
    by (rule_tac exI [of _ "b # zs"], rule_tac exI [of _ "sd_pos s"], rule_tac exI [of _ "sd_len s"]) simp
  have b: "full S b" "rb_off b = c" "chain S (rb_max b) zs z" using Cons.prems(3) by auto
  have cz: "c \<le> rb_max b" "rb_max b \<le> z" using b full_max [OF b(1)] chain_le [OF b(3)] by auto
  note bm = max_off_rb_max [OF full_wf [OF b(1)]]
  have idx: "[?i ..< ?i + length (b # zs)] = ?i # ?is" by (simp add: upt_rec)
  have nth: "sd_data s ! ?i = b" "?i < length (sd_data s)" using Cons.prems(2) by simp_all
  have tk: "take ?i (sd_data s) = pre" "drop (?i + 1) (sd_data s) = zs" using Cons.prems(2) by simp_all
  note run = Cons.prems(1) [unfolded idx retransmit_for.simps nth(1) Let_def bm try_bind_Inr]
  show ?case
  proof (cases "c \<ge> mo")
    case True
    then have "s' = s" using run nth(2) b(2) by simp
    with same True show ?thesis by auto
  next
    case c: False
    show ?thesis
    proof (cases "off > rb_max b")
      case True
      then have "retransmit_for off mo ?is s = Inr s'" using run nth(2) b(2) c by simp
      then have "\<exists>post' p l. s' = s\<lparr>sd_data := (pre @ [b]) @ post', sd_pos := p, sd_len := l\<rparr> \<and>
          chain S (rb_max b) post' z \<and> unsent post' = unsent zs \<union> ({off ..< mo} \<inter> {rb_max b ..< z}) \<and>
          p \<le> sd_pos s \<and> take p ((pre @ [b]) @ post') = take p ((pre @ [b]) @ zs) \<and>
          pending_len post' + sd_len s \<le> l + pending_len zs"
        using Cons.IH [of "pre @ [b]" s "rb_max b"] Cons.prems(2,4) b(3) by simp
      then obtain post' p l where IH: "s' = s\<lparr>sd_data := (pre @ [b]) @ post', sd_pos := p, sd_len := l\<rparr>"
          "chain S (rb_max b) post' z" "unsent post' = unsent zs \<union> ({off ..< mo} \<inter> {rb_max b ..< z})"
          "p \<le> sd_pos s" "take p ((pre @ [b]) @ post') = take p ((pre @ [b]) @ zs)"
          "pending_len post' + sd_len s \<le> l + pending_len zs"
        by blast
      have "{off ..< mo} \<inter> {rb_max b ..< z} = {off ..< mo} \<inter> {c ..< z}" using True cz by auto
      with IH b show ?thesis
        by (rule_tac exI [of _ "b # post'"], rule_tac exI [of _ p], rule_tac exI [of _ l]) auto
    next
      case o: False
      show ?thesis
      proof (cases "mo < rb_max b")
        case True
        obtain lo hi where sp: "RangeBuf_split_off (mo - rb_off b) b = Inr (lo, hi)" "full S lo" "full S hi"
            "rb_off lo = c" "rb_max lo = mo" "rb_off hi = mo" "rb_max hi = rb_max b"
            "rb_span lo \<union> rb_span hi = rb_span b"
            "length (rb_bytes lo) + length (rb_bytes hi) = length (rb_bytes b)"
          by (rule full_split [OF b(1), of "mo - rb_off b"]) (use True c b(2) full_max [OF b(1)] in auto)
        note lm = max_off_rb_max [OF full_wf [OF sp(2)], unfolded sp(5)]
        let ?r = "rewind off mo lo"
        define lo' where "lo' = lo\<lparr>rb_pos := ?r\<rparr>"
        note rw = rewind_spec [OF sp(2), of off lo', unfolded sp(5), OF Cons.prems(4) lo'_def]
        let ?s = "\<lambda>l. s\<lparr>sd_data := pre @ lo' # hi # zs, sd_pos := min (sd_pos s) ?i, sd_len := l\<rparr>"
        have brk: "retransmit_for off mo ?is (?s l) = Inr (?s l)" for l
          by (rule retransmit_for_break) (auto simp: nth_append sp(6) upt_rec)
        have "s' = ?s (sd_len s + (rb_pos lo - ?r))"
          using run nth(2) b(2) c o True sp(1) lm rw(4) brk tk
          by (auto simp: lo'_def [symmetric] checked_add_eq_Inr simp del: retransmit_for.simps)
        moreover have "chain S c (lo' # hi # zs) z" using rw sp b(3) by simp
        moreover have "unsent (lo' # hi # zs) = unsent (b # zs) \<union> ({off ..< mo} \<inter> {c ..< z})"
        proof -
          have "{off ..} \<inter> {c ..< mo} = {off ..< mo} \<inter> {c ..< z}" using True cz by auto
          then show ?thesis using rw(5) sp(4,8) by auto
        qed
        moreover have "pending_len (lo' # hi # zs) + sd_len s \<le>
            sd_len s + (rb_pos lo - ?r) + pending_len (b # zs)"
          using rw(6) sp(9) by simp
        ultimately show ?thesis
          by (rule_tac exI [of _ "lo' # hi # zs"], rule_tac exI [of _ "min (sd_pos s) ?i"],
              rule_tac exI [of _ "sd_len s + (rb_pos lo - ?r)"]) simp
      next
        case False
        let ?r = "rewind off (rb_max b) b"
        define b' where "b' = b\<lparr>rb_pos := ?r\<rparr>"
        have off: "off \<le> rb_max b" using o by simp
        note rw = rewind_spec [OF b(1) off b'_def]
        define s1 where "s1 = s\<lparr>sd_data := pre @ b' # zs, sd_pos := min (sd_pos s) ?i,
          sd_len := sd_len s + (rb_pos b - ?r)\<rparr>"
        have "retransmit_for off mo ?is s1 = Inr s'"
          using run nth(2) b(2) c o False rw(4) tk bm
          by (auto simp: b'_def [symmetric] s1_def checked_add_eq_Inr simp del: retransmit_for.simps)
        then have "\<exists>post' p l. s' = s1\<lparr>sd_data := (pre @ [b']) @ post', sd_pos := p, sd_len := l\<rparr> \<and>
            chain S (rb_max b) post' z \<and> unsent post' = unsent zs \<union> ({off ..< mo} \<inter> {rb_max b ..< z}) \<and>
            p \<le> sd_pos s1 \<and> take p ((pre @ [b']) @ post') = take p ((pre @ [b']) @ zs) \<and>
            pending_len post' + sd_len s1 \<le> l + pending_len zs"
          using Cons.IH [of "pre @ [b']" s1 "rb_max b"] Cons.prems(4) b(3) by (simp add: s1_def)
        then obtain post' p l where IH: "s' = s1\<lparr>sd_data := (pre @ [b']) @ post', sd_pos := p, sd_len := l\<rparr>"
            "chain S (rb_max b) post' z" "unsent post' = unsent zs \<union> ({off ..< mo} \<inter> {rb_max b ..< z})"
            "p \<le> sd_pos s1" "pending_len post' + sd_len s1 \<le> l + pending_len zs"
          by blast
        have p: "p \<le> sd_pos s" "p \<le> ?i" using IH(4) by (auto simp: s1_def)
        have "unsent (b' # post') = unsent (b # zs) \<union> ({off ..< mo} \<inter> {c ..< z})"
        proof -
          have "{off ..} \<inter> {c ..< rb_max b} \<union> {off ..< mo} \<inter> {rb_max b ..< z} = {off ..< mo} \<inter> {c ..< z}"
            using False cz by auto
          then show ?thesis using rw(5) b(2) IH(3) by auto
        qed
        moreover have "pending_len (b' # post') + sd_len s \<le> l + pending_len (b # zs)"
          using rw(6) IH(5) by (simp add: s1_def)
        moreover have "chain S c (b' # post') z" using rw(1-3) b(2) IH(2) by simp
        ultimately show ?thesis
          using IH(1) p by (rule_tac exI [of _ "b' # post'"], rule_tac exI [of _ p], rule_tac exI [of _ l])
            (simp add: s1_def)
      qed
    qed
  qed
qed

lemma retransmit_spec:
  assumes w: "SendBuf_retransmit off len s = Inr s'" and ok: "send_ok S a s"
  shows "send_ok S a s' \<and> send_frame s s' \<and> unsent (sd_data s) \<subseteq> unsent (sd_data s') \<and>
    {off ..< off + len} \<inter> {a ..< sd_off s} \<subseteq> unsent (sd_data s') \<union> {..< ack_off s}"
proof -
  have triv: "?thesis" if "s' = s" "{off ..< off + len} \<inter> {a ..< sd_off s} \<subseteq> {..< ack_off s}"
    using that ok by auto
  show ?thesis
  proof (cases "sd_data s = [] \<or> off + len \<le> ack_off s")
    case True
    then have "s' = s" using w by (auto simp: SendBuf_retransmit_def checked_add_eq_Inr split: if_splits)
    moreover have "{a ..< sd_off s} = {}" if "sd_data s = []" using ok that by (simp add: send_ok_def)
    ultimately show ?thesis using True by (intro triv) auto
  next
    case False
    then have run: "retransmit_for off (off + len) [length [] ..< length [] + length (sd_data s)] s = Inr s'"
      using w by (auto simp: SendBuf_retransmit_def checked_add_eq_Inr split: if_splits)
    have ch: "chain S a (sd_data s) (sd_off s)" and p: "sd_pos s \<le> length (sd_data s)"
      using ok by (auto simp: send_ok_def)
    obtain d p l where s': "s' = s\<lparr>sd_data := d, sd_pos := p, sd_len := l\<rparr>" "chain S a d (sd_off s)"
        "unsent d = unsent (sd_data s) \<union> ({off ..< off + len} \<inter> {a ..< sd_off s})" "p \<le> sd_pos s"
        "take p d = take p (sd_data s)" "pending_len d + sd_len s \<le> l + pending_len (sd_data s)"
      using retransmit_for_spec [OF run _ ch] by auto
    have "length (take p d) = p" using s'(4,5) p by simp
    then have "p \<le> length d" by simp
    moreover have "\<forall>b \<in> set (take p d). rb_first b = rb_max b"
      using ok s'(4) set_take_subset_set_take [of p "sd_pos s" "sd_data s"] unfolding s'(5) send_ok_def by blast
    moreover have "pending_len d \<le> l" using s'(6) ok by (simp add: send_ok_def)
    ultimately have "send_ok S a s'" using ok s'(1,2) by (simp add: send_ok_def)
    with s'(1,3) show ?thesis by auto
  qed
qed

section \<open>Runs of a sender\<close>

text \<open>The application writes the stream \<open>S\<close> of \<open>L\<close> bytes piece by piece; \<open>T\<close> are the positions
  sent so far, \<open>F\<close> those in flight (sent, not acknowledged and not declared lost since) and \<open>A\<close>
  those acknowledged.\<close>

inductive send_run ::
  "(nat \<Rightarrow> 8 word) \<Rightarrow> nat \<Rightarrow> nat \<Rightarrow> stream_send \<Rightarrow> nat set \<Rightarrow> nat set \<Rightarrow> nat set \<Rightarrow> bool"
  for S L maxd where
  send_start: "send_run S L maxd (SendBuf_new maxd) {} {} {}"
| send_write: "send_run S L maxd s' T F A"
    if "send_run S L maxd s T F A" "data = map S [sd_off s ..< sd_off s + length data]"
      "sd_off s + length data \<le> L" "fin \<longrightarrow> sd_off s + length data = L"
      "SendBuf_write data fin s = Inr (s', k)"
| send_emit: "send_run S L maxd s' (T \<union> {f ..< f + n}) (F \<union> {f ..< f + n}) A"
    if "send_run S L maxd s T F A" "off_front s = Inr f" "stream_send_emit out s = Inr (s', out', n, fin)"
| send_ack: "send_run S L maxd s' T (F - {off ..< off + len}) (A \<union> {off ..< off + len})"
    if "send_run S L maxd s T F A" "{off ..< off + len} \<subseteq> T" "stream_ack_and_drop off len s = Inr s'"
| send_lost: "send_run S L maxd s' T (F - {off ..< off + len}) A"
    if "send_run S L maxd s T F A" "SendBuf_retransmit off len s = Inr s'"
| send_max_data: "send_run S L maxd (SendBuf_update_max_data m s) T F A"
    if "send_run S L maxd s T F A"
| send_blocked: "send_run S L maxd (SendBuf_update_blocked_at b s) T F A"
    if "send_run S L maxd s T F A"

definition send_inv ::
  "(nat \<Rightarrow> 8 word) \<Rightarrow> nat \<Rightarrow> stream_send \<Rightarrow> nat \<Rightarrow> nat set \<Rightarrow> nat set \<Rightarrow> nat set \<Rightarrow> bool" where
  "send_inv S L s a T F A \<longleftrightarrow> send_ok S a s \<and> {..< a} \<subseteq> A \<and> sd_fc s = None \<and> \<not> sd_fc_stream_rotate s \<and>
     sd_fc_max_offset s = None \<and> rs_ok (sd_acked s) \<and> rs_covered (sd_acked s) \<subseteq> A \<and> A \<subseteq> T \<and>
     T \<subseteq> {..< sd_off s} \<and> {..< sd_off s} \<subseteq> A \<union> F \<union> unsent (sd_data s) \<and> sd_off s \<le> L \<and>
     (sd_fin_off s = None \<or> sd_fin_off s = Some L \<and> sd_off s = L)"

lemma send_inv_ack_off: "send_inv S L s a T F A \<Longrightarrow> ack_off s \<le> sd_off s"
proof -
  assume "send_inv S L s a T F A"
  then have "rs_covered (sd_acked s) \<subseteq> A" "A \<subseteq> T" "T \<subseteq> {..< sd_off s}" by (simp_all add: send_inv_def)
  with ack_off_covered [of s] have "{..< ack_off s} \<subseteq> {..< sd_off s}" by (meson subset_trans)
  then show ?thesis by simp
qed

lemma send_inv_start: "send_inv S L (SendBuf_new maxd) 0 {} {} {}"
  using rs_ok_default
  by (simp add: send_inv_def send_ok_def SendBuf_new_def rs_covered_def covered_def RangeSet_default_def)

lemma send_inv_write:
  assumes inv: "send_inv S L s a T F A" and data: "data = map S [sd_off s ..< sd_off s + length data]"
      "sd_off s + length data \<le> L" "fin \<longrightarrow> sd_off s + length data = L"
    and w: "SendBuf_write data fin s = Inr (s', k)"
  shows "send_inv S L s' a T F A"
proof -
  have ok: "send_ok S a s" using inv by (simp add: send_inv_def)
  note W = write_spec [OF w ok data(1) send_inv_ack_off [OF inv]]
  have off: "sd_off s' = sd_off s + k" "k \<le> length data"
    and un: "unsent (sd_data s') = unsent (sd_data s) \<union> {sd_off s ..< sd_off s'}" using W by auto
  have "{..< sd_off s'} = {..< sd_off s} \<union> {sd_off s ..< sd_off s'}" using off by auto
  then have cov: "{..< sd_off s'} \<subseteq> A \<union> F \<union> unsent (sd_data s')" using inv un unfolding send_inv_def by blast
  have fin: "sd_fin_off s' = None \<or> sd_fin_off s' = Some L \<and> sd_off s' = L"
  proof (cases "fin \<and> k = length data")
    case True
    with W data(3) show ?thesis by auto
  next
    case False
    then have "sd_fin_off s' = sd_fin_off s" using W by presburger
    moreover have "k = 0" if "sd_off s = L" using that data(2) off(2) by simp
    ultimately show ?thesis using inv off(1) by (auto simp: send_inv_def)
  qed
  have "T \<subseteq> {..< sd_off s'}" using inv off(1) by (fastforce simp: send_inv_def)
  moreover have "sd_off s' \<le> L" using off data(2) by simp
  ultimately show ?thesis using inv W cov fin by (simp add: send_inv_def)
qed

lemma send_inv_emit:
  assumes inv: "send_inv S L s a T F A"
  obtains f n out' s' where "off_front s = Inr f"
    "stream_send_emit out s = Inr (s', out', n, sd_fin_off s = Some (f + n))" "n \<le> length out"
    "length out' = length out" "take n out' = map S [f ..< f + n]" "f + n \<le> sd_off s"
    "{f ..< f + n} \<subseteq> unsent (sd_data s)" "unsent (sd_data s') = unsent (sd_data s) - {f ..< f + n}"
    "send_inv S L s' a (T \<union> {f ..< f + n}) (F \<union> {f ..< f + n}) A"
    "0 < length out \<and> f < sd_off s \<and> f < sd_max_data s \<longrightarrow> 0 < n"
proof -
  have ok: "send_ok S a s" and fc: "sd_fc s = None" using inv by (auto simp: send_inv_def)
  obtain f n out' s1 where e: "off_front s = Inr f"
      "SendBuf_emit inner_emit out s = Inr (s1\<lparr>sd_emit_off := max (sd_emit_off s) (f + n)\<rparr>, out', n, sd_fin_off s = Some (f + n))"
      "n \<le> length out" "sends S a f n s s1" "length out' = length out" "take n out' = map S [f ..< f + n]"
      "0 < length out \<and> f < sd_off s \<and> f < sd_max_data s \<longrightarrow> 0 < n"
    using emit_spec [OF ok fc, of inner_emit out] by blast
  let ?s = "s1\<lparr>sd_emit_off := max (sd_emit_off s) (f + n)\<rparr>"
  have s1: "send_ok S a s1" "send_frame s s1" "{f ..< f + n} \<subseteq> unsent (sd_data s)"
      "unsent (sd_data s1) = unsent (sd_data s) - {f ..< f + n}"
    using e(4) by (auto simp: sends_def)
  have sub: "{f ..< f + n} \<subseteq> {..< sd_off s}"
    using s1(3) chain_span [of S a "sd_data s" "sd_off s"] ok by (auto simp: send_ok_def)
  moreover have "f \<le> sd_off s" using off_front_ok [OF ok] e(1) by auto
  ultimately have le: "f + n \<le> sd_off s"
  proof (cases n)
    case (Suc m)
    then have "f + m \<in> {f ..< f + n}" by simp
    with sub have "f + m \<in> {..< sd_off s}" by blast
    with Suc show ?thesis by simp
  qed simp
  have "send_ok S a ?s" using s1(1) by (simp add: send_ok_def)
  moreover have "{..< sd_off s} \<subseteq> A \<union> (F \<union> {f ..< f + n}) \<union> unsent (sd_data s1)"
    using inv s1(4) unfolding send_inv_def by blast
  ultimately have "send_inv S L ?s a (T \<union> {f ..< f + n}) (F \<union> {f ..< f + n}) A"
    using inv sub send_frame_sel [OF s1(2)] by (auto simp: send_inv_def)
  then show ?thesis
    using that [of f ?s out' n] e le s1(3,4) by (simp add: stream_send_emit_def)
qed

lemma send_inv_ack:
  assumes inv: "send_inv S L s a T F A" and T: "{off ..< off + len} \<subseteq> T"
    and w: "stream_ack_and_drop off len s = Inr s'"
  shows "\<exists>a'. send_inv S L s' a' T (F - {off ..< off + len}) (A \<union> {off ..< off + len})"
proof -
  have ok: "send_ok S a s" "sd_fc s = None" "\<not> sd_fc_stream_rotate s" "rs_ok (sd_acked s)"
    using inv by (auto simp: send_inv_def)
  obtain a' where a': "send_ok S a' s'" "a' = a \<or> {..< a'} \<subseteq> rs_covered (sd_acked s')" "rs_ok (sd_acked s')"
      "rs_covered (sd_acked s') \<subseteq> {off ..< off + len} \<union> rs_covered (sd_acked s)"
      "unsent (sd_data s) - unsent (sd_data s') \<subseteq> {..< a'}" "send_frame (s\<lparr>sd_acked := sd_acked s'\<rparr>) s'"
    using ack_and_drop_spec [OF w ok] by blast
  have fr: "sd_off s' = sd_off s" "sd_fc s' = None" "\<not> sd_fc_stream_rotate s'" "sd_fc_max_offset s' = None"
      "sd_fin_off s' = sd_fin_off s"
    using send_frame_sel [OF a'(6)] inv by (auto simp: send_inv_def)
  have cov: "rs_covered (sd_acked s') \<subseteq> A \<union> {off ..< off + len}" using a'(4) inv unfolding send_inv_def by blast
  moreover have low: "{..< a'} \<subseteq> A \<union> {off ..< off + len}" using a'(2) cov inv unfolding send_inv_def by blast
  moreover have "{..< sd_off s} \<subseteq> (A \<union> {off ..< off + len}) \<union> (F - {off ..< off + len}) \<union> unsent (sd_data s')"
    using inv a'(5) low unfolding send_inv_def by blast
  ultimately have "send_inv S L s' a' T (F - {off ..< off + len}) (A \<union> {off ..< off + len})"
    using inv a'(1,3) fr T by (simp add: send_inv_def)
  then show ?thesis by blast
qed

lemma send_inv_lost:
  assumes inv: "send_inv S L s a T F A" and w: "SendBuf_retransmit off len s = Inr s'"
  shows "send_inv S L s' a T (F - {off ..< off + len}) A"
proof -
  have ok: "send_ok S a s" using inv by (simp add: send_inv_def)
  have R: "send_ok S a s'" "send_frame s s'" "unsent (sd_data s) \<subseteq> unsent (sd_data s')"
      "{off ..< off + len} \<inter> {a ..< sd_off s} \<subseteq> unsent (sd_data s') \<union> {..< ack_off s}"
    using retransmit_spec [OF w ok] by auto
  have acked: "{..< ack_off s} \<subseteq> A" "{..< a} \<subseteq> A"
    using subset_trans [OF ack_off_covered [of s]] inv by (auto simp only: send_inv_def)
  have "{..< sd_off s} \<subseteq> A \<union> (F - {off ..< off + len}) \<union> unsent (sd_data s')"
  proof
    fix p assume p: "p \<in> {..< sd_off s}"
    then have "p \<in> A \<union> F \<union> unsent (sd_data s)" using inv unfolding send_inv_def by blast
    moreover have "p \<in> A \<union> unsent (sd_data s')" if "p \<in> {off ..< off + len}"
    proof (cases "p < a")
      case True
      then show ?thesis using acked(2) by auto
    next
      case False
      then have "p \<in> {off ..< off + len} \<inter> {a ..< sd_off s}" using p that by simp
      then show ?thesis using R(4) acked(1) by blast
    qed
    ultimately show "p \<in> A \<union> (F - {off ..< off + len}) \<union> unsent (sd_data s')" using R(3) by blast
  qed
  then show ?thesis using inv R(1) send_frame_sel [OF R(2)] by (simp add: send_inv_def)
qed

lemma send_run_inv: "send_run S L maxd s T F A \<Longrightarrow> \<exists>a. send_inv S L s a T F A"
proof (induction rule: send_run.induct)
  case send_start
  show ?case using send_inv_start by blast
next
  case (send_write s T F A data fin s' k)
  then show ?case using send_inv_write by blast
next
  case (send_emit s T F A f out s' out' n fin)
  then obtain a where "send_inv S L s a T F A" by blast
  then show ?case by (rule send_inv_emit [where out = out]) (use send_emit.hyps in auto)
next
  case (send_ack s T F A off len s')
  then show ?case using send_inv_ack by blast
next
  case (send_lost s T F A off len s')
  then show ?case using send_inv_lost by blast
next
  case (send_max_data s T F A m)
  then show ?case by (auto simp: send_inv_def send_ok_def SendBuf_update_max_data_def)
next
  case (send_blocked s T F A b)
  then show ?case by (auto simp: send_inv_def send_ok_def SendBuf_update_blocked_at_def)
qed

section \<open>Properties\<close>

lemma unsent_bounds:
  assumes "send_ok S a s" "off_front s = Inr f"
  shows "\<forall>p \<in> unsent (sd_data s). f \<le> p" "unsent (sd_data s) \<noteq> {} \<longrightarrow> f < sd_off s"
proof -
  show f: "\<forall>p \<in> unsent (sd_data s). f \<le> p" using off_front_ok [OF assms(1)] assms(2) by auto
  show "unsent (sd_data s) \<noteq> {} \<longrightarrow> f < sd_off s"
    using f chain_span [of S a "sd_data s" "sd_off s"] assms(1) by (force simp: send_ok_def)
qed

text \<open>C7: Along every interleaving of writes, emissions, acknowledgments of sent data and losses, no
  byte is forgotten: each one written is acknowledged, in flight or waiting to be sent. An
  emission never fails; it copies bytes of the stream from the lowest waiting position on, takes
  exactly these from the waiting ones, sends at least one byte when there is room, something is
  waiting and the peer's limit allows it, and reports the end exactly at the final offset.\<close>

theorem send_no_loss:
  assumes "send_run S L maxd s T F A"
  shows "{..< sd_off s} \<subseteq> A \<union> F \<union> unsent (sd_data s) \<and>
    (\<exists>f n out' s'. off_front s = Inr f \<and>
       stream_send_emit out s = Inr (s', out', n, sd_fin_off s = Some (f + n)) \<and>
       take n out' = map S [f ..< f + n] \<and> length out' = length out \<and>
       {f ..< f + n} \<subseteq> unsent (sd_data s) \<and> (\<forall>p \<in> unsent (sd_data s). f \<le> p) \<and>
       unsent (sd_data s') = unsent (sd_data s) - {f ..< f + n} \<and>
       (out \<noteq> [] \<and> unsent (sd_data s) \<noteq> {} \<and> f < sd_max_data s \<longrightarrow> 0 < n))"
proof -
  obtain a where inv: "send_inv S L s a T F A" using send_run_inv [OF assms] by blast
  then have ok: "send_ok S a s" and cov: "{..< sd_off s} \<subseteq> A \<union> F \<union> unsent (sd_data s)"
    by (auto simp: send_inv_def)
  obtain f n out' s' where e: "off_front s = Inr f"
    "stream_send_emit out s = Inr (s', out', n, sd_fin_off s = Some (f + n))"
    "length out' = length out" "take n out' = map S [f ..< f + n]"
    "{f ..< f + n} \<subseteq> unsent (sd_data s)" "unsent (sd_data s') = unsent (sd_data s) - {f ..< f + n}"
    "0 < length out \<and> f < sd_off s \<and> f < sd_max_data s \<longrightarrow> 0 < n"
    by (rule send_inv_emit [OF inv, of out])
  with unsent_bounds [OF ok e(1)] cov show ?thesis by auto
qed

text \<open>Three bytes are written, two of them sent and then lost.\<close>

lemmas send_eval = SendBuf_write_def send_cap_def write_chunks.simps chunks.simps off_front_def
  stream_send_emit_def SendBuf_emit_def send_while.simps copy_at_def SendBuf_retransmit_def rewind_def
  ack_off_def SendBuf_new_def RangeSet_default_def
  RangeBuf_is_empty_def RangeBuf_len_def RangeBuf_off_def RangeBuf_max_off_def RangeBuf_deref_def
  RangeBuf_consume_def RangeBuf_split_off_def RangeBuf_from_def checked_add_def checked_sub_def Let_def

lemma sample_send_ops:
  "\<exists>s1 s2 s3. SendBuf_write [7, 8, 9] True (SendBuf_new 100) = Inr (s1, 3) \<and> off_front s1 = Inr 0 \<and>
     stream_send_emit [0, 0] s1 = Inr (s2, [7, 8], 2, False) \<and>
     SendBuf_retransmit 0 2 s2 = Inr s3 \<and> sd_off s3 = 3"
  by (simp add: send_eval upt_rec)

theorem send_no_loss_witness:
  "\<exists>s. send_run sample_bytes 3 100 s {0 ..< 2} {} {} \<and> {..< 3} \<subseteq> unsent (sd_data s)"
proof -
  obtain s1 s2 s3 where w: "SendBuf_write [7, 8, 9] True (SendBuf_new 100) = Inr (s1, 3)"
      "off_front s1 = Inr 0" "stream_send_emit [0, 0] s1 = Inr (s2, [7, 8], 2, False)"
      "SendBuf_retransmit 0 2 s2 = Inr s3" "sd_off s3 = 3"
    using sample_send_ops by blast
  have "send_run sample_bytes 3 100 s1 {} {} {}"
    by (rule send_write [OF send_start _ _ _ w(1)]) (simp_all add: SendBuf_new_def upt_rec sample_bytes_def)
  from send_lost [OF send_emit [OF this w(2,3)] w(4)]
  have "send_run sample_bytes 3 100 s3 {0 ..< 2} {} {}" by (simp add: numeral_2_eq_2)
  moreover from send_no_loss [OF this, of "[]"] w(5) have "{..< 3} \<subseteq> unsent (sd_data s3)" by simp
  ultimately show ?thesis by blast
qed

end
