(* ===== verification/Stream_Transfer.thy ===== *)
theory Stream_Transfer
  imports Send_Correct
begin

text \<open>
  The two ends of a stream together: a sender, \<open>Send_Buf\<close>, and a receiver, \<open>Recv_Buf\<close>, joined by
  a network that loses, repeats and reorders what is sent, as the connection of \<open>lib.rs\<close> drives
  them. The runs of both sides are those of \<open>Send_Correct\<close> and \<open>Recv_Reassembly\<close>; what is new is
  that the premises of one side are promises of the other.
\<close>

section \<open>Runs of a stream\<close>

text \<open>The send buffer, the receive buffer, everything that was ever sent and may still arrive,
  what has arrived, the flow-control limits announced by the receiver and the bytes read.\<close>

record transfer_state =
  ts_tx :: stream_send
  ts_rx :: stream_recv
  ts_net :: "range_buf set"
  ts_got :: "range_buf set"
  ts_limits :: "nat set"
  ts_read :: "8 word list"

definition transfer_init :: "nat \<Rightarrow> nat \<Rightarrow> transfer_state" where
  "transfer_init maxd win =
     \<lparr>ts_tx = SendBuf_new maxd, ts_rx = RecvBuf_new maxd win, ts_net = {}, ts_got = {}, ts_limits = {},
      ts_read = []\<rparr>"

text \<open>An acknowledgment is for a packet that arrived, a loss is declared for any packet that was
  sent, rightly or not; the receiver raises its limit when half of its window is used.\<close>

inductive transfer :: "(nat \<Rightarrow> 8 word) \<Rightarrow> nat \<Rightarrow> nat \<Rightarrow> nat \<Rightarrow> transfer_state \<Rightarrow> bool"
  for S L maxd win where
  tr_start: "transfer S L maxd win (transfer_init maxd win)"
| tr_write: "transfer S L maxd win (c\<lparr>ts_tx := s'\<rparr>)"
    if "transfer S L maxd win c" "data = map S [sd_off (ts_tx c) ..< sd_off (ts_tx c) + length data]"
      "sd_off (ts_tx c) + length data \<le> L" "fin \<longrightarrow> sd_off (ts_tx c) + length data = L"
      "SendBuf_write data fin (ts_tx c) = Inr (s', k)"
| tr_emit: "transfer S L maxd win
      (c\<lparr>ts_tx := s', ts_net := insert (RangeBuf_from (take n out') f fin) (ts_net c)\<rparr>)"
    if "transfer S L maxd win c" "off_front (ts_tx c) = Inr f"
      "stream_send_emit out (ts_tx c) = Inr (s', out', n, fin)"
| tr_deliver: "transfer S L maxd win (c\<lparr>ts_rx := r', ts_got := insert b (ts_got c)\<rparr>)"
    if "transfer S L maxd win c" "b \<in> ts_net c" "stream_write b (ts_rx c) = Inr r'"
| tr_ack: "transfer S L maxd win (c\<lparr>ts_tx := s'\<rparr>)"
    if "transfer S L maxd win c" "b \<in> ts_got c" "stream_ack_and_drop (rb_off b) (rb_len b) (ts_tx c) = Inr s'"
| tr_lost: "transfer S L maxd win (c\<lparr>ts_tx := s'\<rparr>)"
    if "transfer S L maxd win c" "b \<in> ts_net c" "SendBuf_retransmit (rb_off b) (rb_len b) (ts_tx c) = Inr s'"
| tr_read: "transfer S L maxd win (c\<lparr>ts_rx := r', ts_read := ts_read c @ bytes\<rparr>)"
    if "transfer S L maxd win c" "stream_emit cap (ts_rx c) = (r', Inr (bytes, fin))"
| tr_grant: "transfer S L maxd win (c\<lparr>ts_rx := r', ts_limits := insert (max_data (rv_flow r')) (ts_limits c)\<rparr>)"
    if "transfer S L maxd win c" "RecvBuf_almost_full (ts_rx c) = Inr True"
      "RecvBuf_update_max_data now (ts_rx c) = Inr r'"
| tr_granted: "transfer S L maxd win (c\<lparr>ts_tx := SendBuf_update_max_data m (ts_tx c)\<rparr>)"
    if "transfer S L maxd win c" "m \<in> ts_limits c"
| tr_blocked: "transfer S L maxd win (c\<lparr>ts_tx := SendBuf_update_blocked_at o' (ts_tx c)\<rparr>)"
    if "transfer S L maxd win c"
| tr_autotune: "transfer S L maxd win (c\<lparr>ts_rx := r'\<rparr>)"
    if "transfer S L maxd win c" "RecvBuf_autotune_window now rtt (ts_rx c) = Inr r'"

section \<open>The invariant\<close>

text \<open>Both sides are in a run of their own. What is in the network was sent; what arrived was
  received; what is acknowledged was received; and the sender stays below the limit of the
  receiver.\<close>

definition net_ok :: "(nat \<Rightarrow> 8 word) \<Rightarrow> nat \<Rightarrow> transfer_state \<Rightarrow> nat set \<Rightarrow> nat set \<Rightarrow> bool" where
  "net_ok S L c T R \<longleftrightarrow>
     (\<forall>b \<in> ts_net c. from_sender S L b \<and> rb_span b \<subseteq> T \<and> rb_max b \<le> sd_off (ts_tx c)) \<and>
     (\<forall>b \<in> ts_got c. b \<in> ts_net c \<and> rb_span b \<subseteq> R)"

definition limits_ok :: "transfer_state \<Rightarrow> bool" where
  "limits_ok c \<longleftrightarrow> sd_off (ts_tx c) \<le> sd_max_data (ts_tx c) \<and> sd_off (ts_tx c) < u64_size \<and>
     sd_max_data (ts_tx c) \<le> max_data (rv_flow (ts_rx c)) \<and> rv_len (ts_rx c) \<le> sd_off (ts_tx c) \<and>
     (\<forall>m \<in> ts_limits c. m \<le> max_data (rv_flow (ts_rx c)))"

definition transfer_inv ::
  "(nat \<Rightarrow> 8 word) \<Rightarrow> nat \<Rightarrow> nat \<Rightarrow> nat \<Rightarrow> transfer_state \<Rightarrow> nat set \<Rightarrow> nat set \<Rightarrow> nat set \<Rightarrow> nat set \<Rightarrow> bool" where
  "transfer_inv S L maxd win c T F A R \<longleftrightarrow>
     send_run S L maxd (ts_tx c) T F A \<and>
     recv_run S L (RecvBuf_new maxd win) (ts_rx c) R (ts_read c) \<and>
     A \<subseteq> R \<and> net_ok S L c T R \<and> limits_ok c"

lemma transfer_inv_start: "transfer_inv S L maxd win (transfer_init maxd win) {} {} {} {}"
  using send_start recv_start
  by (simp add: transfer_inv_def transfer_init_def net_ok_def limits_ok_def SendBuf_new_def RecvBuf_new_def
      FlowControl_new_def)

text \<open>The sender's offsets.\<close>

lemma send_write_limits:
  assumes "send_run S L maxd s T F A" "data = map S [sd_off s ..< sd_off s + length data]"
    "SendBuf_write data fin s = Inr (s', k)"
  shows "sd_off s \<le> sd_off s'" "sd_off s' \<le> sd_max_data s'" "sd_max_data s' = sd_max_data s"
    "sd_off s' < u64_size"
proof -
  obtain a where inv: "send_inv S L s a T F A" using send_run_inv [OF assms(1)] by blast
  then have ok: "send_ok S a s" by (simp add: send_inv_def)
  note W = write_spec [OF assms(3) ok assms(2) send_inv_ack_off [OF inv]]
  have "sd_off s + length data < u64_size"
    using assms(3) by (auto simp: SendBuf_write_def checked_add_eq_Inr split: if_splits)
  with W show "sd_off s \<le> sd_off s'" "sd_off s' \<le> sd_max_data s'" "sd_max_data s' = sd_max_data s"
    "sd_off s' < u64_size" by auto
qed

lemma send_keeps_limits:
  assumes "send_run S L maxd s T F A"
  shows "stream_send_emit out s = Inr (s', r) \<Longrightarrow> sd_off s' = sd_off s \<and> sd_max_data s' = sd_max_data s"
    "stream_ack_and_drop off len s = Inr s' \<Longrightarrow> sd_off s' = sd_off s \<and> sd_max_data s' = sd_max_data s"
    "SendBuf_retransmit off len s = Inr s' \<Longrightarrow> sd_off s' = sd_off s \<and> sd_max_data s' = sd_max_data s"
proof -
  obtain a where inv: "send_inv S L s a T F A" using send_run_inv [OF assms] by blast
  then have ok: "send_ok S a s" "sd_fc s = None" "\<not> sd_fc_stream_rotate s" "rs_ok (sd_acked s)"
    by (auto simp: send_inv_def)
  show "sd_off s' = sd_off s \<and> sd_max_data s' = sd_max_data s" if "stream_send_emit out s = Inr (s', r)"
    using emit_spec [OF ok(1,2), of inner_emit out] that
    by (auto simp: stream_send_emit_def sends_def dest: send_frame_sel)
  show "sd_off s' = sd_off s \<and> sd_max_data s' = sd_max_data s" if "stream_ack_and_drop off len s = Inr s'"
    using ack_and_drop_spec [OF that ok] by (auto dest: send_frame_sel)
  show "sd_off s' = sd_off s \<and> sd_max_data s' = sd_max_data s" if "SendBuf_retransmit off len s = Inr s'"
    using retransmit_spec [OF that ok(1)] by (auto dest: send_frame_sel)
qed

text \<open>What an emission sends.\<close>

lemma emit_from_sender:
  assumes run: "send_run S L maxd s T F A" and bnd: "sd_off s < u64_size"
    and e: "off_front s = Inr f" "stream_send_emit out s = Inr (s', out', n, fin)"
  defines "b \<equiv> RangeBuf_from (take n out') f fin"
  shows "from_sender S L b" "rb_span b = {f ..< f + n}" "rb_max b \<le> sd_off s"
proof -
  obtain a where inv: "send_inv S L s a T F A" using send_run_inv [OF run] by blast
  have x: "n \<le> length out" "length out' = length out" "take n out' = map S [f ..< f + n]" "f + n \<le> sd_off s"
      "fin \<longleftrightarrow> sd_fin_off s = Some (f + n)"
    by (rule send_inv_emit [OF inv, of out]; use e in auto)+
  have len: "length (take n out') = n" using x by simp
  show "rb_span b = {f ..< f + n}" unfolding b_def from_span len ..
  show max: "rb_max b \<le> sd_off s" using x(4) len by (simp add: b_def rb_max_def)
  have "rb_max b = f + n" using len by (simp add: b_def rb_max_def)
  moreover have "rb_max b \<le> L" "fin \<longrightarrow> f + n = L" using max inv x(5) by (auto simp: send_inv_def)
  moreover have "incoming S b"
    using x(3,4) len bnd by (simp add: b_def incoming_def agrees_def rb_max_def) (simp add: RangeBuf_from_def rb_wf_def)
  moreover have "rb_fin b = fin" by (simp add: b_def RangeBuf_from_def)
  ultimately show "from_sender S L b" by (simp add: from_sender_def)
qed

text \<open>The receiver accepts everything the sender sends within its limit.\<close>

lemma recv_accepts:
  assumes run: "recv_run S L (RecvBuf_new maxd win) r R out" and b: "from_sender S L b"
    and lim: "rb_max b \<le> max_data (rv_flow r)"
  obtains r' where "stream_write b r = Inr r'" "rv_flow r' = rv_flow r" "rv_len r' \<le> max (rv_len r) (rb_max b)"
proof -
  have inv: "recv_inv S L r R out" using run by (rule recv_run_inv)
  then have "\<not> final_size_violated b r"
    using b by (auto simp: recv_inv_def from_sender_def final_size_violated_def)
  moreover obtain d l where "absorbs S b r d l"
    "stream_write b r = (if max_data (rv_flow r) < rb_max b then err FlowControlError
       else if final_size_violated b r then err FinalSize
       else Inr ((set_fin b r)\<lparr>rv_data := d, rv_len := l\<rparr>))"
    using write_plain [of S r b inner_write fc_loop_recv] inv b
    by (auto simp: recv_inv_def from_sender_def stream_write_def)
  ultimately show ?thesis using that lim by (auto simp: absorbs_def)
qed

lemma sender_range: "from_sender S L b \<Longrightarrow> {rb_off b ..< rb_off b + rb_len b} = rb_span b"
  by (auto simp: from_sender_def rb_span_def incomingD)

lemma transfer_inv_write:
  assumes inv: "transfer_inv S L maxd win c T F A R"
    and data: "data = map S [sd_off (ts_tx c) ..< sd_off (ts_tx c) + length data]"
      "sd_off (ts_tx c) + length data \<le> L" "fin \<longrightarrow> sd_off (ts_tx c) + length data = L"
    and w: "SendBuf_write data fin (ts_tx c) = Inr (s', k)"
  shows "transfer_inv S L maxd win (c\<lparr>ts_tx := s'\<rparr>) T F A R"
proof -
  have run: "send_run S L maxd (ts_tx c) T F A" using inv by (simp add: transfer_inv_def)
  note l = send_write_limits [OF run data(1) w]
  have "send_run S L maxd s' T F A" by (rule send_write [OF run data w])
  then show ?thesis using inv l by (auto simp: transfer_inv_def net_ok_def limits_ok_def)
qed

lemma transfer_inv_emit:
  assumes inv: "transfer_inv S L maxd win c T F A R"
    and e: "off_front (ts_tx c) = Inr f" "stream_send_emit out (ts_tx c) = Inr (s', out', n, fin)"
  shows "transfer_inv S L maxd win
    (c\<lparr>ts_tx := s', ts_net := insert (RangeBuf_from (take n out') f fin) (ts_net c)\<rparr>)
    (T \<union> {f ..< f + n}) (F \<union> {f ..< f + n}) A R"
proof -
  have run: "send_run S L maxd (ts_tx c) T F A" and bnd: "sd_off (ts_tx c) < u64_size"
    using inv by (auto simp: transfer_inv_def limits_ok_def)
  note l = send_keeps_limits(1) [OF run e(2)] and b = emit_from_sender [OF run bnd e]
  have "send_run S L maxd s' (T \<union> {f ..< f + n}) (F \<union> {f ..< f + n}) A" by (rule send_emit [OF run e])
  moreover have "net_ok S L (c\<lparr>ts_tx := s', ts_net := insert (RangeBuf_from (take n out') f fin) (ts_net c)\<rparr>)
      (T \<union> {f ..< f + n}) R"
    using inv l b by (fastforce simp: transfer_inv_def net_ok_def)
  ultimately show ?thesis using inv l by (simp add: transfer_inv_def limits_ok_def)
qed

lemma transfer_inv_deliver:
  assumes inv: "transfer_inv S L maxd win c T F A R" and b: "b \<in> ts_net c"
    and w: "stream_write b (ts_rx c) = Inr r'"
  shows "transfer_inv S L maxd win (c\<lparr>ts_rx := r', ts_got := insert b (ts_got c)\<rparr>) T F A (R \<union> rb_span b)"
proof -
  have run: "recv_run S L (RecvBuf_new maxd win) (ts_rx c) R (ts_read c)"
    and f: "from_sender S L b" "rb_max b \<le> sd_off (ts_tx c)" and lim: "limits_ok c"
    using inv b by (auto simp: transfer_inv_def net_ok_def)
  obtain r where "stream_write b (ts_rx c) = Inr r" "rv_flow r = rv_flow (ts_rx c)"
      "rv_len r \<le> max (rv_len (ts_rx c)) (rb_max b)"
    by (rule recv_accepts [OF run f(1)]) (use lim f(2) in \<open>auto simp: limits_ok_def\<close>)
  then have r': "rv_flow r' = rv_flow (ts_rx c)" "rv_len r' \<le> max (rv_len (ts_rx c)) (rb_max b)"
    using w by auto
  have "recv_run S L (RecvBuf_new maxd win) r' (R \<union> rb_span b) (ts_read c)"
    by (rule recv_write [OF run f(1) w])
  then show ?thesis using inv b f(2) r' by (auto simp: transfer_inv_def net_ok_def limits_ok_def)
qed

lemma transfer_inv_ack:
  assumes inv: "transfer_inv S L maxd win c T F A R" and b: "b \<in> ts_got c"
    and w: "stream_ack_and_drop (rb_off b) (rb_len b) (ts_tx c) = Inr s'"
  shows "transfer_inv S L maxd win (c\<lparr>ts_tx := s'\<rparr>) T (F - rb_span b) (A \<union> rb_span b) R"
proof -
  have run: "send_run S L maxd (ts_tx c) T F A" and sp: "rb_span b \<subseteq> T" "rb_span b \<subseteq> R"
    and f: "from_sender S L b"
    using inv b by (auto simp: transfer_inv_def net_ok_def)
  note eq = sender_range [OF f]
  have "send_run S L maxd s' T (F - rb_span b) (A \<union> rb_span b)"
    using send_ack [OF run _ w] sp(1) unfolding eq by blast
  then show ?thesis
    using inv sp(2) send_keeps_limits(2) [OF run w] by (auto simp: transfer_inv_def net_ok_def limits_ok_def)
qed

lemma transfer_inv_lost:
  assumes inv: "transfer_inv S L maxd win c T F A R"
    and w: "SendBuf_retransmit off len (ts_tx c) = Inr s'"
  shows "transfer_inv S L maxd win (c\<lparr>ts_tx := s'\<rparr>) T (F - {off ..< off + len}) A R"
proof -
  have run: "send_run S L maxd (ts_tx c) T F A" using inv by (simp add: transfer_inv_def)
  then show ?thesis
    using inv send_keeps_limits(3) [OF run w] send_lost [OF run w]
    by (auto simp: transfer_inv_def net_ok_def limits_ok_def)
qed

lemma emit_plain:
  assumes inv: "recv_inv S L r R out" and e: "stream_emit cap r = (r', Inr (bytes, fin))"
  obtains r1 fc where "emit_loop cap [] r = Inr (bytes, r1)" "add_consumed (length bytes) (rv_flow r1) = Inr fc"
    "r' = r1\<lparr>rv_flow := fc\<rparr>" "rv_flow r1 = rv_flow r" "rv_len r1 = rv_len r" "fin = RecvBuf_is_fin r'"
proof -
  have ok: "data_ok S r" "rv_error r = None" "limit r = None" "rv_fc r = None"
    using inv by (auto simp: recv_inv_def limit_def)
  obtain n r1 where l: "emit_loop cap [] r = Inr ([] @ map S [rv_off r ..< rv_off r + n], r1)" "emitted S cap r n r1"
    using emit_loop_spec [OF ok(1), of cap "[]"] ok(3) by auto
  have r1: "rv_flow r1 = rv_flow r" "rv_len r1 = rv_len r" "rv_fc r1 = None"
    using l(2) ok(4) by (auto simp: emitted_def)
  show ?thesis
    using e l(1) ok(2) r1 that
    by (auto simp: stream_emit_def RecvBuf_emit_def Let_def split: sum.splits bool.splits if_splits)
qed

lemma recv_emit_keeps:
  assumes "recv_run S L (RecvBuf_new maxd win) r R out" "stream_emit cap r = (r', Inr (bytes, fin))"
  shows "max_data (rv_flow r') = max_data (rv_flow r)" "rv_len r' = rv_len r"
    "fin \<longrightarrow> rv_off r' = L"
proof -
  have inv: "recv_inv S L r R out" "recv_inv S L r' R (out @ bytes)"
    using recv_run_inv [OF assms(1)] recv_inv_emit assms(2) by blast+
  obtain r1 fc where e: "add_consumed (length bytes) (rv_flow r1) = Inr fc" "r' = r1\<lparr>rv_flow := fc\<rparr>"
      "rv_flow r1 = rv_flow r" "rv_len r1 = rv_len r" "fin = RecvBuf_is_fin r'"
    using emit_plain [OF inv(1) assms(2)] by metis
  then show "max_data (rv_flow r') = max_data (rv_flow r)" "rv_len r' = rv_len r"
    by (auto simp: add_consumed_def)
  show "fin \<longrightarrow> rv_off r' = L" using e(5) inv(2) by (auto simp: RecvBuf_is_fin_def recv_inv_def)
qed

lemma transfer_inv_read:
  assumes inv: "transfer_inv S L maxd win c T F A R" and e: "stream_emit cap (ts_rx c) = (r', Inr (bytes, fin))"
  shows "transfer_inv S L maxd win (c\<lparr>ts_rx := r', ts_read := ts_read c @ bytes\<rparr>) T F A R"
proof -
  have run: "recv_run S L (RecvBuf_new maxd win) (ts_rx c) R (ts_read c)"
    using inv by (simp add: transfer_inv_def)
  then show ?thesis
    using inv recv_emit_keeps(1,2) [OF run e] recv_emit [OF run e]
    by (simp add: transfer_inv_def net_ok_def limits_ok_def)
qed

lemma transfer_inv_flow:
  assumes inv: "transfer_inv S L maxd win c T F A R" and r': "r' = (ts_rx c)\<lparr>rv_flow := fc\<rparr>"
    and lim: "max_data (rv_flow (ts_rx c)) \<le> max_data fc" "\<forall>m \<in> M. m \<le> max_data fc"
    and run: "recv_run S L (RecvBuf_new maxd win) r' R (ts_read c)"
  shows "transfer_inv S L maxd win (c\<lparr>ts_rx := r', ts_limits := M \<union> ts_limits c\<rparr>) T F A R"
  using inv run lim by (auto simp: transfer_inv_def net_ok_def limits_ok_def r')

text \<open>The limit is only raised.\<close>

lemma update_raises:
  assumes "RecvBuf_almost_full r = Inr True" "update_max_data now (rv_flow r) = Inr fc"
  shows "max_data (rv_flow r) \<le> max_data fc"
  using assms
  by (auto simp: RecvBuf_almost_full_def should_update_max_data_def update_max_data_def max_data_next_def
      checked_sub_eq_Inr checked_add_eq_Inr split: if_splits)

lemma autotune_max_data: "autotune_window now rtt fc = Inr fc' \<Longrightarrow> max_data fc' = max_data fc"
  by (auto simp: autotune_window_def split: option.splits if_splits)

lemma transfer_inv_grant:
  assumes inv: "transfer_inv S L maxd win c T F A R" and g: "RecvBuf_almost_full (ts_rx c) = Inr True"
    "RecvBuf_update_max_data now (ts_rx c) = Inr r'"
  shows "transfer_inv S L maxd win (c\<lparr>ts_rx := r', ts_limits := insert (max_data (rv_flow r')) (ts_limits c)\<rparr>) T F A R"
proof -
  obtain fc where fc: "update_max_data now (rv_flow (ts_rx c)) = Inr fc" "r' = (ts_rx c)\<lparr>rv_flow := fc\<rparr>"
    using g(2) by (auto simp: RecvBuf_update_max_data_def)
  have "recv_run S L (RecvBuf_new maxd win) r' R (ts_read c)"
    using inv g(2) recv_update by (auto simp: transfer_inv_def)
  from transfer_inv_flow [OF inv fc(2) update_raises [OF g(1) fc(1)] _ this, of "{max_data fc}"]
  show ?thesis by (simp add: fc(2))
qed

lemma transfer_inv_autotune:
  assumes inv: "transfer_inv S L maxd win c T F A R" and g: "RecvBuf_autotune_window now rtt (ts_rx c) = Inr r'"
  shows "transfer_inv S L maxd win (c\<lparr>ts_rx := r'\<rparr>) T F A R"
proof -
  obtain fc where fc: "autotune_window now rtt (rv_flow (ts_rx c)) = Inr fc" "r' = (ts_rx c)\<lparr>rv_flow := fc\<rparr>"
    using g by (auto simp: RecvBuf_autotune_window_def)
  have "recv_run S L (RecvBuf_new maxd win) r' R (ts_read c)"
    using inv g recv_autotune by (auto simp: transfer_inv_def)
  from transfer_inv_flow [OF inv fc(2) _ _ this, of "{}"] autotune_max_data [OF fc(1)] show ?thesis by simp
qed

lemma transfer_inv_granted:
  assumes inv: "transfer_inv S L maxd win c T F A R" and m: "m \<in> ts_limits c"
  shows "transfer_inv S L maxd win (c\<lparr>ts_tx := SendBuf_update_max_data m (ts_tx c)\<rparr>) T F A R"
proof -
  have "send_run S L maxd (SendBuf_update_max_data m (ts_tx c)) T F A"
    using inv send_max_data by (simp add: transfer_inv_def)
  then show ?thesis
    using inv m by (auto simp: transfer_inv_def net_ok_def limits_ok_def SendBuf_update_max_data_def)
qed

lemma transfer_inv_blocked:
  "transfer_inv S L maxd win c T F A R \<Longrightarrow>
     transfer_inv S L maxd win (c\<lparr>ts_tx := SendBuf_update_blocked_at x (ts_tx c)\<rparr>) T F A R"
  using send_blocked by (fastforce simp: transfer_inv_def net_ok_def limits_ok_def SendBuf_update_blocked_at_def)

lemma transfer_run_inv: "transfer S L maxd win c \<Longrightarrow> \<exists>T F A R. transfer_inv S L maxd win c T F A R"
proof (induction rule: transfer.induct)
  case tr_start
  show ?case using transfer_inv_start by blast
next
  case (tr_write c data fin s' k)
  then show ?case using transfer_inv_write by blast
next
  case (tr_emit c f out s' out' n fin)
  then show ?case using transfer_inv_emit by blast
next
  case (tr_deliver c b r')
  then show ?case using transfer_inv_deliver by blast
next
  case (tr_ack c b s')
  then show ?case using transfer_inv_ack by blast
next
  case (tr_lost c b s')
  then show ?case using transfer_inv_lost by blast
next
  case (tr_read c cap r' bytes fin)
  then show ?case using transfer_inv_read by blast
next
  case (tr_grant c now r')
  then show ?case using transfer_inv_grant by blast
next
  case (tr_granted c m)
  then show ?case using transfer_inv_granted by blast
next
  case (tr_blocked c x)
  then show ?case using transfer_inv_blocked by blast
next
  case (tr_autotune c now rtt r')
  then show ?case using transfer_inv_autotune by blast
qed

section \<open>Properties\<close>

text \<open>A sender that considers the stream complete has every byte acknowledged.\<close>

lemma send_complete_sound:
  assumes run: "send_run S L maxd s T F A" and c: "SendBuf_is_complete s = Inr True"
  shows "A = {..< L}" "sd_off s = L"
proof -
  obtain a where inv: "send_inv S L s a T F A" using send_run_inv [OF run] by blast
  then have none: "sd_fc s = None" "sd_fc_max_offset s = None" by (auto simp: send_inv_def)
  with c obtain l where l: "sd_fin_off s = Some l" "RangeSet_eq_range (sd_acked s) (0, l)"
    by (auto simp: SendBuf_is_complete_def acks_complete_def split: option.splits if_splits)
  with inv have L: "l = L" "sd_off s = L" by (auto simp: send_inv_def)
  show "sd_off s = L" by (rule L(2))
  have "(0, l) \<in> set (RangeSet_iter (sd_acked s))"
    using l(2) by (cases "RangeSet_iter (sd_acked s)"; cases "sd_acked s") (auto simp: RangeSet_eq_range_def)
  then have "{0 ..< l} \<subseteq> rs_covered (sd_acked s)" by (force simp: rs_covered_def covered_def)
  then show "A = {..< L}" using inv L unfolding send_inv_def by (auto simp: lessThan_atLeast0)
qed

text \<open>C6: A sender and a receiver of a stream, joined by a network that loses, repeats and reorders
  packets, whatever the order of writes, transmissions, deliveries, acknowledgments, losses
  declared rightly or wrongly, reads and flow-control updates: the bytes read are the beginning
  of the stream written; the receiver accepts every packet of the sender, with no flow-control
  or final-size error; a read that reports the end has delivered the whole stream; and once the
  sender considers the stream complete, one more read delivers all that is left of it.\<close>

theorem stream_transfer:
  assumes "transfer S L maxd win c"
  shows "ts_read c = map S [0 ..< length (ts_read c)] \<and> length (ts_read c) \<le> sd_off (ts_tx c) \<and>
    (\<forall>b \<in> ts_net c. \<exists>r'. stream_write b (ts_rx c) = Inr r') \<and>
    (\<forall>cap r' bytes. stream_emit cap (ts_rx c) = (r', Inr (bytes, True)) \<longrightarrow>
       ts_read c @ bytes = map S [0 ..< L] \<and> sd_off (ts_tx c) = L) \<and>
    (SendBuf_is_complete (ts_tx c) = Inr True \<and> length (ts_read c) < L \<longrightarrow>
       (\<exists>r' bytes fin. stream_emit (L - length (ts_read c)) (ts_rx c) = (r', Inr (bytes, fin)) \<and>
          ts_read c @ bytes = map S [0 ..< L]))"
proof -
  obtain T F A R where inv: "transfer_inv S L maxd win c T F A R" using transfer_run_inv [OF assms] by blast
  then have tx: "send_run S L maxd (ts_tx c) T F A" and net: "net_ok S L c T R" and lim: "limits_ok c"
    and rx: "recv_run S L (RecvBuf_new maxd win) (ts_rx c) R (ts_read c)" and AR: "A \<subseteq> R"
    by (auto simp: transfer_inv_def)
  have r: "recv_inv S L (ts_rx c) R (ts_read c)" by (rule recv_run_inv [OF rx])
  then have rd: "ts_read c = map S [0 ..< rv_off (ts_rx c)]" "rv_off (ts_rx c) \<le> rv_len (ts_rx c)"
    by (auto simp: recv_inv_def)
  have "ts_read c @ bytes = map S [0 ..< L] \<and> sd_off (ts_tx c) = L"
    if e: "stream_emit cap (ts_rx c) = (r', Inr (bytes, True))" for cap r' bytes
  proof -
    have L: "rv_off r' = L" "rv_len r' = rv_len (ts_rx c)" using recv_emit_keeps [OF rx e] by auto
    moreover have "recv_inv S L r' R (ts_read c @ bytes)" by (rule recv_inv_emit [OF r e])
    moreover have "sd_off (ts_tx c) \<le> L" using send_run_inv [OF tx] by (auto simp: send_inv_def)
    ultimately show ?thesis using lim by (auto simp: recv_inv_def limits_ok_def)
  qed
  moreover have "\<exists>r'. stream_write b (ts_rx c) = Inr r'" if "b \<in> ts_net c" for b
    by (rule recv_accepts [OF rx, of b]) (use net lim that in \<open>auto simp: net_ok_def limits_ok_def\<close>)
  moreover have "\<exists>r' bytes fin. stream_emit (L - length (ts_read c)) (ts_rx c) = (r', Inr (bytes, fin)) \<and>
      ts_read c @ bytes = map S [0 ..< L]"
    if "SendBuf_is_complete (ts_tx c) = Inr True" "length (ts_read c) < L"
  proof -
    have o: "rv_off (ts_rx c) < L" using that(2) rd(1) by simp
    have all: "{..< L} \<subseteq> R" using send_complete_sound(1) [OF tx that(1)] AR by simp
    then have "rv_off (ts_rx c) \<in> R" using o by auto
    then have "RecvBuf_ready (ts_rx c) = Inr True"
      using not_ready_not_held [of S "ts_rx c"] ready_iff [of S "ts_rx c"] r by (auto simp: recv_inv_def)
    then obtain n r' where e: "stream_emit (L - length (ts_read c)) (ts_rx c) = (r',
          Inr (map S [rv_off (ts_rx c) ..< rv_off (ts_rx c) + n], rv_fin_off (ts_rx c) = Some (rv_off (ts_rx c) + n)))"
        "n \<le> L - length (ts_read c)" "n = L - length (ts_read c) \<or> rv_off (ts_rx c) + n \<notin> R"
      using recv_inv_emit_ready [OF r] by blast
    have len: "length (ts_read c) = rv_off (ts_rx c)" using rd(1) by (metis diff_zero length_map length_upt)
    have "\<not> rv_off (ts_rx c) + n < L" if "rv_off (ts_rx c) + n \<notin> R" using that all by auto
    then have "rv_off (ts_rx c) + n = L" using e(2,3) o unfolding len by linarith
    then have "ts_read c @ map S [rv_off (ts_rx c) ..< rv_off (ts_rx c) + n] = map S [0 ..< L]"
      using rd(1) upt_extend by metis
    with e(1) show ?thesis by blast
  qed
  moreover have "ts_read c = map S [0 ..< length (ts_read c)]" using rd(1) by (metis diff_zero length_map length_upt)
  moreover have "length (ts_read c) \<le> sd_off (ts_tx c)"
    using rd lim by (metis diff_zero le_trans length_map length_upt limits_ok_def)
  ultimately show ?thesis by blast
qed

text \<open>Three bytes are sent in one packet, which arrives and is acknowledged.\<close>

lemmas ack_eval = stream_ack_and_drop_def SendBuf_ack_and_drop_def ack_inner_def SendBuf_ack_def
  drop_acked_def drop_for.simps take_inner_send_def SendBuf_is_complete_def acks_complete_def
  RangeSet_eq_range_def inline_insert_at.simps InlineRangeSet_insert_def

lemma sample_transfer_ops:
  "\<exists>s1 s2 s3. SendBuf_write [7, 8, 9] True (SendBuf_new 100) = Inr (s1, 3) \<and> off_front s1 = Inr 0 \<and>
     stream_send_emit [0, 0, 0] s1 = Inr (s2, [7, 8, 9], 3, True) \<and>
     stream_ack_and_drop 0 3 s2 = Inr s3 \<and> SendBuf_is_complete s3 = Inr True"
  by (auto simp add: send_eval ack_eval upt_rec)

lemma sample_transfer_recv:
  "\<exists>r. stream_write (RangeBuf_from [7, 8, 9] 0 True) (RecvBuf_new 100 100) = Inr r"
  by (simp add: recv_eval)

theorem stream_transfer_witness:
  "\<exists>c r' fin. transfer sample_bytes 3 100 100 c \<and> SendBuf_is_complete (ts_tx c) = Inr True \<and>
     stream_emit 3 (ts_rx c) = (r', Inr (map sample_bytes [0 ..< 3], fin))"
proof -
  obtain s1 s2 s3 where s: "SendBuf_write [7, 8, 9] True (SendBuf_new 100) = Inr (s1, 3)" "off_front s1 = Inr 0"
      "stream_send_emit [0, 0, 0] s1 = Inr (s2, [7, 8, 9], 3, True)" "stream_ack_and_drop 0 3 s2 = Inr s3"
      "SendBuf_is_complete s3 = Inr True"
    using sample_transfer_ops by blast
  obtain r where r: "stream_write (RangeBuf_from [7, 8, 9] 0 True) (RecvBuf_new 100 100) = Inr r"
    using sample_transfer_recv by blast
  let ?b = "RangeBuf_from [7, 8, 9] 0 True"
  let ?c = "transfer_init 100 100"
  have "transfer sample_bytes 3 100 100 (?c\<lparr>ts_tx := s1\<rparr>)"
    by (rule tr_write [where data = "[7, 8, 9]" and fin = True, OF tr_start])
      (use s(1) in \<open>simp_all add: transfer_init_def SendBuf_new_def upt_rec sample_bytes_def\<close>)
  from tr_emit [OF this, where f = 0 and out = "[0, 0, 0]" and s' = s2 and out' = "[7, 8, 9]" and n = 3 and fin = True]
  have "transfer sample_bytes 3 100 100 (?c\<lparr>ts_tx := s2, ts_net := {?b}\<rparr>)"
    using s(2,3) by (simp add: transfer_init_def)
  from tr_deliver [OF this, where b = ?b and r' = r]
  have "transfer sample_bytes 3 100 100 (?c\<lparr>ts_tx := s2, ts_net := {?b}, ts_rx := r, ts_got := {?b}\<rparr>)"
    using r by (simp add: transfer_init_def)
  from tr_ack [OF this, where b = ?b and s' = s3] s(4)
  have c: "transfer sample_bytes 3 100 100 (?c\<lparr>ts_tx := s3, ts_net := {?b}, ts_rx := r, ts_got := {?b}\<rparr>)"
    by (simp add: transfer_init_def RangeBuf_from_def numeral_3_eq_3)
  from stream_transfer [OF c] s(5) obtain r' fin where
    "stream_emit 3 r = (r', Inr (map sample_bytes [0 ..< 3], fin))"
    by (auto simp: transfer_init_def)
  with c s(5) show ?thesis
    by (intro exI [of _ "?c\<lparr>ts_tx := s3, ts_net := {?b}, ts_rx := r, ts_got := {?b}\<rparr>"]) auto
qed


end
