(* ===== verification/Cid.thy ===== *)
theory Cid
  imports Fc_Send Flow_Control
begin

text \<open>
  Connection identifiers, \<open>quiche/src/cid.rs\<close>: the bounded collections, the identifiers of one
  path (\<open>PathConnectionIdentifiers\<close>) and of a connection (\<open>ConnectionIdentifiers\<close>), and the loops of
  \<open>send_single\<close> that advertise and retire them.

  An operation that changes its receiver before it fails returns the changed state with the
  error. Two choices of the standard library are left open: the order of a \<open>HashSet\<close> (the
  argument \<open>pick\<close>) and the answer of \<open>partition_point\<close> on a list that is not partitioned (the
  argument \<open>pp\<close>, with the laws \<open>partition_search\<close>).
\<close>

section \<open>Bounded collections\<close>

text \<open>\<open>BoundedConnectionIdSeqSet\<close>.\<close>

record seq_set =
  ss_inner :: "nat set"
  ss_capacity :: nat

definition SeqSet_new :: "nat \<Rightarrow> seq_set" where
  "SeqSet_new capacity = \<lparr>ss_inner = {}, ss_capacity = capacity\<rparr>"

definition SeqSet_insert :: "nat \<Rightarrow> seq_set \<Rightarrow> seq_set result" where
  "SeqSet_insert e s =
     (if card (ss_inner s) \<ge> ss_capacity s then err IdLimit
      else Inr (s\<lparr>ss_inner := insert e (ss_inner s)\<rparr>))"

definition SeqSet_remove :: "nat \<Rightarrow> seq_set \<Rightarrow> seq_set" where
  "SeqSet_remove e s = s\<lparr>ss_inner := ss_inner s - {e}\<rparr>"

definition SeqSet_front :: "(nat set \<Rightarrow> nat) \<Rightarrow> seq_set \<Rightarrow> nat option" where
  "SeqSet_front pick s = (if ss_inner s = {} then None else Some (pick (ss_inner s)))"

text \<open>\<open>BoundedNonEmptyVecDeque\<close>; \<open>idf\<close> is \<open>Identifiable::id\<close>.\<close>

record 'a bounded_deque =
  bd_inner :: "'a list"
  bd_capacity :: nat

definition Deque_new :: "nat \<Rightarrow> 'a \<Rightarrow> 'a bounded_deque" where
  "Deque_new capacity e = \<lparr>bd_inner = [e], bd_capacity = capacity\<rparr>"

definition Deque_resize :: "nat \<Rightarrow> 'a bounded_deque \<Rightarrow> 'a bounded_deque" where
  "Deque_resize n d = (if n > bd_capacity d then d\<lparr>bd_capacity := n\<rparr> else d)"

definition Deque_get_oldest :: "'a bounded_deque \<Rightarrow> 'a result" where
  "Deque_get_oldest d = (case bd_inner d of [] \<Rightarrow> panic | e # _ \<Rightarrow> Inr e)"

definition Deque_get :: "('a \<Rightarrow> nat) \<Rightarrow> nat \<Rightarrow> 'a bounded_deque \<Rightarrow> 'a option" where
  "Deque_get idf i d = find (\<lambda>e. idf e = i) (bd_inner d)"

text \<open>A write through \<open>get_mut\<close>.\<close>

fun modify_first :: "('a \<Rightarrow> bool) \<Rightarrow> ('a \<Rightarrow> 'a) \<Rightarrow> 'a list \<Rightarrow> 'a list" where
  "modify_first P f [] = []"
| "modify_first P f (x # xs) = (if P x then f x # xs else x # modify_first P f xs)"

definition Deque_insert :: "('a \<Rightarrow> nat) \<Rightarrow> 'a \<Rightarrow> 'a bounded_deque \<Rightarrow> 'a bounded_deque result" where
  "Deque_insert idf e d =
     (if Deque_get idf (idf e) d \<noteq> None
      then Inr (d\<lparr>bd_inner := modify_first (\<lambda>x. idf x = idf e) (\<lambda>_. e) (bd_inner d)\<rparr>)
      else if length (bd_inner d) \<ge> bd_capacity d then err IdLimit
      else Inr (d\<lparr>bd_inner := bd_inner d @ [e]\<rparr>))"

definition Deque_clear_and_insert :: "'a \<Rightarrow> 'a bounded_deque \<Rightarrow> 'a bounded_deque" where
  "Deque_clear_and_insert e d = d\<lparr>bd_inner := [e]\<rparr>"

fun remove_first :: "('a \<Rightarrow> bool) \<Rightarrow> 'a list \<Rightarrow> 'a list" where
  "remove_first P [] = []"
| "remove_first P (x # xs) = (if P x then xs else x # remove_first P xs)"

definition Deque_remove ::
  "('a \<Rightarrow> nat) \<Rightarrow> nat \<Rightarrow> bool \<Rightarrow> 'a bounded_deque \<Rightarrow> ('a bounded_deque \<times> 'a option) result" where
  "Deque_remove idf i allow_empty d =
     (if length (bd_inner d) \<le> 1 then
        (if allow_empty then Inr (d, None) else err OutOfIdentifiers)
      else
        Inr (d\<lparr>bd_inner := remove_first (\<lambda>e. idf e = i) (bd_inner d)\<rparr>,
             find (\<lambda>e. idf e = i) (bd_inner d)))"

section \<open>The identifiers of a path\<close>

text \<open>\<open>std::net::SocketAddr\<close>; a version 6 address has flow information and a scope.\<close>

datatype socket_addr =
    SocketV4 "32 word" "16 word"
  | SocketV6 "128 word" "16 word" "32 word" "32 word"

type_synonym four_tuple = "socket_addr \<times> socket_addr"

record cid_entry =
  ce_cid :: "byte list"
  ce_seq :: nat
  ce_reset_token :: "128 word option"
  ce_network_path :: "four_tuple option"

record path_cids =
  pc_path_id :: nat
  pc_dcids :: "cid_entry bounded_deque"
  pc_scids :: "cid_entry bounded_deque"
  pc_retire_dcid_seqs :: seq_set
  pc_largest_peer_retire_prior_to :: nat
  pc_largest_destination_seq :: nat
  pc_next_scid_seq :: nat
  pc_retire_prior_to :: nat
  pc_source_conn_id_limit :: nat
  pc_closing :: bool
  pc_initialized_dcid :: bool
  pc_initialized_scid :: bool

abbreviation (input) RETIRED_CONN_ID_LIMIT_MULTIPLIER :: nat where
  "RETIRED_CONN_ID_LIMIT_MULTIPLIER \<equiv> 3"

text \<open>\<open>Option::and\<close>. The token of the initial destination identifier is computed from the token
  that the line before it has shadowed.\<close>

definition opt_and :: "'a option \<Rightarrow> 'b option \<Rightarrow> 'b option" where
  "opt_and x y = (if x = None then None else y)"

definition new_with_path_id ::
  "nat \<Rightarrow> nat \<Rightarrow> nat \<Rightarrow> byte list option \<Rightarrow> byte list option \<Rightarrow> four_tuple option \<Rightarrow> 128 word option \<Rightarrow>
   path_cids result" where
  "new_with_path_id path_id dlim slim initial_scid initial_dcid network_path reset_token =
     (let dlim = max dlim 2; slim = max slim 2 in
      if (initial_dcid \<noteq> None) = (initial_scid \<noteq> None) then panic
      else
        let reset_token = opt_and initial_scid reset_token in
        try_bind (try_bind (checked_mul 2 slim) (\<lambda>n. checked_sub n 1)) (\<lambda>scap.
        let scids = Deque_new scap
              \<lparr>ce_cid = (case initial_scid of Some c \<Rightarrow> c | None \<Rightarrow> []), ce_seq = 0,
               ce_reset_token = reset_token, ce_network_path = network_path\<rparr>;
            reset_token = opt_and initial_dcid reset_token;
            dcids = Deque_new dlim
              \<lparr>ce_cid = (case initial_dcid of Some c \<Rightarrow> c | None \<Rightarrow> []), ce_seq = 0,
               ce_reset_token = reset_token, ce_network_path = network_path\<rparr> in
        try_bind (checked_mul dlim RETIRED_CONN_ID_LIMIT_MULTIPLIER) (\<lambda>rcap.
          Inr \<lparr>pc_path_id = path_id, pc_dcids = dcids, pc_scids = scids,
               pc_retire_dcid_seqs = SeqSet_new rcap, pc_largest_peer_retire_prior_to = 0,
               pc_largest_destination_seq = 0,
               pc_next_scid_seq = (if initial_scid \<noteq> None then 1 else 0), pc_retire_prior_to = 0,
               pc_source_conn_id_limit = slim, pc_closing = False,
               pc_initialized_dcid = (initial_dcid \<noteq> None),
               pc_initialized_scid = (initial_scid \<noteq> None)\<rparr>)))"

definition PathCids_new ::
  "nat \<Rightarrow> nat \<Rightarrow> byte list \<Rightarrow> four_tuple option \<Rightarrow> 128 word option \<Rightarrow> path_cids result" where
  "PathCids_new dlim slim initial_scid network_path reset_token =
     new_with_path_id 0 dlim slim (Some initial_scid) None network_path reset_token"

definition path_set_source_conn_id_limit :: "nat \<Rightarrow> path_cids \<Rightarrow> path_cids" where
  "path_set_source_conn_id_limit v p =
     (let v = min v (usize_max div 2) in
      if v \<ge> 2 then p\<lparr>pc_source_conn_id_limit := v, pc_scids := Deque_resize (2 * v - 1) (pc_scids p)\<rparr>
      else p)"

definition lowest_usable_scid_seq :: "path_cids \<Rightarrow> nat result" where
  "lowest_usable_scid_seq p =
     (case filter (\<lambda>q. q \<ge> pc_retire_prior_to p) (map ce_seq (bd_inner (pc_scids p))) of
        [] \<Rightarrow> err InvalidState
      | qs \<Rightarrow> Inr (min_list qs))"

definition path_set_initial_dcid ::
  "byte list \<Rightarrow> nat \<Rightarrow> 128 word option \<Rightarrow> four_tuple option \<Rightarrow> path_cids \<Rightarrow> path_cids" where
  "path_set_initial_dcid cid seq reset_token network_path p =
     p\<lparr>pc_dcids := Deque_clear_and_insert \<lparr>ce_cid = cid, ce_seq = seq, ce_reset_token = reset_token,
         ce_network_path = network_path\<rparr> (pc_dcids p),
       pc_initialized_dcid := True\<rparr>"

definition path_set_initial_scid ::
  "byte list \<Rightarrow> 128 word option \<Rightarrow> four_tuple option \<Rightarrow> path_cids \<Rightarrow> path_cids" where
  "path_set_initial_scid cid reset_token network_path p =
     p\<lparr>pc_scids := Deque_clear_and_insert \<lparr>ce_cid = cid, ce_seq = 0, ce_reset_token = reset_token,
         ce_network_path = network_path\<rparr> (pc_scids p),
       pc_initialized_scid := True\<rparr>"

text \<open>The retirement of the lowest identifier when the limit is reached.\<close>

definition new_scid_room :: "bool \<Rightarrow> path_cids \<Rightarrow> path_cids \<times> unit result" where
  "new_scid_room retire_if_needed p =
     (if length (bd_inner (pc_scids p)) \<ge> pc_source_conn_id_limit p then
        (if \<not> retire_if_needed then (p, err IdLimit)
         else st_try p (try_bind (lowest_usable_scid_seq p) (\<lambda>q.
                try_bind (checked_add q 1) (\<lambda>n. Inr (p\<lparr>pc_retire_prior_to := n\<rparr>)))))
      else (p, Inr ()))"

definition path_new_scid ::
  "byte list \<Rightarrow> 128 word option \<Rightarrow> four_tuple option \<Rightarrow> bool \<Rightarrow> path_cids \<Rightarrow>
   path_cids \<times> (bool \<times> nat) result" where
  "path_new_scid cid reset_token network_path retire_if_needed p =
     (if \<not> pc_initialized_scid p then
        (path_set_initial_scid cid reset_token network_path p, Inr (True, 0))
      else
        st_bind (new_scid_room retire_if_needed p) (\<lambda>p _.
          let seq = pc_next_scid_seq p in
          if reset_token = None \<and> seq \<noteq> 0 then (p, err InvalidState)
          else
            case find (\<lambda>e. ce_cid e = cid) (bd_inner (pc_scids p)) of
              Some e \<Rightarrow> if ce_reset_token e \<noteq> reset_token then (p, err InvalidState)
                        else (p, Inr (False, ce_seq e))
            | None \<Rightarrow>
                st_bind (st_try p (try_bind (Deque_insert ce_seq \<lparr>ce_cid = cid, ce_seq = seq,
                    ce_reset_token = reset_token, ce_network_path = network_path\<rparr> (pc_scids p))
                    (\<lambda>d. Inr (p\<lparr>pc_scids := d\<rparr>)))) (\<lambda>p _.
                st_bind (st_try p (try_bind (checked_add (pc_next_scid_seq p) 1)
                    (\<lambda>n. Inr (p\<lparr>pc_next_scid_seq := n\<rparr>)))) (\<lambda>p _. (p, Inr (True, seq))))))"

definition path_mark_retire_dcid_seq :: "nat \<Rightarrow> bool \<Rightarrow> path_cids \<Rightarrow> path_cids result" where
  "path_mark_retire_dcid_seq seq retire p =
     (if retire then
        try_bind (SeqSet_insert seq (pc_retire_dcid_seqs p)) (\<lambda>s. Inr (p\<lparr>pc_retire_dcid_seqs := s\<rparr>))
      else Inr (p\<lparr>pc_retire_dcid_seqs := SeqSet_remove seq (pc_retire_dcid_seqs p)\<rparr>))"

text \<open>The loop over the drained identifiers: those in use are reported, all are queued for
  RETIRE_CONNECTION_ID until the queue is full; the rest is dropped with the iterator.\<close>

fun retire_drained ::
  "cid_entry list \<Rightarrow> seq_set \<Rightarrow> (nat \<times> four_tuple) list \<Rightarrow> seq_set \<times> (nat \<times> four_tuple) list \<times> fault option" where
  "retire_drained [] s ret = (s, ret, None)"
| "retire_drained (e # es) s ret =
     (let ret = (case ce_network_path e of Some nw \<Rightarrow> ret @ [(ce_seq e, nw)] | None \<Rightarrow> ret) in
      case SeqSet_insert (ce_seq e) s of
        Inl f \<Rightarrow> (s, ret, Some f)
      | Inr s \<Rightarrow> retire_drained es s ret)"

text \<open>The part that retires what the peer asks for, up to the insertion of the new entry.\<close>

definition new_dcid_retire ::
  "(bool list \<Rightarrow> nat) \<Rightarrow> nat \<Rightarrow> path_cids \<times> (nat \<times> four_tuple) list \<Rightarrow>
   (path_cids \<times> (nat \<times> four_tuple) list) \<times> fault option" where
  "new_dcid_retire pp retire_prior_to = (\<lambda>(p, ret).
     (if retire_prior_to > pc_largest_peer_retire_prior_to p then
        let index = pp (map (\<lambda>e. ce_seq e < retire_prior_to) (bd_inner (pc_dcids p)));
            (s, ret, q) = retire_drained (take index (bd_inner (pc_dcids p))) (pc_retire_dcid_seqs p) ret in
        ((p\<lparr>pc_dcids := (pc_dcids p)\<lparr>bd_inner := drop index (bd_inner (pc_dcids p))\<rparr>,
            pc_retire_dcid_seqs := s, pc_largest_peer_retire_prior_to := retire_prior_to\<rparr>, ret), q)
      else ((p, ret), None)))"

definition path_new_dcid ::
  "(bool list \<Rightarrow> nat) \<Rightarrow> byte list \<Rightarrow> nat \<Rightarrow> 128 word \<Rightarrow> nat \<Rightarrow>
   path_cids \<times> (nat \<times> four_tuple) list \<Rightarrow> (path_cids \<times> (nat \<times> four_tuple) list) \<times> unit result" where
  "path_new_dcid pp cid seq reset_token retire_prior_to = (\<lambda>(p, ret).
     (if \<not> pc_initialized_dcid p then
        ((path_set_initial_dcid cid seq (Some reset_token) None p, ret), Inr ())
      else
        case find (\<lambda>e. ce_cid e = cid \<or> ce_seq e = seq) (bd_inner (pc_dcids p)) of
          Some e \<Rightarrow>
            if ce_cid e \<noteq> cid \<or> ce_seq e \<noteq> seq \<or> ce_reset_token e \<noteq> Some reset_token
            then ((p, ret), err InvalidFrame) else ((p, ret), Inr ())
        | None \<Rightarrow>
            if retire_prior_to > seq then ((p, ret), err InvalidFrame)
            else if seq < pc_largest_peer_retire_prior_to p then
              (case path_mark_retire_dcid_seq seq True p of
                 Inl f \<Rightarrow> ((p, ret), Inl f) | Inr p \<Rightarrow> ((p, ret), Inr ()))
            else
              let p = p\<lparr>pc_largest_destination_seq := max (pc_largest_destination_seq p) seq\<rparr>;
                  ((p, ret), q) = new_dcid_retire pp retire_prior_to (p, ret) in
              case Deque_insert ce_seq \<lparr>ce_cid = cid, ce_seq = seq, ce_reset_token = Some reset_token,
                     ce_network_path = None\<rparr> (pc_dcids p) of
                Inl f \<Rightarrow> ((p, ret), Inl f)
              | Inr d \<Rightarrow> ((p\<lparr>pc_dcids := d\<rparr>, ret), case q of Some f \<Rightarrow> Inl f | None \<Rightarrow> Inr ())))"

definition path_retire_scid :: "nat \<Rightarrow> byte list \<Rightarrow> path_cids \<Rightarrow> path_cids \<times> cid_entry option result" where
  "path_retire_scid seq pkt_dcid p =
     (if seq \<ge> pc_next_scid_seq p then (p, err InvalidState)
      else
        case Deque_remove ce_seq seq (pc_closing p) (pc_scids p) of
          Inl f \<Rightarrow> (p, Inl f)
        | Inr (d, None) \<Rightarrow> (p\<lparr>pc_scids := d\<rparr>, Inr None)
        | Inr (d, Some e) \<Rightarrow>
            let p = p\<lparr>pc_scids := d\<rparr> in
            if ce_cid e = pkt_dcid then (p, err InvalidState)
            else
              case lowest_usable_scid_seq p of
                Inl f \<Rightarrow> (p, Inl f)
              | Inr q \<Rightarrow> (p\<lparr>pc_retire_prior_to := q\<rparr>, Inr (Some e)))"

definition path_retire_dcid :: "nat \<Rightarrow> path_cids \<Rightarrow> path_cids \<times> four_tuple option result" where
  "path_retire_dcid seq p =
     (case Deque_remove ce_seq seq (pc_closing p) (pc_dcids p) of
        Inl f \<Rightarrow> (p, Inl f)
      | Inr (d, Some e) \<Rightarrow>
          st_bind (st_try (p\<lparr>pc_dcids := d\<rparr>) (path_mark_retire_dcid_seq seq True (p\<lparr>pc_dcids := d\<rparr>)))
            (\<lambda>p _. (p, Inr (ce_network_path e)))
      | Inr (d, None) \<Rightarrow> (p\<lparr>pc_dcids := d\<rparr>, if pc_closing p then Inr None else err InvalidState))"

definition path_lowest_available_dcid_seq :: "path_cids \<Rightarrow> nat option" where
  "path_lowest_available_dcid_seq p =
     (case map ce_seq (filter (\<lambda>e. ce_network_path e = None) (bd_inner (pc_dcids p))) of
        [] \<Rightarrow> None | qs \<Rightarrow> Some (min_list qs))"

section \<open>The identifiers of a connection\<close>

text \<open>The heap of spare path identifiers is kept as a sorted list: \<open>peek\<close> and \<open>pop\<close> work at its
  smallest element.\<close>

record conn_ids =
  ci_pcids :: "path_cids bounded_deque"
  ci_advertise_new_scid_seqs :: "(nat \<times> nat) list"
  ci_retired_scids :: "(nat \<times> byte list) list"
  ci_source_conn_id_limit :: nat
  ci_destination_conn_id_limit :: nat
  ci_closed_path_id :: "nat list"
  ci_spare_path_ids :: "nat list"
  ci_local_max_path_id :: nat
  ci_remote_max_path_id :: nat
  ci_largest_path_id :: nat
  ci_advertise_local_max_path_id :: bool
  ci_zero_length_scid :: bool
  ci_zero_length_dcid :: bool

definition ConnIds_new :: "nat \<Rightarrow> byte list \<Rightarrow> four_tuple \<Rightarrow> 128 word option \<Rightarrow> conn_ids result" where
  "ConnIds_new dlim initial_scid network_path reset_token =
     (let dlim = max dlim 2; slim = 2 in
      try_bind (PathCids_new dlim slim initial_scid (Some network_path) reset_token) (\<lambda>p.
        Inr \<lparr>ci_pcids = Deque_new 1 p, ci_advertise_new_scid_seqs = [], ci_retired_scids = [],
             ci_source_conn_id_limit = slim, ci_destination_conn_id_limit = dlim,
             ci_closed_path_id = [], ci_spare_path_ids = [], ci_local_max_path_id = 0,
             ci_remote_max_path_id = 0, ci_largest_path_id = 0,
             ci_advertise_local_max_path_id = False,
             ci_zero_length_scid = (initial_scid = []), ci_zero_length_dcid = False\<rparr>))"

definition get_pcids :: "nat \<Rightarrow> conn_ids \<Rightarrow> path_cids option" where
  "get_pcids path_id c = find (\<lambda>p. pc_path_id p = path_id) (bd_inner (ci_pcids c))"

text \<open>The state after a change through \<open>get_pcids_mut\<close>.\<close>

definition put_pcids :: "path_cids \<Rightarrow> conn_ids \<Rightarrow> conn_ids" where
  "put_pcids p c = c\<lparr>ci_pcids := (ci_pcids c)\<lparr>bd_inner :=
     modify_first (\<lambda>q. pc_path_id q = pc_path_id p) (\<lambda>_. p) (bd_inner (ci_pcids c))\<rparr>\<rparr>"

definition max_path_id :: "conn_ids \<Rightarrow> nat" where
  "max_path_id c = min (ci_local_max_path_id c) (ci_remote_max_path_id c)"

definition set_source_conn_id_limit :: "nat \<Rightarrow> conn_ids \<Rightarrow> conn_ids" where
  "set_source_conn_id_limit v c =
     (let v = min v (usize_max div 2) in
      if v \<ge> 2 then
        c\<lparr>ci_source_conn_id_limit := v,
          ci_pcids := (ci_pcids c)\<lparr>bd_inner :=
            map (path_set_source_conn_id_limit v) (bd_inner (ci_pcids c))\<rparr>\<rparr>
      else c)"

definition maybe_resize_pcids :: "conn_ids \<Rightarrow> conn_ids result" where
  "maybe_resize_pcids c =
     try_bind (checked_add 1 (max_path_id c)) (\<lambda>n. Inr (c\<lparr>ci_pcids := Deque_resize n (ci_pcids c)\<rparr>))"

definition set_local_max_path_id :: "nat \<Rightarrow> bool \<Rightarrow> conn_ids \<Rightarrow> conn_ids result" where
  "set_local_max_path_id v advertise c =
     (if v > ci_local_max_path_id c then
        let c = c\<lparr>ci_local_max_path_id := v\<rparr>;
            c = (if advertise then c\<lparr>ci_advertise_local_max_path_id := True\<rparr> else c) in
        maybe_resize_pcids c
      else Inr c)"

definition set_remote_max_path_id :: "nat \<Rightarrow> conn_ids \<Rightarrow> conn_ids result" where
  "set_remote_max_path_id v c =
     (if v > ci_remote_max_path_id c then maybe_resize_pcids (c\<lparr>ci_remote_max_path_id := v\<rparr>) else Inr c)"

definition has_spare_path_id :: "conn_ids \<Rightarrow> bool" where
  "has_spare_path_id c \<longleftrightarrow> ci_spare_path_ids c \<noteq> []"

definition lowest_spare_path_id :: "conn_ids \<Rightarrow> nat option" where
  "lowest_spare_path_id c = (case ci_spare_path_ids c of [] \<Rightarrow> None | i # _ \<Rightarrow> Some i)"

definition consume_lowest_spare_path_id :: "conn_ids \<Rightarrow> conn_ids" where
  "consume_lowest_spare_path_id c = c\<lparr>ci_spare_path_ids := tl (ci_spare_path_ids c)\<rparr>"

definition ok_or :: "error \<Rightarrow> 'a option \<Rightarrow> 'a result" where
  "ok_or e x = (case x of Some y \<Rightarrow> Inr y | None \<Rightarrow> err e)"

definition get_dcid :: "nat \<Rightarrow> nat \<Rightarrow> conn_ids \<Rightarrow> cid_entry result" where
  "get_dcid path_id seq c =
     ok_or InvalidState (Option.bind (get_pcids path_id c) (\<lambda>p. Deque_get ce_seq seq (pc_dcids p)))"

definition get_scid :: "nat \<Rightarrow> nat \<Rightarrow> conn_ids \<Rightarrow> cid_entry result" where
  "get_scid path_id seq c =
     ok_or InvalidState (Option.bind (get_pcids path_id c) (\<lambda>p. Deque_get ce_seq seq (pc_scids p)))"

definition mark_advertise_new_scid_seq :: "nat \<Rightarrow> nat \<Rightarrow> bool \<Rightarrow> conn_ids \<Rightarrow> conn_ids" where
  "mark_advertise_new_scid_seq path_id seq advertise c =
     (if advertise then
        (if (path_id, seq) \<in> set (ci_advertise_new_scid_seqs c) then c
         else c\<lparr>ci_advertise_new_scid_seqs := ci_advertise_new_scid_seqs c @ [(path_id, seq)]\<rparr>)
      else c\<lparr>ci_advertise_new_scid_seqs := remove1 (path_id, seq) (ci_advertise_new_scid_seqs c)\<rparr>)"

text \<open>The creation of a space for a path identifier, common to both directions.\<close>

definition new_path_space ::
  "nat \<Rightarrow> byte list option \<Rightarrow> byte list option \<Rightarrow> four_tuple option \<Rightarrow> 128 word option \<Rightarrow> conn_ids \<Rightarrow>
   conn_ids result" where
  "new_path_space path_id initial_scid initial_dcid network_path reset_token c =
     (if path_id > max_path_id c then err OutOfPathId
      else if path_id \<in> set (ci_closed_path_id c) then err OutOfPathId
      else
        try_bind (new_with_path_id path_id (ci_destination_conn_id_limit c) (ci_source_conn_id_limit c)
            initial_scid initial_dcid network_path reset_token) (\<lambda>p.
        try_bind (Deque_insert pc_path_id p (ci_pcids c)) (\<lambda>d.
          Inr (c\<lparr>ci_pcids := d, ci_spare_path_ids := insort path_id (ci_spare_path_ids c),
                 ci_largest_path_id := max (ci_largest_path_id c) path_id\<rparr>))))"

definition new_scid ::
  "nat \<Rightarrow> byte list \<Rightarrow> 128 word option \<Rightarrow> bool \<Rightarrow> four_tuple option \<Rightarrow> bool \<Rightarrow> conn_ids \<Rightarrow>
   conn_ids \<times> nat result" where
  "new_scid path_id cid reset_token advertise network_path retire_if_needed c =
     (if ci_zero_length_scid c then (c, err InvalidState)
      else if reset_token = None \<and> path_id \<noteq> 0 then (c, err InvalidState)
      else
        st_bind
          (case get_pcids path_id c of
             Some p \<Rightarrow>
               (case path_new_scid cid reset_token network_path retire_if_needed p of
                  (p, r) \<Rightarrow> (put_pcids p c, r))
           | None \<Rightarrow>
               st_bind (st_try c (new_path_space path_id (Some cid) None network_path reset_token c))
                 (\<lambda>c _. (c, Inr (True, 0))))
          (\<lambda>c (inserted, seq).
             (if inserted then mark_advertise_new_scid_seq path_id seq advertise c else c, Inr seq)))"

definition set_initial_dcid :: "byte list \<Rightarrow> 128 word option \<Rightarrow> four_tuple option \<Rightarrow> conn_ids \<Rightarrow> conn_ids" where
  "set_initial_dcid cid reset_token network_path c =
     (let c = c\<lparr>ci_zero_length_dcid := (cid = [])\<rparr> in
      case get_pcids 0 c of
        Some p \<Rightarrow> put_pcids (path_set_initial_dcid cid 0 reset_token network_path p) c
      | None \<Rightarrow> c)"

definition new_dcid ::
  "(bool list \<Rightarrow> nat) \<Rightarrow> nat \<Rightarrow> byte list \<Rightarrow> nat \<Rightarrow> 128 word \<Rightarrow> nat \<Rightarrow>
   conn_ids \<times> (nat \<times> four_tuple) list \<Rightarrow> (conn_ids \<times> (nat \<times> four_tuple) list) \<times> unit result" where
  "new_dcid pp path_id cid seq reset_token retire_prior_to = (\<lambda>(c, ret).
     (if ci_zero_length_dcid c then ((c, ret), err InvalidState)
      else
        case get_pcids path_id c of
          Some p \<Rightarrow>
            (case path_new_dcid pp cid seq reset_token retire_prior_to (p, ret) of
               ((p, ret), r) \<Rightarrow> ((put_pcids p c, ret), r))
        | None \<Rightarrow>
            (case st_try c (new_path_space path_id None (Some cid) None (Some reset_token) c) of
               (c, r) \<Rightarrow> ((c, ret), r))))"

definition retire_scid :: "nat \<Rightarrow> nat \<Rightarrow> byte list \<Rightarrow> conn_ids \<Rightarrow> conn_ids \<times> four_tuple option result" where
  "retire_scid path_id seq pkt_dcid c =
     (case get_pcids path_id c of
        None \<Rightarrow> (c, Inr None)
      | Some p \<Rightarrow>
          (case path_retire_scid seq pkt_dcid p of
             (p, Inl f) \<Rightarrow> (put_pcids p c, Inl f)
           | (p, Inr None) \<Rightarrow> (put_pcids p c, Inr None)
           | (p, Inr (Some e)) \<Rightarrow>
               ((put_pcids p c)\<lparr>ci_retired_scids := ci_retired_scids c @ [(path_id, ce_cid e)]\<rparr>,
                Inr (ce_network_path e))))"

definition retire_dcid :: "nat \<Rightarrow> nat \<Rightarrow> conn_ids \<Rightarrow> conn_ids \<times> four_tuple option result" where
  "retire_dcid path_id seq c =
     (if ci_zero_length_dcid c then (c, err InvalidState)
      else if path_id \<in> set (ci_closed_path_id c) then (c, Inr None)
      else
        case get_pcids path_id c of
          None \<Rightarrow> (c, err OutOfPathId)
        | Some p \<Rightarrow> (case path_retire_dcid seq p of (p, r) \<Rightarrow> (put_pcids p c, r)))"

definition scids_iter :: "conn_ids \<Rightarrow> byte list list" where
  "scids_iter c = concat (map (\<lambda>p. map ce_cid (bd_inner (pc_scids p))) (bd_inner (ci_pcids c)))"

definition link_entry :: "nat \<Rightarrow> four_tuple \<Rightarrow> cid_entry bounded_deque \<Rightarrow> cid_entry bounded_deque" where
  "link_entry seq network_path d =
     d\<lparr>bd_inner := modify_first (\<lambda>e. ce_seq e = seq) (\<lambda>e. e\<lparr>ce_network_path := Some network_path\<rparr>) (bd_inner d)\<rparr>"

definition link_scid_to_network_path :: "nat \<Rightarrow> nat \<Rightarrow> four_tuple \<Rightarrow> conn_ids \<Rightarrow> conn_ids result" where
  "link_scid_to_network_path path_id seq network_path c =
     try_bind (ok_or OutOfPathId (get_pcids path_id c)) (\<lambda>p.
     try_bind (ok_or InvalidState (Deque_get ce_seq seq (pc_scids p))) (\<lambda>_.
       Inr (put_pcids (p\<lparr>pc_scids := link_entry seq network_path (pc_scids p)\<rparr>) c)))"

definition link_dcid_to_network_path :: "nat \<Rightarrow> nat \<Rightarrow> four_tuple \<Rightarrow> conn_ids \<Rightarrow> conn_ids result" where
  "link_dcid_to_network_path path_id seq network_path c =
     try_bind (ok_or OutOfPathId (get_pcids path_id c)) (\<lambda>p.
     try_bind (ok_or InvalidState (Deque_get ce_seq seq (pc_dcids p))) (\<lambda>_.
       Inr (put_pcids (p\<lparr>pc_dcids := link_entry seq network_path (pc_dcids p)\<rparr>) c)))"

definition lowest_available_dcid_seq :: "nat \<Rightarrow> conn_ids \<Rightarrow> nat option" where
  "lowest_available_dcid_seq path_id c = Option.bind (get_pcids path_id c) path_lowest_available_dcid_seq"

fun find_map :: "('a \<Rightarrow> 'b option) \<Rightarrow> 'a list \<Rightarrow> 'b option" where
  "find_map f [] = None"
| "find_map f (x # xs) = (case f x of Some y \<Rightarrow> Some y | None \<Rightarrow> find_map f xs)"

definition find_scid_path_id_and_seq :: "byte list \<Rightarrow> conn_ids \<Rightarrow> (nat \<times> nat \<times> four_tuple option) option" where
  "find_scid_path_id_and_seq cid c =
     find_map (\<lambda>p. find_map (\<lambda>e. if ce_cid e = cid then Some (pc_path_id p, ce_seq e, ce_network_path e)
       else None) (bd_inner (pc_scids p))) (bd_inner (ci_pcids c))"

definition unassigned :: "cid_entry bounded_deque \<Rightarrow> nat" where
  "unassigned d = length (filter (\<lambda>e. ce_network_path e = None) (bd_inner d))"

definition available_scids_on_path :: "nat \<Rightarrow> conn_ids \<Rightarrow> nat" where
  "available_scids_on_path path_id c =
     (case get_pcids path_id c of Some p \<Rightarrow> unassigned (pc_scids p) | None \<Rightarrow> 0)"

definition available_dcids_on_path :: "nat \<Rightarrow> conn_ids \<Rightarrow> nat" where
  "available_dcids_on_path path_id c =
     (if ci_zero_length_dcid c then 0
      else case get_pcids path_id c of Some p \<Rightarrow> unassigned (pc_dcids p) | None \<Rightarrow> 0)"

definition oldest_scid :: "conn_ids \<Rightarrow> cid_entry result" where
  "oldest_scid c = try_bind (Deque_get_oldest (ci_pcids c)) (\<lambda>p. Deque_get_oldest (pc_scids p))"

definition oldest_dcid :: "conn_ids \<Rightarrow> cid_entry result" where
  "oldest_dcid c = try_bind (Deque_get_oldest (ci_pcids c)) (\<lambda>p. Deque_get_oldest (pc_dcids p))"

definition oldest_scid_on_path :: "nat \<Rightarrow> conn_ids \<Rightarrow> cid_entry result option" where
  "oldest_scid_on_path path_id c = map_option (\<lambda>p. Deque_get_oldest (pc_scids p)) (get_pcids path_id c)"

definition oldest_dcid_on_path :: "nat \<Rightarrow> conn_ids \<Rightarrow> cid_entry result option" where
  "oldest_dcid_on_path path_id c = map_option (\<lambda>p. Deque_get_oldest (pc_dcids p)) (get_pcids path_id c)"

definition mark_retire_dcid_seq :: "nat \<Rightarrow> nat \<Rightarrow> bool \<Rightarrow> conn_ids \<Rightarrow> conn_ids result" where
  "mark_retire_dcid_seq path_id seq retire c =
     try_bind (ok_or UnavailablePath (get_pcids path_id c)) (\<lambda>p.
     try_bind (path_mark_retire_dcid_seq seq retire p) (\<lambda>p. Inr (put_pcids p c)))"

definition next_advertise_new_scid_seq :: "conn_ids \<Rightarrow> (nat \<times> nat) option" where
  "next_advertise_new_scid_seq c =
     (case ci_advertise_new_scid_seqs c of [] \<Rightarrow> None | x # _ \<Rightarrow> Some x)"

definition next_retire_dcid_seq :: "(nat set \<Rightarrow> nat) \<Rightarrow> conn_ids \<Rightarrow> (nat \<times> nat) option" where
  "next_retire_dcid_seq pick c =
     find_map (\<lambda>p. map_option (Pair (pc_path_id p)) (SeqSet_front pick (pc_retire_dcid_seqs p)))
       (bd_inner (ci_pcids c))"

definition has_new_scids :: "conn_ids \<Rightarrow> bool" where
  "has_new_scids c \<longleftrightarrow> ci_advertise_new_scid_seqs c \<noteq> []"

definition has_retire_dcids :: "conn_ids \<Rightarrow> bool" where
  "has_retire_dcids c \<longleftrightarrow> (\<exists>p \<in> set (bd_inner (ci_pcids c)). ss_inner (pc_retire_dcid_seqs p) \<noteq> {})"

definition get_path_connection_id_frame_for :: "nat \<Rightarrow> nat \<Rightarrow> conn_ids \<Rightarrow> frame result" where
  "get_path_connection_id_frame_for path_id seq c =
     try_bind (ok_or OutOfPathId (get_pcids path_id c)) (\<lambda>p.
     try_bind (ok_or InvalidState (Deque_get ce_seq seq (pc_scids p))) (\<lambda>e.
     try_bind (ok_or InvalidState (ce_reset_token e)) (\<lambda>token.
       Inr (if path_id \<noteq> 0
            then PathNewConnectionId path_id seq (pc_retire_prior_to p) (ce_cid e) (be_bytes 16 (unat token))
            else NewConnectionId seq (pc_retire_prior_to p) (ce_cid e) (be_bytes 16 (unat token))))))"

definition active_source_cids_on_path :: "nat \<Rightarrow> conn_ids \<Rightarrow> nat" where
  "active_source_cids_on_path path_id c =
     (case get_pcids path_id c of Some p \<Rightarrow> length (bd_inner (pc_scids p)) | None \<Rightarrow> 0)"

definition active_source_cids :: "conn_ids \<Rightarrow> nat" where
  "active_source_cids c = sum_list (map (\<lambda>p. length (bd_inner (pc_scids p))) (bd_inner (ci_pcids c)))"

definition pop_retired_scid :: "conn_ids \<Rightarrow> (nat \<times> byte list) option \<times> conn_ids" where
  "pop_retired_scid c =
     (case ci_retired_scids c of [] \<Rightarrow> (None, c) | x # xs \<Rightarrow> (Some x, c\<lparr>ci_retired_scids := xs\<rparr>))"

definition on_max_path_id_sent :: "conn_ids \<Rightarrow> conn_ids" where
  "on_max_path_id_sent c = c\<lparr>ci_advertise_local_max_path_id := False\<rparr>"

definition closing_path_id :: "nat \<Rightarrow> conn_ids \<Rightarrow> conn_ids" where
  "closing_path_id path_id c =
     (case get_pcids path_id c of Some p \<Rightarrow> put_pcids (p\<lparr>pc_closing := True\<rparr>) c | None \<Rightarrow> c)"

text \<open>The identifiers of a removed path are marked in the value that was taken out of the
  collection and is dropped at the end.\<close>

definition remove_path_id :: "nat \<Rightarrow> conn_ids \<Rightarrow> conn_ids \<times> unit result" where
  "remove_path_id path_id c =
     (if path_id \<in> set (ci_closed_path_id c) then (c, Inr ())
      else if path_id > max_path_id c then (c, err PathIdViolation)
      else
        case Deque_remove pc_path_id path_id False (ci_pcids c) of
          Inl f \<Rightarrow> (c, Inl f)
        | Inr (d, removed) \<Rightarrow>
            let c = c\<lparr>ci_pcids := d\<rparr> in
            st_bind
              (case removed of
                 None \<Rightarrow> (c, Inr ())
               | Some p \<Rightarrow>
                   (case fold_res (\<lambda>e. path_mark_retire_dcid_seq (ce_seq e) True) (bd_inner (pc_dcids p)) p of
                      Inl f \<Rightarrow> (c, Inl f)
                    | Inr _ \<Rightarrow>
                        (c\<lparr>ci_retired_scids := ci_retired_scids c @
                             map (\<lambda>e. (path_id, ce_cid e)) (bd_inner (pc_scids p))\<rparr>, Inr ())))
              (\<lambda>c _. (c\<lparr>ci_closed_path_id := ci_closed_path_id c @ [path_id]\<rparr>, Inr ())))"

text \<open>\<open>PathIdIter\<close>.\<close>

definition path_ids :: "conn_ids \<Rightarrow> nat list" where
  "path_ids c = filter (\<lambda>i. i \<notin> set (ci_closed_path_id c)) [0 ..< max_path_id c + 1]"

section \<open>Frames for the peer\<close>

text \<open>The two loops of \<open>send_single\<close>.\<close>

function send_new_connection_ids :: "conn_ids \<Rightarrow> pkt_build \<Rightarrow> (conn_ids \<times> pkt_build) result" where
  "send_new_connection_ids c p =
     (case next_advertise_new_scid_seq c of
        None \<Rightarrow> Inr (c, p)
      | Some (path_id, seq_num) \<Rightarrow>
          try_bind (get_path_connection_id_frame_for path_id seq_num c) (\<lambda>frame.
          try_bind (push_frame_to_pkt frame p) (\<lambda>(pushed, p).
            if pushed
            then send_new_connection_ids (mark_advertise_new_scid_seq path_id seq_num False c) (eliciting p)
            else Inr (c, p))))"
  by pat_completeness auto
termination
  by (relation "measure (\<lambda>(c, _). length (ci_advertise_new_scid_seqs c))")
    (auto simp: next_advertise_new_scid_seq_def mark_advertise_new_scid_seq_def split: list.splits)

declare send_new_connection_ids.simps [simp del]

text \<open>The second loop runs on the path with identifier \<open>space_id\<close> whose active destination identifier
  is \<open>active\<close>. It ends because an element of the queue is chosen each time; with an arbitrary
  \<open>pick\<close> it need not, so it is a partial function.\<close>

partial_function (option) send_retire_connection_ids ::
  "(nat set \<Rightarrow> nat) \<Rightarrow> nat \<Rightarrow> nat option \<Rightarrow> conn_ids \<Rightarrow> pkt_build \<Rightarrow> (conn_ids \<times> pkt_build) result option" where
  "send_retire_connection_ids pick space_id active c p =
     (case next_retire_dcid_seq pick c of
        None \<Rightarrow> Some (Inr (c, p))
      | Some (path_id, seq_num) \<Rightarrow>
          (case active of
             None \<Rightarrow> Some (err InvalidState)
           | Some dcid_seq \<Rightarrow>
               if space_id = path_id \<and> seq_num = dcid_seq then Some (Inr (c, p))
               else
                 (case push_frame_to_pkt (if path_id \<noteq> 0 then PathRetireConnectionId path_id seq_num
                    else RetireConnectionId seq_num) p of
                    Inl f \<Rightarrow> Some (Inl f)
                  | Inr (pushed, p') \<Rightarrow>
                      if pushed then
                        (case mark_retire_dcid_seq path_id seq_num False c of
                           Inl f \<Rightarrow> Some (Inl f)
                         | Inr c' \<Rightarrow> send_retire_connection_ids pick space_id active c' (eliciting p'))
                      else Some (Inr (c, p')))))"

end
