(* ===== verification/Cid_Correct.thy ===== *)
theory Cid_Correct
  imports Cid
begin

text \<open>
  The connection identifiers keep their bounds along every sequence of operations, failing ones
  included: collections are never empty, sequence numbers are unique, and the peer never has more
  active identifiers than it allows. The deque of \<open>cid.rs\<close> is used through the interface
  \<open>bounded_map\<close>, once for identifiers and once for paths.
\<close>

section \<open>Bounded collections\<close>

locale bounded_map =
  fixes key :: "'a \<Rightarrow> nat"
    and invar :: "'d \<Rightarrow> bool"
    and size_of :: "'d \<Rightarrow> nat"
    and cap_of :: "'d \<Rightarrow> nat"
    and get :: "nat \<Rightarrow> 'd \<Rightarrow> 'a option"
    and ins :: "'a \<Rightarrow> 'd \<Rightarrow> 'd result"
    and rem :: "nat \<Rightarrow> bool \<Rightarrow> 'd \<Rightarrow> ('d \<times> 'a option) result"
  assumes invar_size: "invar d \<Longrightarrow> 0 < size_of d \<and> size_of d \<le> cap_of d"
    and get_key: "get k d = Some e \<Longrightarrow> key e = k"
    and ins_room: "invar d \<Longrightarrow> get (key e) d \<noteq> None \<or> size_of d < cap_of d \<Longrightarrow>
      \<exists>d'. ins e d = Inr d' \<and> invar d' \<and> cap_of d' = cap_of d \<and>
        (\<forall>k. get k d' = (if k = key e then Some e else get k d))"
    and ins_full: "get (key e) d = None \<Longrightarrow> cap_of d \<le> size_of d \<Longrightarrow> ins e d = err IdLimit"
    and rem_more: "invar d \<Longrightarrow> 1 < size_of d \<Longrightarrow>
      \<exists>d'. rem k a d = Inr (d', get k d) \<and> invar d' \<and> cap_of d' = cap_of d \<and>
        (\<forall>j. get j d' = (if j = k then None else get j d))"
    and rem_last: "size_of d \<le> 1 \<Longrightarrow> rem k a d = (if a then Inr (d, None) else err OutOfIdentifiers)"
begin

text \<open>The outcome of an insertion: success with the entry stored, or the limit.\<close>

lemma ins_cases:
  assumes "invar d"
  obtains (stored) d' where "ins e d = Inr d'" "invar d'" "cap_of d' = cap_of d"
      "\<forall>k. get k d' = (if k = key e then Some e else get k d)"
    | (full) "ins e d = err IdLimit" "get (key e) d = None" "size_of d = cap_of d"
proof (cases "get (key e) d \<noteq> None \<or> size_of d < cap_of d")
  case True
  then show ?thesis using ins_room [OF assms] stored by blast
next
  case False
  then show ?thesis using ins_full [of e d] invar_size [OF assms] full by simp
qed

lemma ins_invar: "invar d \<Longrightarrow> ins e d = Inr d' \<Longrightarrow> invar d' \<and> cap_of d' = cap_of d"
  by (erule ins_cases [of d e]) auto

lemma rem_invar: "invar d \<Longrightarrow> rem k a d = Inr (d', x) \<Longrightarrow> invar d' \<and> cap_of d' = cap_of d"
  using rem_more [of d k a] rem_last [of d k a] by (cases "1 < size_of d") (auto split: if_splits)

lemma rem_result: "invar d \<Longrightarrow> rem k a d = Inr (d', Some e) \<Longrightarrow> get k d = Some e \<and> get k d' = None"
  using rem_more [of d k a] rem_last [of d k a] by (cases "1 < size_of d") (auto split: if_splits)

end

definition bd_ok :: "('a \<Rightarrow> nat) \<Rightarrow> 'a bounded_deque \<Rightarrow> bool" where
  "bd_ok idf d \<longleftrightarrow> bd_inner d \<noteq> [] \<and> distinct (map idf (bd_inner d)) \<and> length (bd_inner d) \<le> bd_capacity d"

lemma find_id_None: "find (\<lambda>e. idf e = i) xs = None \<longleftrightarrow> i \<notin> set (map idf xs)"
  by (auto simp: find_None_iff)

lemma find_id_Some: "find (\<lambda>e. idf e = i) xs = Some e \<Longrightarrow> idf e = i \<and> e \<in> set xs"
  by (auto simp: find_Some_iff)

lemma find_snoc: "find P (xs @ [x]) = (case find P xs of Some y \<Rightarrow> Some y | None \<Rightarrow> if P x then Some x else None)"
  by (induction xs) auto

lemma find_modify_first:
  assumes "\<And>x. idf x = i \<Longrightarrow> idf (f x) = i"
  shows "find (\<lambda>x. idf x = k) (modify_first (\<lambda>x. idf x = i) f xs) =
    (if k = i then map_option f (find (\<lambda>x. idf x = i) xs) else find (\<lambda>x. idf x = k) xs)"
  using assms by (induction xs) auto

lemma map_modify_first:
  "(\<And>x. idf x = i \<Longrightarrow> idf (f x) = i) \<Longrightarrow> map idf (modify_first (\<lambda>x. idf x = i) f xs) = map idf xs"
  by (induction xs) auto

lemma length_modify_first [simp]: "length (modify_first P f xs) = length xs"
  by (induction xs) auto

lemma modify_first_Nil [simp]: "modify_first P f xs = [] \<longleftrightarrow> xs = []"
  by (cases xs) auto

lemma set_modify_first: "x \<in> set (modify_first P f xs) \<Longrightarrow> x \<in> set xs \<or> (\<exists>y \<in> set xs. P y \<and> x = f y)"
  by (induction xs) (auto split: if_splits)

lemma map_remove_first: "map idf (remove_first (\<lambda>x. idf x = i) xs) = remove1 i (map idf xs)"
  by (induction xs) auto

lemma set_remove_first: "set (remove_first P xs) \<subseteq> set xs"
  by (induction xs) auto

lemma find_remove_first:
  "distinct (map idf xs) \<Longrightarrow> find (\<lambda>x. idf x = k) (remove_first (\<lambda>x. idf x = i) xs) =
     (if k = i then None else find (\<lambda>x. idf x = k) xs)"
  by (induction xs) (auto simp: find_None_iff, metis imageI)

lemma remove_first_Nil: "remove_first P xs = [] \<Longrightarrow> length xs \<le> 1"
  by (cases xs) (auto split: if_splits)

lemma length_remove_first: "length (remove_first P xs) \<le> length xs"
  by (induction xs) auto

lemma Deque_bounded_map:
  "bounded_map idf (bd_ok idf) (\<lambda>d. length (bd_inner d)) bd_capacity (Deque_get idf) (Deque_insert idf)
     (Deque_remove idf)"
proof
  show "idf e = k" if "Deque_get idf k d = Some e" for k d e
    using find_id_Some [of idf k "bd_inner d" e] that by (simp add: Deque_get_def)
  show "\<exists>d'. Deque_insert idf e d = Inr d' \<and> bd_ok idf d' \<and> bd_capacity d' = bd_capacity d \<and>
      (\<forall>k. Deque_get idf k d' = (if k = idf e then Some e else Deque_get idf k d))"
    if "bd_ok idf d" "Deque_get idf (idf e) d \<noteq> None \<or> length (bd_inner d) < bd_capacity d" for d e
  proof (cases "Deque_get idf (idf e) d = None")
    case True
    then have "idf e \<notin> set (map idf (bd_inner d))" by (simp only: Deque_get_def find_id_None not_False_eq_True)
    with True that show ?thesis by (auto simp: Deque_insert_def Deque_get_def bd_ok_def find_snoc split: option.splits)
  next
    case False
    then obtain y where y: "find (\<lambda>x. idf x = idf e) (bd_inner d) = Some y" by (auto simp: Deque_get_def)
    have "map idf (modify_first (\<lambda>x. idf x = idf e) (\<lambda>_. e) (bd_inner d)) = map idf (bd_inner d)"
      by (rule map_modify_first) simp
    with False y that(1) show ?thesis
      by (auto simp: Deque_insert_def Deque_get_def bd_ok_def find_modify_first)
  qed
  show "\<exists>d'. Deque_remove idf k a d = Inr (d', Deque_get idf k d) \<and> bd_ok idf d' \<and> bd_capacity d' = bd_capacity d \<and>
      (\<forall>j. Deque_get idf j d' = (if j = k then None else Deque_get idf j d))"
    if "bd_ok idf d" "1 < length (bd_inner d)" for d k a
    using that remove_first_Nil [of "\<lambda>x. idf x = k" "bd_inner d"]
      length_remove_first [of "\<lambda>x. idf x = k" "bd_inner d"]
    by (auto simp: Deque_remove_def Deque_get_def bd_ok_def map_remove_first find_remove_first)
qed (auto simp: bd_ok_def Deque_insert_def Deque_remove_def Deque_get_def)

interpretation cids: bounded_map ce_seq "bd_ok ce_seq" "\<lambda>d. length (bd_inner d)" bd_capacity
  "Deque_get ce_seq" "Deque_insert ce_seq" "Deque_remove ce_seq"
  by (rule Deque_bounded_map)

interpretation paths: bounded_map pc_path_id "bd_ok pc_path_id" "\<lambda>d. length (bd_inner d)" bd_capacity
  "Deque_get pc_path_id" "Deque_insert pc_path_id" "Deque_remove pc_path_id"
  by (rule Deque_bounded_map)

section \<open>Invariants\<close>

definition ss_ok :: "seq_set \<Rightarrow> bool" where
  "ss_ok s \<longleftrightarrow> finite (ss_inner s) \<and> card (ss_inner s) \<le> ss_capacity s"

definition seqs :: "cid_entry bounded_deque \<Rightarrow> nat list" where
  "seqs d = map ce_seq (bd_inner d)"

lemma seqs_distinct: "bd_ok ce_seq d \<Longrightarrow> distinct (seqs d)"
  by (simp add: bd_ok_def seqs_def)

lemma length_seqs: "length (seqs d) = length (bd_inner d)"
  by (simp add: seqs_def)

text \<open>The sequence numbers of the source identifiers that the peer may use.\<close>

definition usable :: "path_cids \<Rightarrow> nat list" where
  "usable p = filter (\<lambda>q. pc_retire_prior_to p \<le> q) (seqs (pc_scids p))"

definition path_ok :: "nat \<Rightarrow> nat \<Rightarrow> path_cids \<Rightarrow> bool" where
  "path_ok dlim slim p \<longleftrightarrow> bd_ok ce_seq (pc_dcids p) \<and> bd_ok ce_seq (pc_scids p) \<and>
     ss_ok (pc_retire_dcid_seqs p) \<and> bd_capacity (pc_dcids p) = dlim \<and>
     bd_capacity (pc_scids p) = 2 * slim - 1 \<and> pc_source_conn_id_limit p = slim \<and> 2 \<le> slim \<and>
     2 \<le> dlim \<and> length (usable p) \<le> slim"

text \<open>Retiring the lowest usable identifier leaves one less.\<close>

lemma min_list_mem: "xs \<noteq> [] \<Longrightarrow> min_list xs \<in> set xs" for xs :: "nat list"
  by (simp add: min_list_Min)

lemma min_list_le: "x \<in> set xs \<Longrightarrow> min_list xs \<le> x" for x :: nat
  using min_list_Min [of xs] Min_le [of "set xs" x] by (cases "xs = []") auto

lemma filter_above_min:
  fixes qs :: "nat list"
  assumes "distinct qs" "qs \<noteq> []"
  shows "Suc (length (filter (\<lambda>q. Suc (min_list qs) \<le> q) qs)) = length qs"
proof -
  let ?m = "min_list qs"
  have m: "?m \<in> set qs" using assms(2) by (rule min_list_mem)
  have "filter (\<lambda>q. Suc ?m \<le> q) qs = filter (\<lambda>q. ?m \<noteq> q) qs"
    using min_list_le [of _ qs] by (intro filter_cong) (auto simp: order.strict_iff_order Suc_le_eq)
  also have "\<dots> = remove1 ?m qs" using distinct_remove1_removeAll [OF assms(1)] by (simp add: removeAll_filter_not_eq)
  finally show ?thesis using m by (simp add: length_remove1) (metis length_pos_if_in_set Suc_pred)
qed

lemma lowest_usable_eq:
  "lowest_usable_scid_seq p = (if usable p = [] then err InvalidState else Inr (min_list (usable p)))"
  by (auto simp: lowest_usable_scid_seq_def usable_def seqs_def split: list.splits)

lemma usable_raise:
  assumes "distinct (seqs (pc_scids p))" "usable p \<noteq> []"
  shows "Suc (length (usable (p\<lparr>pc_retire_prior_to := Suc (min_list (usable p))\<rparr>))) = length (usable p)"
proof -
  let ?m = "min_list (usable p)"
  have "pc_retire_prior_to p \<le> ?m" using min_list_mem [OF assms(2)] by (simp add: usable_def)
  then have "usable (p\<lparr>pc_retire_prior_to := Suc ?m\<rparr>) = filter (\<lambda>q. Suc ?m \<le> q) (usable p)"
    by (auto simp: usable_def intro: filter_cong)
  moreover have "distinct (usable p)" using assms(1) by (simp add: usable_def)
  ultimately show ?thesis using filter_above_min [of "usable p"] assms(2) by simp
qed

lemma new_scid_room_ok:
  assumes ok: "path_ok dlim slim p" and r: "new_scid_room b p = (p', r)"
  shows "path_ok dlim slim p'" "r = Inr () \<Longrightarrow> length (usable p') < slim"
    "pc_scids p' = pc_scids p" "pc_path_id p' = pc_path_id p"
proof -
  have d: "distinct (seqs (pc_scids p))" using ok by (simp add: path_ok_def seqs_distinct)
  show "path_ok dlim slim p'" "pc_scids p' = pc_scids p" "pc_path_id p' = pc_path_id p"
    using r ok usable_raise [OF d]
    by (auto simp: new_scid_room_def path_ok_def lowest_usable_eq checked_add_def split: if_splits)
  show "length (usable p') < slim" if "r = Inr ()"
  proof (cases "length (bd_inner (pc_scids p)) \<ge> pc_source_conn_id_limit p")
    case True
    then have "usable p \<noteq> []" "p' = p\<lparr>pc_retire_prior_to := Suc (min_list (usable p))\<rparr>"
      using r that by (auto simp: new_scid_room_def lowest_usable_eq checked_add_def split: if_splits)
    then show ?thesis using usable_raise [OF d] ok by (simp add: path_ok_def)
  next
    case False
    then have "p' = p" using r by (simp add: new_scid_room_def)
    moreover have "length (usable p) \<le> length (bd_inner (pc_scids p))"
      unfolding usable_def by (metis length_filter_le length_seqs)
    ultimately show ?thesis using False ok by (simp add: path_ok_def)
  qed
qed

section \<open>The operations of a path\<close>

lemma new_with_path_id_ok:
  assumes "new_with_path_id i dlim slim sc dc nw tok = Inr p"
  shows "path_ok (max dlim 2) (max slim 2) p" "pc_path_id p = i"
  using assms
  by (auto simp: new_with_path_id_def path_ok_def bd_ok_def ss_ok_def Deque_new_def SeqSet_new_def usable_def seqs_def
      checked_mul_def checked_sub_def Let_def split: if_splits)

lemma path_limit_ok:
  assumes "path_ok dlim slim p" "slim \<le> v" "v \<le> usize_max div 2"
  shows "path_ok dlim v (path_set_source_conn_id_limit v p)"
    "pc_path_id (path_set_source_conn_id_limit v p) = pc_path_id p"
  using assms
  by (auto simp: path_set_source_conn_id_limit_def path_ok_def bd_ok_def Deque_resize_def usable_def seqs_def min_def Let_def)

lemma path_initial_ok:
  "path_ok dlim slim p \<Longrightarrow> path_ok dlim slim (path_set_initial_dcid cid seq tok nw p)"
  "path_ok dlim slim p \<Longrightarrow> path_ok dlim slim (path_set_initial_scid cid tok nw p)"
  by (auto simp: path_set_initial_dcid_def path_set_initial_scid_def Deque_clear_and_insert_def path_ok_def
      bd_ok_def usable_def seqs_def)

lemma Deque_insert_seqs:
  assumes "Deque_insert ce_seq e d = Inr d'"
  shows "seqs d' = seqs d \<or> seqs d' = seqs d @ [ce_seq e]"
  using assms map_modify_first [of ce_seq "ce_seq e" "\<lambda>_. e" "bd_inner d"]
  by (auto simp: Deque_insert_def seqs_def split: if_splits)

lemma path_insert_scid_ok:
  assumes ok: "path_ok dlim slim p" and u: "length (usable p) < slim"
    and i: "Deque_insert ce_seq e (pc_scids p) = Inr d"
  shows "path_ok dlim slim (p\<lparr>pc_scids := d\<rparr>)"
proof -
  have "bd_ok ce_seq d" "bd_capacity d = bd_capacity (pc_scids p)"
    using cids.ins_invar [OF _ i] ok by (auto simp: path_ok_def)
  moreover have "length (usable (p\<lparr>pc_scids := d\<rparr>)) \<le> Suc (length (usable p))"
    using Deque_insert_seqs [OF i] by (auto simp: usable_def)
  ultimately show ?thesis using ok u by (simp add: path_ok_def)
qed

lemma path_new_scid_ok:
  assumes ok: "path_ok dlim slim p" and r: "path_new_scid cid tok nw b p = (p', r)"
  shows "path_ok dlim slim p' \<and> pc_path_id p' = pc_path_id p"
proof (cases "pc_initialized_scid p")
  case False
  then show ?thesis using r path_initial_ok(2) [OF ok] by (auto simp: path_new_scid_def path_set_initial_scid_def)
next
  case True
  obtain p1 r1 where room: "new_scid_room b p = (p1, r1)" by fastforce
  note ok1 = new_scid_room_ok [OF ok room]
  show ?thesis
  proof (cases r1)
    case (Inl f)
    then show ?thesis using r room True ok1 by (simp add: path_new_scid_def)
  next
    case (Inr x)
    then have u: "length (usable p1) < slim" using ok1(2) by simp
    let ?e = "\<lparr>ce_cid = cid, ce_seq = pc_next_scid_seq p1, ce_reset_token = tok, ce_network_path = nw\<rparr>"
    consider "p' = p1" | d where "Deque_insert ce_seq ?e (pc_scids p1) = Inr d"
        "p' = p1\<lparr>pc_scids := d\<rparr> \<or> p' = p1\<lparr>pc_scids := d, pc_next_scid_seq := Suc (pc_next_scid_seq p1)\<rparr>"
      using r room True Inr
      by (cases "Deque_insert ce_seq ?e (pc_scids p1)")
        (auto simp: path_new_scid_def Let_def checked_add_def split: if_splits option.splits)
    then show ?thesis
    proof cases
      case 1
      then show ?thesis using ok1 by simp
    next
      case (2 d)
      then have "path_ok dlim slim (p1\<lparr>pc_scids := d\<rparr>)" using path_insert_scid_ok [OF ok1(1) u] by blast
      with 2 ok1(4) show ?thesis by (auto simp: path_ok_def usable_def)
    qed
  qed
qed

lemma SeqSet_insert_ok: "ss_ok s \<Longrightarrow> SeqSet_insert e s = Inr s' \<Longrightarrow> ss_ok s'"
  using card_insert_le_m1 [of "ss_capacity s" "ss_inner s" e]
  by (auto simp: SeqSet_insert_def ss_ok_def card_insert_if split: if_splits)

lemma path_mark_ok:
  "path_ok dlim slim p \<Longrightarrow> path_mark_retire_dcid_seq seq b p = Inr p' \<Longrightarrow>
     path_ok dlim slim p' \<and> pc_path_id p' = pc_path_id p"
  using SeqSet_insert_ok [of "pc_retire_dcid_seqs p" seq] card_Diff1_le [of "ss_inner (pc_retire_dcid_seqs p)" seq]
  by (auto simp: path_mark_retire_dcid_seq_def path_ok_def usable_def SeqSet_remove_def ss_ok_def split: if_splits)

lemma retire_drained_ok: "ss_ok s \<Longrightarrow> retire_drained es s ret = (s', ret', q) \<Longrightarrow> ss_ok s'"
  by (induction es s ret rule: retire_drained.induct)
    (auto simp: Let_def split: option.splits sum.splits dest: SeqSet_insert_ok)

text \<open>Draining may empty the collection; the new entry then finds room.\<close>

lemma new_dcid_retire_ok:
  assumes ok: "path_ok dlim slim p" and r: "new_dcid_retire pp rpt (p, ret) = ((p1, ret1), q)"
  obtains i where "p1 = p\<lparr>pc_dcids := (pc_dcids p)\<lparr>bd_inner := drop i (bd_inner (pc_dcids p))\<rparr>,
      pc_retire_dcid_seqs := pc_retire_dcid_seqs p1,
      pc_largest_peer_retire_prior_to := pc_largest_peer_retire_prior_to p1\<rparr>"
    "ss_ok (pc_retire_dcid_seqs p1)"
proof (cases "rpt > pc_largest_peer_retire_prior_to p")
  case True
  let ?i = "pp (map (\<lambda>e. ce_seq e < rpt) (bd_inner (pc_dcids p)))"
  obtain s ret2 q2 where d: "retire_drained (take ?i (bd_inner (pc_dcids p))) (pc_retire_dcid_seqs p) ret = (s, ret2, q2)"
    by (metis prod_cases3)
  then have "ss_ok s" using retire_drained_ok ok by (auto simp: path_ok_def)
  then show ?thesis using that [of ?i] r True d by (auto simp: new_dcid_retire_def Let_def)
next
  case False
  then show ?thesis using that [of 0] r ok by (auto simp: new_dcid_retire_def path_ok_def)
qed

lemma insert_drained_ok:
  fixes i :: nat and d d' :: "cid_entry bounded_deque"
  assumes ok: "bd_ok ce_seq d" "2 \<le> bd_capacity d" and n: "ce_seq e \<notin> set (map ce_seq (bd_inner d))"
  defines "d1 \<equiv> d\<lparr>bd_inner := drop i (bd_inner d)\<rparr>"
  shows "Deque_insert ce_seq e d1 = Inr d' \<Longrightarrow> bd_ok ce_seq d' \<and> bd_capacity d' = bd_capacity d"
    "Deque_insert ce_seq e d1 = Inl f \<Longrightarrow> bd_ok ce_seq d1"
proof -
  have n1: "ce_seq e \<notin> set (map ce_seq (drop i (bd_inner d)))"
    using n by (metis drop_map in_set_dropD)
  then have "Deque_get ce_seq (ce_seq e) d1 = None"
    unfolding Deque_get_def find_id_None by (simp add: d1_def)
  note n1 = this n1
  have dd: "distinct (map ce_seq (drop i (bd_inner d)))" using ok(1) by (simp add: bd_ok_def drop_map [symmetric])
  show "bd_ok ce_seq d' \<and> bd_capacity d' = bd_capacity d" if "Deque_insert ce_seq e d1 = Inr d'"
    using that n1 dd by (auto simp: Deque_insert_def d1_def bd_ok_def split: if_splits)
  show "bd_ok ce_seq d1" if "Deque_insert ce_seq e d1 = Inl f"
    using that n1 dd ok by (auto simp: Deque_insert_def d1_def bd_ok_def split: if_splits)
qed

lemma path_new_dcid_ok:
  assumes ok: "path_ok dlim slim p" and r: "path_new_dcid pp cid seq tok rpt (p, ret) = ((p', ret'), r)"
  shows "path_ok dlim slim p' \<and> pc_path_id p' = pc_path_id p"
proof (cases "pc_initialized_dcid p \<and> find (\<lambda>e. ce_cid e = cid \<or> ce_seq e = seq) (bd_inner (pc_dcids p)) = None \<and>
    rpt \<le> seq \<and> pc_largest_peer_retire_prior_to p \<le> seq")
  case False
  then consider "p' = p" | "p' = path_set_initial_dcid cid seq (Some tok) None p"
    | "path_mark_retire_dcid_seq seq True p = Inr p'"
    using r by (auto simp: path_new_dcid_def split: option.splits if_splits sum.splits)
  then show ?thesis
    using ok path_initial_ok(1) [OF ok] path_mark_ok [OF ok] by cases (auto simp: path_set_initial_dcid_def)
next
  case True
  let ?q = "p\<lparr>pc_largest_destination_seq := max (pc_largest_destination_seq p) seq\<rparr>"
  let ?e = "\<lparr>ce_cid = cid, ce_seq = seq, ce_reset_token = Some tok, ce_network_path = None\<rparr>"
  have okq: "path_ok dlim slim ?q" using ok by (simp add: path_ok_def usable_def)
  obtain p1 ret1 q1 where d: "new_dcid_retire pp rpt (?q, ret) = ((p1, ret1), q1)" by (metis prod_cases3 surj_pair)
  obtain i where i: "p1 = ?q\<lparr>pc_dcids := (pc_dcids ?q)\<lparr>bd_inner := drop i (bd_inner (pc_dcids ?q))\<rparr>,
      pc_retire_dcid_seqs := pc_retire_dcid_seqs p1,
      pc_largest_peer_retire_prior_to := pc_largest_peer_retire_prior_to p1\<rparr>" and s: "ss_ok (pc_retire_dcid_seqs p1)"
    by (rule new_dcid_retire_ok [OF okq d])
  have f: "pc_dcids p1 = (pc_dcids p)\<lparr>bd_inner := drop i (bd_inner (pc_dcids p))\<rparr>" "pc_scids p1 = pc_scids p"
    "pc_path_id p1 = pc_path_id p" "pc_retire_prior_to p1 = pc_retire_prior_to p"
    "pc_source_conn_id_limit p1 = pc_source_conn_id_limit p"
    by (subst i, simp)+
  have n: "ce_seq ?e \<notin> set (map ce_seq (bd_inner (pc_dcids p)))" using True by (auto simp: find_None_iff)
  have pre: "bd_ok ce_seq (pc_dcids p)" "2 \<le> bd_capacity (pc_dcids p)" using ok by (auto simp: path_ok_def)
  note ins = insert_drained_ok [OF pre n, where i = i, folded f(1)]
  have base: "path_ok dlim slim (p1\<lparr>pc_dcids := dd\<rparr>)" if "bd_ok ce_seq dd" "bd_capacity dd = bd_capacity (pc_dcids p)" for dd
    using ok that f s by (simp add: path_ok_def usable_def)
  show ?thesis
  proof (cases "Deque_insert ce_seq ?e (pc_dcids p1)")
    case (Inl g)
    then have "p' = p1" using r True d by (simp add: path_new_dcid_def Let_def)
    moreover have "path_ok dlim slim (p1\<lparr>pc_dcids := pc_dcids p1\<rparr>)"
      using ins(2) [OF Inl] f(1) by (intro base) auto
    then have "path_ok dlim slim p1" by simp
    ultimately show ?thesis using f(3) by simp
  next
    case (Inr dd)
    then have "p' = p1\<lparr>pc_dcids := dd\<rparr>" using r True d by (simp add: path_new_dcid_def Let_def)
    then show ?thesis using ins(1) [OF Inr] base f by simp
  qed
qed

lemma usable_remove:
  assumes "seqs d = remove1 seq (seqs (pc_scids p))"
  shows "length (usable (p\<lparr>pc_scids := d\<rparr>)) \<le> length (usable p)"
proof -
  have "length (filter P (remove1 x xs)) \<le> length (filter P xs)" for P and x :: nat and xs
    by (induction xs) auto
  then show ?thesis by (simp add: usable_def assms)
qed

lemma usable_lowest: "usable p \<noteq> [] \<Longrightarrow> usable (p\<lparr>pc_retire_prior_to := min_list (usable p)\<rparr>) = usable p"
proof -
  assume ne: "usable p \<noteq> []"
  have "pc_retire_prior_to p \<le> min_list (usable p)" using min_list_mem [OF ne] by (simp add: usable_def)
  moreover have "min_list (usable p) \<le> q" if "q \<in> set (seqs (pc_scids p))" "pc_retire_prior_to p \<le> q" for q
    using that min_list_le [of q "usable p"] by (auto simp: usable_def)
  ultimately show ?thesis
    unfolding usable_def by (intro filter_cong) (auto simp: usable_def intro: order_trans)
qed

lemma Deque_remove_ok:
  assumes "bd_ok ce_seq d" "Deque_remove ce_seq seq a d = Inr (d', x)"
  shows "bd_ok ce_seq d'" "bd_capacity d' = bd_capacity d"
    "seqs d' = seqs d \<or> seqs d' = remove1 seq (seqs d)"
  using cids.rem_invar [OF assms] assms(2) map_remove_first [of ce_seq seq "bd_inner d"]
  by (auto simp: Deque_remove_def seqs_def split: if_splits)

lemma path_retire_scid_ok:
  assumes ok: "path_ok dlim slim p" and r: "path_retire_scid seq pkt p = (p', r)"
  shows "path_ok dlim slim p' \<and> pc_path_id p' = pc_path_id p"
proof -
  have rem: "path_ok dlim slim (p\<lparr>pc_scids := d\<rparr>)"
    if "Deque_remove ce_seq seq (pc_closing p) (pc_scids p) = Inr (d, x)" for d x
    using Deque_remove_ok [OF _ that] ok usable_remove [of d seq p]
    by (auto simp: path_ok_def) (simp add: usable_def)
  have low: "path_ok dlim slim (q\<lparr>pc_retire_prior_to := min_list (usable q)\<rparr>)"
    if "path_ok dlim slim q" "usable q \<noteq> []" for q
    using that usable_lowest [OF that(2)] by (simp add: path_ok_def)
  consider "p' = p" | d x where "Deque_remove ce_seq seq (pc_closing p) (pc_scids p) = Inr (d, x)"
      "p' = p\<lparr>pc_scids := d\<rparr> \<or> (usable (p\<lparr>pc_scids := d\<rparr>) \<noteq> [] \<and>
         p' = p\<lparr>pc_scids := d, pc_retire_prior_to := min_list (usable (p\<lparr>pc_scids := d\<rparr>))\<rparr>)"
    using r
    by (cases "Deque_remove ce_seq seq (pc_closing p) (pc_scids p)")
      (auto simp: path_retire_scid_def lowest_usable_eq Let_def split: if_splits option.splits)
  then show ?thesis
  proof cases
    case 1
    then show ?thesis using ok by simp
  next
    case (2 d x)
    then show ?thesis using rem [OF 2(1)] low [of "p\<lparr>pc_scids := d\<rparr>"] by auto
  qed
qed

lemma path_retire_dcid_ok:
  assumes ok: "path_ok dlim slim p" and r: "path_retire_dcid seq p = (p', r)"
  shows "path_ok dlim slim p' \<and> pc_path_id p' = pc_path_id p"
proof (cases "Deque_remove ce_seq seq (pc_closing p) (pc_dcids p)")
  case (Inl f)
  then show ?thesis using r ok by (simp add: path_retire_dcid_def)
next
  case (Inr dx)
  obtain d x where dx: "dx = (d, x)" by fastforce
  have ok1: "path_ok dlim slim (p\<lparr>pc_dcids := d\<rparr>)"
    using Deque_remove_ok [OF _ Inr [unfolded dx]] ok by (simp add: path_ok_def usable_def)
  consider "p' = p\<lparr>pc_dcids := d\<rparr>" | "path_mark_retire_dcid_seq seq True (p\<lparr>pc_dcids := d\<rparr>) = Inr p'"
    using r Inr dx
    by (cases x; cases "path_mark_retire_dcid_seq seq True (p\<lparr>pc_dcids := d\<rparr>)") (auto simp: path_retire_dcid_def)
  then show ?thesis using ok1 path_mark_ok [OF ok1] by cases auto
qed

lemma link_entry_ok [simp]:
  "bd_ok ce_seq (link_entry seq nw d) = bd_ok ce_seq d" "seqs (link_entry seq nw d) = seqs d"
  "bd_capacity (link_entry seq nw d) = bd_capacity d"
proof -
  have m: "map ce_seq (bd_inner (link_entry seq nw d)) = map ce_seq (bd_inner d)"
    using map_modify_first [of ce_seq seq "\<lambda>e. e\<lparr>ce_network_path := Some nw\<rparr>" "bd_inner d"] by (simp add: link_entry_def)
  then show "seqs (link_entry seq nw d) = seqs d" by (simp add: seqs_def)
  show "bd_ok ce_seq (link_entry seq nw d) = bd_ok ce_seq d" unfolding bd_ok_def m by (simp add: link_entry_def)
qed (simp add: link_entry_def)

lemma path_link_ok:
  "path_ok dlim slim p \<Longrightarrow> path_ok dlim slim (p\<lparr>pc_scids := link_entry seq nw (pc_scids p)\<rparr>)"
  "path_ok dlim slim p \<Longrightarrow> path_ok dlim slim (p\<lparr>pc_dcids := link_entry seq nw (pc_dcids p)\<rparr>)"
  by (auto simp: path_ok_def usable_def)

section \<open>The operations of a connection\<close>

definition conn_ok :: "conn_ids \<Rightarrow> bool" where
  "conn_ok c \<longleftrightarrow> bd_ok pc_path_id (ci_pcids c) \<and>
     (\<forall>p \<in> set (bd_inner (ci_pcids c)).
        path_ok (ci_destination_conn_id_limit c) (ci_source_conn_id_limit c) p \<and>
        pc_path_id p \<notin> set (ci_closed_path_id c)) \<and>
     2 \<le> ci_source_conn_id_limit c \<and> ci_source_conn_id_limit c \<le> usize_max div 2 \<and>
     2 \<le> ci_destination_conn_id_limit c"

lemma get_pcids_eq: "get_pcids i c = Deque_get pc_path_id i (ci_pcids c)"
  by (simp add: get_pcids_def Deque_get_def)

lemma get_pcidsD:
  assumes "conn_ok c" "get_pcids i c = Some p"
  shows "path_ok (ci_destination_conn_id_limit c) (ci_source_conn_id_limit c) p" "pc_path_id p = i"
    "p \<in> set (bd_inner (ci_pcids c))"
  using assms find_id_Some [of pc_path_id i] by (fastforce simp: conn_ok_def get_pcids_def)+

lemma conn_ok_put:
  assumes ok: "conn_ok c" and g: "get_pcids i c = Some p"
    and p': "path_ok (ci_destination_conn_id_limit c) (ci_source_conn_id_limit c) p' \<and> pc_path_id p' = pc_path_id p"
  shows "conn_ok (put_pcids p' c)"
proof -
  have m: "map pc_path_id (modify_first (\<lambda>q. pc_path_id q = pc_path_id p') (\<lambda>_. p') (bd_inner (ci_pcids c))) =
      map pc_path_id (bd_inner (ci_pcids c))"
    by (rule map_modify_first) simp
  have "bd_ok pc_path_id (ci_pcids (put_pcids p' c))"
    using ok m by (simp add: conn_ok_def bd_ok_def put_pcids_def)
  moreover have "pc_path_id p' \<notin> set (ci_closed_path_id c)"
    using get_pcidsD(3) [OF ok g] p' ok by (auto simp: conn_ok_def)
  ultimately show ?thesis
    using ok p' by (auto simp: conn_ok_def put_pcids_def dest!: set_modify_first)
qed

lemma conn_ok_cong:
  "conn_ok c \<Longrightarrow> ci_pcids c' = ci_pcids c \<Longrightarrow> ci_closed_path_id c' = ci_closed_path_id c \<Longrightarrow>
     ci_source_conn_id_limit c' = ci_source_conn_id_limit c \<Longrightarrow>
     ci_destination_conn_id_limit c' = ci_destination_conn_id_limit c \<Longrightarrow> conn_ok c'"
  by (simp add: conn_ok_def)

lemma conn_ok_mark [simp]: "conn_ok (mark_advertise_new_scid_seq i q b c) = conn_ok c"
  by (auto simp: mark_advertise_new_scid_seq_def conn_ok_def)

lemma conn_ok_start:
  assumes "ConnIds_new dlim cid nw tok = Inr c"
  shows "conn_ok c"
proof -
  obtain p where p: "PathCids_new (max dlim 2) 2 cid (Some nw) tok = Inr p"
      and c: "ci_pcids c = Deque_new 1 p" "ci_source_conn_id_limit c = 2"
        "ci_destination_conn_id_limit c = max dlim 2" "ci_closed_path_id c = []"
    using assms by (auto simp: ConnIds_new_def Let_def)
  have "path_ok (max dlim 2) 2 p"
    using new_with_path_id_ok(1) [OF p [unfolded PathCids_new_def]] by simp
  then show ?thesis by (simp add: conn_ok_def c Deque_new_def bd_ok_def)
qed

lemma conn_ok_space:
  assumes ok: "conn_ok c" and n: "new_path_space i sc dc nw tok c = Inr c'" and g: "get_pcids i c = None"
  shows "conn_ok c'"
proof -
  obtain p d where p: "new_with_path_id i (ci_destination_conn_id_limit c) (ci_source_conn_id_limit c) sc dc nw tok = Inr p"
      and d: "Deque_insert pc_path_id p (ci_pcids c) = Inr d" and i: "i \<notin> set (ci_closed_path_id c)"
      and c': "ci_pcids c' = d" "ci_closed_path_id c' = ci_closed_path_id c"
        "ci_source_conn_id_limit c' = ci_source_conn_id_limit c"
        "ci_destination_conn_id_limit c' = ci_destination_conn_id_limit c"
    using n by (auto simp: new_path_space_def split: if_splits)
  have pok: "path_ok (ci_destination_conn_id_limit c) (ci_source_conn_id_limit c) p" "pc_path_id p = i"
    using new_with_path_id_ok [OF p] ok by (auto simp: conn_ok_def max_def)
  have "bd_ok pc_path_id d" using paths.ins_invar [OF _ d] ok by (simp add: conn_ok_def)
  moreover have "bd_inner d = bd_inner (ci_pcids c) @ [p]"
    using d g pok(2) by (auto simp: Deque_insert_def get_pcids_eq split: if_splits)
  ultimately show ?thesis using ok pok i by (auto simp: conn_ok_def c')
qed

lemma conn_ok_new_scid:
  assumes ok: "conn_ok c" and n: "new_scid i cid tok av nw b c = (c', r)"
  shows "conn_ok c'"
proof (cases "get_pcids i c")
  case None
  then consider "c' = c" | c1 where "new_path_space i (Some cid) None nw tok c = Inr c1"
      "c' = mark_advertise_new_scid_seq i 0 av c1"
    using n by (cases "new_path_space i (Some cid) None nw tok c") (auto simp: new_scid_def split: if_splits)
  then show ?thesis using ok conn_ok_space [OF ok _ None] by cases auto
next
  case (Some p)
  obtain p' r' where p': "path_new_scid cid tok nw b p = (p', r')" by fastforce
  have "conn_ok (put_pcids p' c)"
    by (rule conn_ok_put [OF ok Some path_new_scid_ok [OF get_pcidsD(1) [OF ok Some] p']])
  moreover have "c' = c \<or> c' = put_pcids p' c \<or> (\<exists>q. c' = mark_advertise_new_scid_seq i q av (put_pcids p' c))"
    using n Some p' by (cases r') (auto simp: new_scid_def split: if_splits)
  ultimately show ?thesis using ok by auto
qed

lemma conn_ok_new_dcid:
  assumes ok: "conn_ok c" and n: "new_dcid pp i cid seq tok rpt (c, ret) = ((c', ret'), r)"
  shows "conn_ok c'"
proof (cases "get_pcids i c")
  case None
  then show ?thesis
    using n ok conn_ok_space [OF ok _ None]
    by (cases "new_path_space i None (Some cid) None (Some tok) c") (auto simp: new_dcid_def split: if_splits)
next
  case (Some p)
  obtain p' ret1 r' where p': "path_new_dcid pp cid seq tok rpt (p, ret) = ((p', ret1), r')" by (metis prod_cases3 surj_pair)
  have "conn_ok (put_pcids p' c)"
    by (rule conn_ok_put [OF ok Some path_new_dcid_ok [OF get_pcidsD(1) [OF ok Some] p']])
  then show ?thesis using n ok Some p' by (auto simp: new_dcid_def split: if_splits)
qed

lemma conn_ok_retire_scid:
  assumes ok: "conn_ok c" and n: "retire_scid i seq pkt c = (c', r)"
  shows "conn_ok c'"
proof (cases "get_pcids i c")
  case None
  then show ?thesis using n ok by (simp add: retire_scid_def)
next
  case (Some p)
  obtain p' r' where p': "path_retire_scid seq pkt p = (p', r')" by fastforce
  have "conn_ok (put_pcids p' c)"
    by (rule conn_ok_put [OF ok Some path_retire_scid_ok [OF get_pcidsD(1) [OF ok Some] p']])
  moreover have "c' = put_pcids p' c \<or> (\<exists>x. c' = (put_pcids p' c)\<lparr>ci_retired_scids := x\<rparr>)"
    using n Some p' by (cases r') (auto simp: retire_scid_def split: option.splits)
  ultimately show ?thesis by (auto elim: conn_ok_cong)
qed

lemma conn_ok_retire_dcid:
  assumes ok: "conn_ok c" and n: "retire_dcid i seq c = (c', r)"
  shows "conn_ok c'"
proof (cases "get_pcids i c")
  case None
  then show ?thesis using n ok by (auto simp: retire_dcid_def split: if_splits)
next
  case (Some p)
  obtain p' r' where p': "path_retire_dcid seq p = (p', r')" by fastforce
  have "conn_ok (put_pcids p' c)"
    by (rule conn_ok_put [OF ok Some path_retire_dcid_ok [OF get_pcidsD(1) [OF ok Some] p']])
  then show ?thesis using n ok Some p' by (auto simp: retire_dcid_def split: if_splits)
qed

lemma bd_ok_map:
  assumes "\<forall>x \<in> set (bd_inner d). idf (f x) = idf x" "bd_ok idf d"
  shows "bd_ok idf (d\<lparr>bd_inner := map f (bd_inner d)\<rparr>)"
  using assms by (auto simp: bd_ok_def distinct_map inj_on_def)

lemma Deque_resize_simps [simp]:
  "bd_inner (Deque_resize n d) = bd_inner d" "bd_ok idf d \<Longrightarrow> bd_ok idf (Deque_resize n d)"
  by (auto simp: Deque_resize_def bd_ok_def)

lemma conn_ok_limit:
  assumes ok: "conn_ok c" and v: "ci_source_conn_id_limit c \<le> v"
  shows "conn_ok (set_source_conn_id_limit v c)"
proof -
  let ?v = "min v (usize_max div 2)"
  have v2: "2 \<le> ?v" "ci_source_conn_id_limit c \<le> ?v" using ok v by (auto simp: conn_ok_def)
  have p: "path_ok (ci_destination_conn_id_limit c) ?v (path_set_source_conn_id_limit ?v p)"
    "pc_path_id (path_set_source_conn_id_limit ?v p) = pc_path_id p" if "p \<in> set (bd_inner (ci_pcids c))" for p
    using path_limit_ok [of "ci_destination_conn_id_limit c" "ci_source_conn_id_limit c" p ?v] that ok v2
    by (auto simp: conn_ok_def)
  have "bd_ok pc_path_id ((ci_pcids c)\<lparr>bd_inner := map (path_set_source_conn_id_limit ?v) (bd_inner (ci_pcids c))\<rparr>)"
    using p(2) ok by (intro bd_ok_map) (auto simp: conn_ok_def)
  then show ?thesis
    using ok v2 p unfolding conn_ok_def set_source_conn_id_limit_def Let_def by simp
qed

lemma conn_ok_resize: "conn_ok c \<Longrightarrow> maybe_resize_pcids c = Inr c' \<Longrightarrow> conn_ok c'"
  by (auto simp: maybe_resize_pcids_def conn_ok_def)

lemma conn_ok_max_path_id:
  "conn_ok c \<Longrightarrow> set_local_max_path_id v b c = Inr c' \<Longrightarrow> conn_ok c'"
  "conn_ok c \<Longrightarrow> set_remote_max_path_id v c = Inr c' \<Longrightarrow> conn_ok c'"
  by (auto simp: set_local_max_path_id_def set_remote_max_path_id_def Let_def split: if_splits
      elim!: conn_ok_resize [rotated] elim: conn_ok_cong)

lemma conn_ok_link:
  "conn_ok c \<Longrightarrow> link_scid_to_network_path i seq nw c = Inr c' \<Longrightarrow> conn_ok c'"
  "conn_ok c \<Longrightarrow> link_dcid_to_network_path i seq nw c = Inr c' \<Longrightarrow> conn_ok c'"
  by (auto simp: link_scid_to_network_path_def link_dcid_to_network_path_def ok_or_def path_link_ok
      split: option.splits dest: get_pcidsD(1) intro!: conn_ok_put)

lemma conn_ok_mark_retire:
  "conn_ok c \<Longrightarrow> mark_retire_dcid_seq i seq b c = Inr c' \<Longrightarrow> conn_ok c'"
  by (auto simp: mark_retire_dcid_seq_def ok_or_def split: option.splits
      intro!: conn_ok_put path_mark_ok dest: get_pcidsD(1))

lemma conn_ok_initial: "conn_ok c \<Longrightarrow> conn_ok (set_initial_dcid cid tok nw c)"
proof -
  assume ok: "conn_ok c"
  let ?c = "c\<lparr>ci_zero_length_dcid := (cid = [])\<rparr>"
  have ok1: "conn_ok ?c" using ok by (rule conn_ok_cong) simp_all
  show ?thesis
  proof (cases "get_pcids 0 ?c")
    case None
    then show ?thesis using ok1 by (simp add: set_initial_dcid_def Let_def)
  next
    case (Some p)
    have "conn_ok (put_pcids (path_set_initial_dcid cid 0 tok nw p) ?c)"
      using path_initial_ok(1) [OF get_pcidsD(1) [OF ok1 Some]]
      by (intro conn_ok_put [OF ok1 Some]) (simp add: path_set_initial_dcid_def)
    then show ?thesis using Some by (simp add: set_initial_dcid_def Let_def)
  qed
qed

lemma conn_ok_closing: "conn_ok c \<Longrightarrow> conn_ok (closing_path_id i c)"
  by (auto simp: closing_path_id_def path_ok_def usable_def split: option.splits
      dest: get_pcidsD(1) intro!: conn_ok_put)

lemma conn_ok_remove_path:
  assumes ok: "conn_ok c" and n: "remove_path_id i c = (c', r)"
  shows "conn_ok c'"
proof (cases "i \<in> set (ci_closed_path_id c) \<or> max_path_id c < i \<or> length (bd_inner (ci_pcids c)) \<le> 1")
  case True
  then have "c' = c" using n by (auto simp: remove_path_id_def Deque_remove_def split: if_splits)
  with ok show ?thesis by simp
next
  case False
  let ?d = "(ci_pcids c)\<lparr>bd_inner := remove_first (\<lambda>p. pc_path_id p = i) (bd_inner (ci_pcids c))\<rparr>"
  have rem: "Deque_remove pc_path_id i False (ci_pcids c) = Inr (?d, get_pcids i c)"
    using False by (simp add: Deque_remove_def get_pcids_def)
  have okd: "bd_ok pc_path_id ?d" using paths.rem_invar [OF _ rem] ok by (simp add: conn_ok_def)
  have gone: "i \<notin> set (map pc_path_id (bd_inner ?d))"
    using ok by (simp add: map_remove_first conn_ok_def bd_ok_def del: set_map)
  have ok1: "conn_ok (c\<lparr>ci_pcids := ?d\<rparr>)"
    using ok okd set_remove_first by (fastforce simp: conn_ok_def)
  moreover have "conn_ok (c\<lparr>ci_pcids := ?d, ci_retired_scids := x, ci_closed_path_id := ci_closed_path_id c @ [i]\<rparr>)" for x
    using ok1 gone by (auto simp: conn_ok_def)
  moreover have "c' = c\<lparr>ci_pcids := ?d\<rparr> \<or>
      (\<exists>x. c' = c\<lparr>ci_pcids := ?d, ci_retired_scids := x, ci_closed_path_id := ci_closed_path_id c @ [i]\<rparr>)"
  proof (cases "get_pcids i c")
    case None
    then have "c' = c\<lparr>ci_pcids := ?d, ci_closed_path_id := ci_closed_path_id c @ [i]\<rparr>"
      using n False rem by (simp add: remove_path_id_def Let_def)
    then have "c' = c\<lparr>ci_pcids := ?d, ci_retired_scids := ci_retired_scids c, ci_closed_path_id := ci_closed_path_id c @ [i]\<rparr>"
      by simp
    then show ?thesis by blast
  next
    case (Some p)
    then show ?thesis using n False rem
      by (cases "fold_res (\<lambda>e. path_mark_retire_dcid_seq (ce_seq e) True) (bd_inner (pc_dcids p)) p")
        (auto simp: remove_path_id_def Let_def)
  qed
  ultimately show ?thesis by auto
qed

section \<open>Runs\<close>

text \<open>Every operation of a connection on its identifiers, with any outcome. The limit of the peer
  is not lowered.\<close>

inductive cid_run :: "(bool list \<Rightarrow> nat) \<Rightarrow> conn_ids \<Rightarrow> bool" for pp where
  cr_start: "ConnIds_new dlim cid nw tok = Inr c \<Longrightarrow> cid_run pp c"
| cr_new_scid: "cid_run pp c \<Longrightarrow> new_scid i cid tok av npath b c = (c', rs) \<Longrightarrow> cid_run pp c'"
| cr_new_dcid: "cid_run pp c \<Longrightarrow> new_dcid pp i cid seq tk rpt (c, ret) = ((c', ret'), ru) \<Longrightarrow> cid_run pp c'"
| cr_retire_scid: "cid_run pp c \<Longrightarrow> retire_scid i seq pkt c = (c', rn) \<Longrightarrow> cid_run pp c'"
| cr_retire_dcid: "cid_run pp c \<Longrightarrow> retire_dcid i seq c = (c', rn) \<Longrightarrow> cid_run pp c'"
| cr_initial: "cid_run pp c \<Longrightarrow> cid_run pp (set_initial_dcid cid tok npath c)"
| cr_limit: "cid_run pp c \<Longrightarrow> ci_source_conn_id_limit c \<le> v \<Longrightarrow> cid_run pp (set_source_conn_id_limit v c)"
| cr_local_max: "cid_run pp c \<Longrightarrow> set_local_max_path_id v b c = Inr c' \<Longrightarrow> cid_run pp c'"
| cr_remote_max: "cid_run pp c \<Longrightarrow> set_remote_max_path_id v c = Inr c' \<Longrightarrow> cid_run pp c'"
| cr_link_scid: "cid_run pp c \<Longrightarrow> link_scid_to_network_path i seq nw c = Inr c' \<Longrightarrow> cid_run pp c'"
| cr_link_dcid: "cid_run pp c \<Longrightarrow> link_dcid_to_network_path i seq nw c = Inr c' \<Longrightarrow> cid_run pp c'"
| cr_advertise: "cid_run pp c \<Longrightarrow> cid_run pp (mark_advertise_new_scid_seq i seq b c)"
| cr_mark_retire: "cid_run pp c \<Longrightarrow> mark_retire_dcid_seq i seq b c = Inr c' \<Longrightarrow> cid_run pp c'"
| cr_closing: "cid_run pp c \<Longrightarrow> cid_run pp (closing_path_id i c)"
| cr_remove_path: "cid_run pp c \<Longrightarrow> remove_path_id i c = (c', ru) \<Longrightarrow> cid_run pp c'"
| cr_spare: "cid_run pp c \<Longrightarrow> cid_run pp (consume_lowest_spare_path_id c)"
| cr_pop: "cid_run pp c \<Longrightarrow> pop_retired_scid c = (x, c') \<Longrightarrow> cid_run pp c'"
| cr_sent: "cid_run pp c \<Longrightarrow> cid_run pp (on_max_path_id_sent c)"

lemmas conn_ok_steps = conn_ok_new_scid conn_ok_new_dcid conn_ok_retire_scid conn_ok_retire_dcid
  conn_ok_initial conn_ok_limit conn_ok_max_path_id conn_ok_link conn_ok_mark_retire conn_ok_closing
  conn_ok_remove_path

lemma cid_run_ok: "cid_run pp c \<Longrightarrow> conn_ok c"
proof (induction rule: cid_run.induct)
  case (cr_start dlim cid nw tok c)
  then show ?case by (rule conn_ok_start)
next
  case (cr_advertise c i seq b)
  then show ?case by simp
next
  case (cr_spare c)
  then show ?case by (auto simp: consume_lowest_spare_path_id_def elim: conn_ok_cong)
next
  case (cr_pop c x c')
  then show ?case by (auto simp: pop_retired_scid_def elim: conn_ok_cong split: list.splits)
next
  case (cr_sent c)
  then show ?case by (auto simp: on_max_path_id_sent_def elim: conn_ok_cong)
qed (rule conn_ok_steps; assumption)+

end
