(* ===== verification/Cid_Props.thy ===== *)
theory Cid_Props
  imports Cid_Correct
begin

text \<open>
  What the connection identifiers promise: their limits along every run, the retirement that a
  NEW_CONNECTION_ID frame asks for when identifiers arrive in order, the end of the loop that
  retires them; and the cases in which the code breaks the protocol.
\<close>

section \<open>The search for the partition point\<close>

locale partition_search =
  fixes pp :: "bool list \<Rightarrow> nat"
  assumes pp_bound: "pp bs \<le> length bs"
    and pp_split: "pp (replicate n True @ replicate m False) = n"
begin

lemma pp_sorted:
  assumes "sorted (map f xs)"
  shows "take (pp (map (\<lambda>x. f x < r) xs)) xs = filter (\<lambda>x. f x < r) xs"
    "drop (pp (map (\<lambda>x. f x < r) xs)) xs = filter (\<lambda>x. r \<le> f x) xs"
proof -
  let ?a = "filter (\<lambda>x. f x < r) xs" and ?b = "filter (\<lambda>x. r \<le> f x) xs"
  have xs: "xs = ?a @ ?b"
    using assms
  proof (induction xs)
    case (Cons x xs)
    have "filter (\<lambda>y. f y < r) xs = []" if "r \<le> f x" using Cons.prems that by (auto simp: filter_empty_conv)
    moreover have "filter (\<lambda>y. r \<le> f y) xs = xs" if "r \<le> f x" using Cons.prems that by (auto simp: filter_id_conv)
    ultimately show ?case using Cons by (cases "f x < r") auto
  qed simp
  have "map (\<lambda>x. f x < r) ?a = replicate (length ?a) True" "map (\<lambda>x. f x < r) ?b = replicate (length ?b) False"
    by (auto simp: map_replicate_const [symmetric] simp del: map_replicate_const cong: map_cong) 
  then have "map (\<lambda>x. f x < r) xs = replicate (length ?a) True @ replicate (length ?b) False"
    by (subst xs) simp
  then have pp: "pp (map (\<lambda>x. f x < r) xs) = length ?a" by (simp add: pp_split)
  show "take (pp (map (\<lambda>x. f x < r) xs)) xs = ?a" unfolding pp by (subst xs) simp
  show "drop (pp (map (\<lambda>x. f x < r) xs)) xs = ?b" unfolding pp by (subst xs) simp
qed

end

text \<open>The binary search of the standard library on one slice.\<close>

function bisect :: "bool list \<Rightarrow> nat \<Rightarrow> nat \<Rightarrow> nat" where
  "bisect bs base sz =
     (if sz > 1 then bisect bs (if bs ! (base + sz div 2) then base + sz div 2 else base) (sz - sz div 2)
      else base)"
  by pat_completeness auto
termination
  by (relation "measure (\<lambda>(bs, base, sz). sz)") auto

declare bisect.simps [simp del]

definition slice_partition_point :: "bool list \<Rightarrow> nat" where
  "slice_partition_point bs =
     (if bs = [] then 0 else (let b = bisect bs 0 (length bs) in if bs ! b then b + 1 else b))"

lemma bisect_bound: "0 < sz \<Longrightarrow> base + sz \<le> n \<Longrightarrow> bisect bs base sz < n"
proof (induction bs base sz rule: bisect.induct)
  case (1 bs base sz)
  then show ?case
    using "1.IH" by (subst bisect.simps) (auto simp: not_less)
qed

lemma bisect_split:
  assumes "bs = replicate n True @ replicate m False" "0 < sz" "base + sz \<le> n + m" "base = 0 \<or> base < n"
    "n \<le> base + sz"
  shows "let b = bisect bs base sz in n \<le> b + 1 \<and> (b = 0 \<or> b < n)"
  using assms
proof (induction bs base sz rule: bisect.induct)
  case (1 bs base sz)
  let ?mid = "base + sz div 2"
  show ?case
  proof (cases "sz > 1")
    case True
    then have mid: "bs ! ?mid \<longleftrightarrow> ?mid < n" using "1.prems" by (auto simp: nth_append)
    have "let b = bisect bs (if bs ! ?mid then ?mid else base) (sz - sz div 2) in n \<le> b + 1 \<and> (b = 0 \<or> b < n)"
      by (rule "1.IH" [OF True "1.prems"(1)]) (use "1.prems" True mid in auto)
    then show ?thesis using True by (subst bisect.simps) simp
  next
    case False
    then show ?thesis using "1.prems" by (subst bisect.simps) (auto simp: Let_def)
  qed
qed

interpretation slice: partition_search slice_partition_point
proof
  show "slice_partition_point bs \<le> length bs" for bs
    using bisect_bound [of "length bs" 0 "length bs" bs] by (auto simp: slice_partition_point_def Let_def Suc_le_eq)
  show "slice_partition_point (replicate n True @ replicate m False) = n" for n m
  proof (cases "n + m = 0")
    case False
    let ?bs = "replicate n True @ replicate m False"
    let ?b = "bisect ?bs 0 (n + m)"
    have b: "n \<le> ?b + 1" "?b = 0 \<or> ?b < n" "?b < n + m"
      using bisect_split [of ?bs n m "n + m" 0] bisect_bound [of "n + m" 0 "n + m" ?bs] False by (auto simp: Let_def)
    then have "?bs ! ?b \<longleftrightarrow> ?b < n" by (auto simp: nth_append)
    with b False show ?thesis by (auto simp: slice_partition_point_def Let_def)
  qed (simp add: slice_partition_point_def)
qed

section \<open>Limits\<close>

text \<open>C8: Along every sequence of operations on the identifiers of a connection, failing ones
  included: there is always an oldest source and destination identifier to fall back on; no open
  path is closed; on each path the sequence numbers are unique, we hold at most as many destination
  identifiers as we allow, the peer can use at most as many of ours as it allows, we remember
  less than twice as many, and the queue of retired identifiers stays within its bound.\<close>

theorem cid_limits:
  assumes "cid_run pp c"
  shows "(\<exists>e. oldest_scid c = Inr e) \<and> (\<exists>e. oldest_dcid c = Inr e) \<and>
    (\<forall>i p. get_pcids i c = Some p \<longrightarrow>
       i \<notin> set (ci_closed_path_id c) \<and> distinct (seqs (pc_dcids p)) \<and> distinct (seqs (pc_scids p)) \<and>
       length (bd_inner (pc_dcids p)) \<le> ci_destination_conn_id_limit c \<and>
       length (usable p) \<le> ci_source_conn_id_limit c \<and>
       length (bd_inner (pc_scids p)) < 2 * ci_source_conn_id_limit c \<and>
       card (ss_inner (pc_retire_dcid_seqs p)) \<le> ss_capacity (pc_retire_dcid_seqs p))"
proof -
  have ok: "conn_ok c" using assms by (rule cid_run_ok)
  then obtain q qs where q: "bd_inner (ci_pcids c) = q # qs"
    by (cases "bd_inner (ci_pcids c)") (auto simp: conn_ok_def bd_ok_def)
  then have "path_ok (ci_destination_conn_id_limit c) (ci_source_conn_id_limit c) q" using ok by (simp add: conn_ok_def)
  then obtain e es d ds where "bd_inner (pc_scids q) = e # es" "bd_inner (pc_dcids q) = d # ds"
    by (cases "bd_inner (pc_scids q)"; cases "bd_inner (pc_dcids q)") (auto simp: path_ok_def bd_ok_def)
  with q have "oldest_scid c = Inr e" "oldest_dcid c = Inr d"
    by (simp_all add: oldest_scid_def oldest_dcid_def Deque_get_oldest_def)
  moreover have "i \<notin> set (ci_closed_path_id c) \<and> distinct (seqs (pc_dcids p)) \<and> distinct (seqs (pc_scids p)) \<and>
       length (bd_inner (pc_dcids p)) \<le> ci_destination_conn_id_limit c \<and>
       length (usable p) \<le> ci_source_conn_id_limit c \<and>
       length (bd_inner (pc_scids p)) < 2 * ci_source_conn_id_limit c \<and>
       card (ss_inner (pc_retire_dcid_seqs p)) \<le> ss_capacity (pc_retire_dcid_seqs p)"
    if g: "get_pcids i c = Some p" for i p
  proof -
    have p: "path_ok (ci_destination_conn_id_limit c) (ci_source_conn_id_limit c) p" "pc_path_id p = i"
        "p \<in> set (bd_inner (ci_pcids c))"
      using get_pcidsD [OF ok g] by blast+
    then have "i \<notin> set (ci_closed_path_id c)" using ok by (auto simp: conn_ok_def)
    moreover have "length (bd_inner (pc_scids p)) \<le> 2 * ci_source_conn_id_limit c - 1" "2 \<le> ci_source_conn_id_limit c"
      using p(1) by (auto simp: path_ok_def bd_ok_def)
    then have "length (bd_inner (pc_scids p)) < 2 * ci_source_conn_id_limit c" by linarith
    ultimately show ?thesis using p(1) by (auto simp: path_ok_def bd_ok_def ss_ok_def seqs_def)
  qed
  ultimately show ?thesis by blast
qed

definition sample_addr :: four_tuple where
  "sample_addr = (SocketV4 1 1, SocketV4 2 2)"

lemmas cid_eval = ConnIds_new_def PathCids_new_def new_with_path_id_def Deque_new_def SeqSet_new_def
  opt_and_def checked_mul_def checked_sub_def checked_add_def Let_def new_scid_def get_pcids_def put_pcids_def
  path_new_scid_def new_scid_room_def Deque_insert_def Deque_get_def mark_advertise_new_scid_seq_def
  new_path_space_def max_path_id_def lowest_usable_scid_seq_def

text \<open>A second source identifier reaches the limit, a third one needs a retirement.\<close>

lemma sample_cid_ops:
  "\<exists>c0 c1 c2 p. ConnIds_new 2 [1] sample_addr None = Inr c0 \<and>
     new_scid 0 [2] (Some 5) True None False c0 = (c1, Inr 1) \<and>
     new_scid 0 [3] (Some 6) True None True c1 = (c2, Inr 2) \<and>
     get_pcids 0 c2 = Some p \<and> usable p = [1, 2] \<and> ci_source_conn_id_limit c2 = 2"
  by (simp add: cid_eval usable_def seqs_def)

theorem cid_limits_witness:
  "\<exists>c p. cid_run (\<lambda>_. 0) c \<and> get_pcids 0 c = Some p \<and> usable p = [1, 2] \<and> length (usable p) \<le> 2 \<and>
     length (bd_inner (pc_scids p)) < 4"
proof -
  obtain c0 c1 c2 p where c: "ConnIds_new 2 [1] sample_addr None = Inr c0"
      "new_scid 0 [2] (Some 5) True None False c0 = (c1, Inr 1)" "new_scid 0 [3] (Some 6) True None True c1 = (c2, Inr 2)"
      "get_pcids 0 c2 = Some p" "usable p = [1, 2]" "ci_source_conn_id_limit c2 = 2"
    using sample_cid_ops by blast
  have "cid_run (\<lambda>_. 0) c2"
    by (rule cr_new_scid [OF cr_new_scid [OF cr_start [OF c(1)] c(2)] c(3)])
  with cid_limits [OF this] c(4-6) show ?thesis by fastforce
qed

section \<open>Retirement in order\<close>

lemma retire_drained_room:
  assumes "finite (ss_inner s)" "card (ss_inner s) + length es \<le> ss_capacity s"
  shows "retire_drained es s ret =
    (s\<lparr>ss_inner := ss_inner s \<union> set (map ce_seq es)\<rparr>,
     ret @ [(ce_seq e, nw). e \<leftarrow> es, nw \<leftarrow> (case ce_network_path e of Some nw \<Rightarrow> [nw] | None \<Rightarrow> [])], None)"
  using assms
proof (induction es arbitrary: s ret)
  case (Cons e es)
  let ?s = "s\<lparr>ss_inner := insert (ce_seq e) (ss_inner s)\<rparr>"
  have ins: "SeqSet_insert (ce_seq e) s = Inr ?s" using Cons.prems by (simp add: SeqSet_insert_def)
  have "card (ss_inner ?s) \<le> Suc (card (ss_inner s))" using Cons.prems(1) by (simp add: card_insert_if)
  then have room: "finite (ss_inner ?s)" "card (ss_inner ?s) + length es \<le> ss_capacity ?s"
    using Cons.prems by auto
  show ?case
    using Cons.IH [OF room] ins by (simp add: Let_def Un_insert_right split: option.splits)
qed simp

text \<open>C9: When the identifiers of the peer have arrived in the order of their sequence numbers, a
  new one with room left is stored at the end; a larger Retire Prior To retires exactly the
  identifiers below it, which are queued for RETIRE_CONNECTION_ID frames, and those in use on a
  network path are reported to the connection, whatever the queue of retired ones holds.\<close>

theorem new_dcid_in_order:
  assumes pp: "partition_search pp" and ok: "path_ok dlim slim p" and init: "pc_initialized_dcid p"
    and ord: "sorted (seqs (pc_dcids p))"
    and new: "\<forall>e \<in> set (bd_inner (pc_dcids p)). ce_cid e \<noteq> cid \<and> ce_seq e < seq"
    and seq: "rpt \<le> seq" "pc_largest_peer_retire_prior_to p \<le> seq"
  defines "low \<equiv> (\<lambda>e. pc_largest_peer_retire_prior_to p < rpt \<and> ce_seq e < rpt)"
  defines "old \<equiv> filter low (bd_inner (pc_dcids p))"
  defines "keep \<equiv> filter (\<lambda>e. \<not> low e) (bd_inner (pc_dcids p))"
  assumes room: "length keep < dlim"
    "card (ss_inner (pc_retire_dcid_seqs p)) + length old \<le> ss_capacity (pc_retire_dcid_seqs p)"
  shows "\<exists>p'. path_new_dcid pp cid seq tok rpt (p, ret) =
      ((p', ret @ [(ce_seq e, nw). e \<leftarrow> old, nw \<leftarrow> (case ce_network_path e of Some nw \<Rightarrow> [nw] | None \<Rightarrow> [])]), Inr ()) \<and>
    bd_inner (pc_dcids p') = keep @ [\<lparr>ce_cid = cid, ce_seq = seq, ce_reset_token = Some tok, ce_network_path = None\<rparr>] \<and>
    ss_inner (pc_retire_dcid_seqs p') = ss_inner (pc_retire_dcid_seqs p) \<union> set (map ce_seq old) \<and>
    pc_largest_peer_retire_prior_to p' = max (pc_largest_peer_retire_prior_to p) rpt \<and>
    sorted (seqs (pc_dcids p')) \<and> path_ok dlim slim p'"
proof -
  let ?e = "\<lparr>ce_cid = cid, ce_seq = seq, ce_reset_token = Some tok, ce_network_path = None\<rparr>"
  let ?q = "p\<lparr>pc_largest_destination_seq := max (pc_largest_destination_seq p) seq\<rparr>"
  let ?ret = "ret @ [(ce_seq e, nw). e \<leftarrow> old, nw \<leftarrow> (case ce_network_path e of Some nw \<Rightarrow> [nw] | None \<Rightarrow> [])]"
  let ?s = "(pc_retire_dcid_seqs p)\<lparr>ss_inner := ss_inner (pc_retire_dcid_seqs p) \<union> set (map ce_seq old)\<rparr>"
  let ?p1 = "?q\<lparr>pc_dcids := (pc_dcids p)\<lparr>bd_inner := keep\<rparr>, pc_retire_dcid_seqs := ?s,
      pc_largest_peer_retire_prior_to := max (pc_largest_peer_retire_prior_to p) rpt\<rparr>"
  have fin: "finite (ss_inner (pc_retire_dcid_seqs p))" using ok by (simp add: path_ok_def ss_ok_def)
  have ret: "new_dcid_retire pp rpt (?q, ret) = ((?p1, ?ret), None)"
  proof (cases "pc_largest_peer_retire_prior_to p < rpt")
    case True
    then have "old = filter (\<lambda>e. ce_seq e < rpt) (bd_inner (pc_dcids p))"
        "keep = filter (\<lambda>e. rpt \<le> ce_seq e) (bd_inner (pc_dcids p))"
      by (simp_all add: old_def keep_def low_def not_less)
    then have "take (pp (map (\<lambda>e. ce_seq e < rpt) (bd_inner (pc_dcids p)))) (bd_inner (pc_dcids p)) = old"
        "drop (pp (map (\<lambda>e. ce_seq e < rpt) (bd_inner (pc_dcids p)))) (bd_inner (pc_dcids p)) = keep"
      using partition_search.pp_sorted [OF pp, of ce_seq "bd_inner (pc_dcids p)" rpt] ord by (simp_all add: seqs_def)
    with True show ?thesis
      by (simp add: new_dcid_retire_def retire_drained_room [OF fin room(2)] max_def)
  next
    case False
    then have "old = []" "keep = bd_inner (pc_dcids p)" by (simp_all add: old_def keep_def low_def)
    with False show ?thesis by (simp add: new_dcid_retire_def max_def)
  qed
  have none: "find (\<lambda>e. ce_cid e = cid \<or> ce_seq e = seq) (bd_inner (pc_dcids p)) = None"
    using new by (auto simp: find_None_iff)
  have keep: "set keep \<subseteq> set (bd_inner (pc_dcids p))" by (auto simp: keep_def)
  then have "find (\<lambda>e. ce_seq e = seq) keep = None" using new by (fastforce simp: find_None_iff)
  then have ins: "Deque_insert ce_seq ?e (pc_dcids ?p1) = Inr ((pc_dcids p)\<lparr>bd_inner := keep @ [?e]\<rparr>)"
    using room(1) ok by (simp add: Deque_insert_def Deque_get_def path_ok_def)
  let ?p' = "?p1\<lparr>pc_dcids := (pc_dcids p)\<lparr>bd_inner := keep @ [?e]\<rparr>\<rparr>"
  have run: "path_new_dcid pp cid seq tok rpt (p, ret) = ((?p', ?ret), Inr ())"
    using init none seq ret ins by (simp add: path_new_dcid_def Let_def)
  have "sorted (seqs (pc_dcids ?p'))"
    using ord keep new by (fastforce simp: seqs_def keep_def sorted_append sorted_map sorted_wrt_filter)
  moreover have "path_ok dlim slim ?p'" using path_new_dcid_ok [OF ok run] by blast
  ultimately show ?thesis using run by (intro exI [of _ ?p']) simp
qed

text \<open>A path of the peer with two identifiers in order, the first of them in use.\<close>

definition sample_path :: "nat list \<Rightarrow> path_cids" where
  "sample_path qs =
     \<lparr>pc_path_id = 0,
      pc_dcids = \<lparr>bd_inner = map (\<lambda>q. \<lparr>ce_cid = [word_of_nat q], ce_seq = q, ce_reset_token = Some 7,
          ce_network_path = (if q = 0 then Some sample_addr else None)\<rparr>) qs, bd_capacity = 4\<rparr>,
      pc_scids = \<lparr>bd_inner = [\<lparr>ce_cid = [9], ce_seq = 0, ce_reset_token = None, ce_network_path = None\<rparr>],
          bd_capacity = 3\<rparr>,
      pc_retire_dcid_seqs = \<lparr>ss_inner = {}, ss_capacity = 12\<rparr>, pc_largest_peer_retire_prior_to = 0,
      pc_largest_destination_seq = 1, pc_next_scid_seq = 1, pc_retire_prior_to = 0,
      pc_source_conn_id_limit = 2, pc_closing = False, pc_initialized_dcid = True, pc_initialized_scid = True\<rparr>"

lemma sample_path_ok:
  "distinct qs \<Longrightarrow> qs \<noteq> [] \<Longrightarrow> length qs \<le> 4 \<Longrightarrow> path_ok 4 2 (sample_path qs)"
  by (auto simp: sample_path_def path_ok_def bd_ok_def ss_ok_def usable_def seqs_def comp_def)

theorem new_dcid_in_order_witness:
  "\<exists>p'. path_new_dcid slice_partition_point [3] 2 8 1 (sample_path [0, 1], []) = ((p', [(0, sample_addr)]), Inr ()) \<and>
     seqs (pc_dcids p') = [1, 2] \<and> ss_inner (pc_retire_dcid_seqs p') = {0}"
proof -
  have "\<exists>p'. path_new_dcid slice_partition_point [3] 2 8 1 (sample_path [0, 1], []) =
      ((p', [(0, sample_addr)]), Inr ()) \<and>
      bd_inner (pc_dcids p') = [\<lparr>ce_cid = [1], ce_seq = 1, ce_reset_token = Some 7, ce_network_path = None\<rparr>,
        \<lparr>ce_cid = [3], ce_seq = 2, ce_reset_token = Some 8, ce_network_path = None\<rparr>] \<and>
      ss_inner (pc_retire_dcid_seqs p') = {0}"
    using new_dcid_in_order [of slice_partition_point 4 2 "sample_path [0, 1]" "[3]" 2 1 8 "[]"]
      slice.partition_search_axioms sample_path_ok [of "[0, 1]"]
    by (auto simp: sample_path_def seqs_def)
  then show ?thesis by (auto simp: seqs_def)
qed

section \<open>Retirement out of order\<close>

text \<open>C24: The search for the identifiers to retire needs them in the order of their sequence
  numbers, but they are stored in the order of arrival. When two identifiers have arrived in the
  wrong order, no answer of the search is right: either the one that has to be retired stays in
  use or one that was not retired is lost.\<close>

theorem dcid_retired_out_of_order:
  assumes init: "pc_initialized_dcid p" and arr: "seqs (pc_dcids p) = [a, n, b]" and ord: "a < b" "b < n"
    and new: "n < seq" "pc_largest_peer_retire_prior_to p < n" "\<forall>e \<in> set (bd_inner (pc_dcids p)). ce_cid e \<noteq> cid"
    and run: "path_new_dcid pp cid seq tok n (p, ret) = ((p', ret'), r)"
  shows "b \<in> set (seqs (pc_dcids p')) \<or> n \<notin> set (seqs (pc_dcids p'))"
proof -
  let ?q = "p\<lparr>pc_largest_destination_seq := max (pc_largest_destination_seq p) seq\<rparr>"
  let ?e = "\<lparr>ce_cid = cid, ce_seq = seq, ce_reset_token = Some tok, ce_network_path = None\<rparr>"
  obtain x y z where xs: "bd_inner (pc_dcids p) = [x, y, z]" "ce_seq x = a" "ce_seq y = n" "ce_seq z = b"
    using arr by (auto simp: seqs_def map_eq_Cons_conv)
  let ?i = "pp (map (\<lambda>e. ce_seq e < n) (bd_inner (pc_dcids p)))"
  obtain s ret1 f where d: "retire_drained (take ?i (bd_inner (pc_dcids p))) (pc_retire_dcid_seqs p) ret = (s, ret1, f)"
    by (metis prod_cases3)
  let ?p1 = "?q\<lparr>pc_dcids := (pc_dcids p)\<lparr>bd_inner := drop ?i (bd_inner (pc_dcids p))\<rparr>, pc_retire_dcid_seqs := s,
      pc_largest_peer_retire_prior_to := n\<rparr>"
  have ret: "new_dcid_retire pp n (?q, ret) = ((?p1, ret1), f)"
    using d new(2) by (simp add: new_dcid_retire_def)
  have none: "find (\<lambda>e. ce_cid e = cid \<or> ce_seq e = seq) (bd_inner (pc_dcids p)) = None"
    using new(1,3) ord xs by (auto simp: find_None_iff)
  have "p' = ?p1 \<or> (\<exists>d. Deque_insert ce_seq ?e (pc_dcids ?p1) = Inr d \<and> p' = ?p1\<lparr>pc_dcids := d\<rparr>)"
    using run init none new(1,2) ret
    by (cases "Deque_insert ce_seq ?e (pc_dcids ?p1)") (auto simp: path_new_dcid_def Let_def)
  then have "seqs (pc_dcids p') = seqs (pc_dcids ?p1) \<or> seqs (pc_dcids p') = seqs (pc_dcids ?p1) @ [seq]"
    using Deque_insert_seqs [of ?e "pc_dcids ?p1"] by auto
  moreover have "seqs (pc_dcids ?p1) = drop ?i (seqs (pc_dcids p))" by (simp add: seqs_def drop_map)
  then have "seqs (pc_dcids ?p1) = drop ?i [a, n, b]" unfolding arr .
  moreover have "drop i [a, n, b] \<in> {[a, n, b], [n, b], [b], []}" for i
    by (cases i; cases "i - 1"; cases "i - 2") auto
  ultimately obtain ys where "ys \<in> {[a, n, b], [n, b], [b], []}" "seqs (pc_dcids p') = ys \<or> seqs (pc_dcids p') = ys @ [seq]"
    by metis
  then show ?thesis using new(1) ord by auto
qed

theorem dcid_retired_out_of_order_witness:
  "\<exists>p' ret' r. path_new_dcid slice_partition_point [3] 3 8 2 (sample_path [0, 2, 1], []) = ((p', ret'), r) \<and>
     (1 \<in> set (seqs (pc_dcids p')) \<or> 2 \<notin> set (seqs (pc_dcids p')))"
proof -
  obtain p' ret' r where run: "path_new_dcid slice_partition_point [3] 3 8 2 (sample_path [0, 2, 1], []) = ((p', ret'), r)"
    by (metis prod_cases3 surj_pair)
  with dcid_retired_out_of_order [OF _ _ _ _ _ _ _ run, of 0 1] show ?thesis
    by (auto simp: sample_path_def seqs_def)
qed

section \<open>The first identifiers of a path\<close>

lemma get_pcids_mark [simp]: "get_pcids j (mark_advertise_new_scid_seq i q b c) = get_pcids j c"
  by (simp add: mark_advertise_new_scid_seq_def get_pcids_def)

lemma get_put_pcids:
  assumes "get_pcids i c = Some p" "pc_path_id p' = i"
  shows "get_pcids i (put_pcids p' c) = Some p'"
  using assms find_modify_first [of pc_path_id i "\<lambda>_. p'" i "bd_inner (ci_pcids c)"]
  by (simp add: get_pcids_def put_pcids_def)

text \<open>A path whose space was opened by the peer.\<close>

lemma opened_by_peer:
  assumes g: "get_pcids i c = None" and n: "new_dcid pp i cid seq tok rpt (c, ret) = ((c1, ret1), Inr ())"
  obtains p where "get_pcids i c1 = Some p" "pc_path_id p = i" "pc_initialized_dcid p" "\<not> pc_initialized_scid p"
    "pc_next_scid_seq p = 0" "2 \<le> pc_source_conn_id_limit p"
    "bd_inner (pc_dcids p) = [\<lparr>ce_cid = cid, ce_seq = 0, ce_reset_token = None, ce_network_path = None\<rparr>]"
    "ci_zero_length_dcid c1 = ci_zero_length_dcid c" "\<not> ci_zero_length_dcid c" "ret1 = ret"
proof -
  obtain p d where p: "new_with_path_id i (ci_destination_conn_id_limit c) (ci_source_conn_id_limit c)
        None (Some cid) None (Some tok) = Inr p"
      and d: "Deque_insert pc_path_id p (ci_pcids c) = Inr d"
      and c1: "ci_pcids c1 = d" "ci_zero_length_dcid c1 = ci_zero_length_dcid c" "\<not> ci_zero_length_dcid c" "ret1 = ret"
    using n g by (auto simp: new_dcid_def new_path_space_def st_try_def split: if_splits sum.splits)
  have f: "pc_path_id p = i" "pc_initialized_dcid p" "\<not> pc_initialized_scid p" "pc_next_scid_seq p = 0"
      "2 \<le> pc_source_conn_id_limit p"
      "bd_inner (pc_dcids p) = [\<lparr>ce_cid = cid, ce_seq = 0, ce_reset_token = None, ce_network_path = None\<rparr>]"
    using p by (auto simp: new_with_path_id_def Let_def opt_and_def Deque_new_def split: if_splits)
  have "bd_inner d = bd_inner (ci_pcids c) @ [p]"
    using d g f(1) by (auto simp: Deque_insert_def get_pcids_eq split: if_splits)
  then have "get_pcids i c1 = Some p" using g f(1) c1 by (simp add: get_pcids_def find_snoc)
  then show ?thesis using that f c1 by blast
qed

text \<open>C23: The reset token of the identifier that opens a path is lost, because the variable that
  holds it is shadowed. When the frame that opened the path arrives a second time, as after a
  spurious retransmission, the identifier no longer matches its own record and the frame is
  refused as invalid, which closes the connection.\<close>

theorem path_cid_repeated_rejected:
  assumes "get_pcids i c = None" "new_dcid pp i cid seq tok rpt (c, ret) = ((c1, ret1), Inr ())"
  shows "snd (new_dcid pp i cid seq tok rpt (c1, ret1)) = err InvalidFrame"
proof -
  obtain p where p: "get_pcids i c1 = Some p" "pc_initialized_dcid p"
      "bd_inner (pc_dcids p) = [\<lparr>ce_cid = cid, ce_seq = 0, ce_reset_token = None, ce_network_path = None\<rparr>]"
      "ci_zero_length_dcid c1 = ci_zero_length_dcid c" "\<not> ci_zero_length_dcid c"
    by (rule opened_by_peer [OF assms]) 
  then show ?thesis by (simp add: new_dcid_def path_new_dcid_def)
qed

lemma sample_open_path:
  "\<exists>c0 c1 c2 c3. ConnIds_new 2 [1] sample_addr None = Inr c0 \<and> set_local_max_path_id 1 False c0 = Inr c1 \<and>
     set_remote_max_path_id 1 c1 = Inr c2 \<and> get_pcids 1 c2 = None \<and>
     new_dcid pp 1 [4] 0 7 0 (c2, []) = ((c3, []), Inr ())"
  by (simp add: cid_eval set_local_max_path_id_def set_remote_max_path_id_def maybe_resize_pcids_def new_dcid_def
      Deque_resize_def)

theorem path_cid_repeated_rejected_witness:
  "\<exists>c c1. new_dcid slice_partition_point 1 [4] 0 7 0 (c, []) = ((c1, []), Inr ()) \<and>
     snd (new_dcid slice_partition_point 1 [4] 0 7 0 (c1, [])) = err InvalidFrame"
proof -
  obtain c2 c3 where "get_pcids 1 c2 = None" "new_dcid slice_partition_point 1 [4] 0 7 0 (c2, []) = ((c3, []), Inr ())"
    using sample_open_path by blast
  with path_cid_repeated_rejected [OF this] show ?thesis by blast
qed

text \<open>C22: On a path that was opened by the peer the first two source identifiers get the same
  sequence number, because setting the initial one does not advance the counter: the second
  replaces the first, which the peer may already use and which is not recognised any more.\<close>

theorem scid_sequence_reused:
  assumes g: "get_pcids i c = None" and n: "new_dcid pp i cid seq tok rpt (c, ret) = ((c1, ret1), Inr ())"
    and s1: "new_scid i cid1 (Some t1) av1 nw1 b1 c1 = (c2, Inr q1)"
    and s2: "new_scid i cid2 (Some t2) av2 nw2 b2 c2 = (c3, Inr q2)" and neq: "cid1 \<noteq> cid2"
  shows "q1 = 0 \<and> q2 = 0 \<and> (\<exists>p. get_pcids i c3 = Some p \<and> map ce_cid (bd_inner (pc_scids p)) = [cid2])"
proof -
  obtain p where p: "get_pcids i c1 = Some p" "pc_path_id p = i" "\<not> pc_initialized_scid p" "pc_next_scid_seq p = 0"
      "2 \<le> pc_source_conn_id_limit p"
    by (rule opened_by_peer [OF g n])
  let ?p1 = "path_set_initial_scid cid1 (Some t1) nw1 p"
  have p1: "q1 = 0" "get_pcids i c2 = Some ?p1"
    using s1 p get_put_pcids [OF p(1), of ?p1]
    by (auto simp: new_scid_def path_new_scid_def path_set_initial_scid_def split: if_splits)
  have f1: "bd_inner (pc_scids ?p1) = [\<lparr>ce_cid = cid1, ce_seq = 0, ce_reset_token = Some t1, ce_network_path = nw1\<rparr>]"
    "pc_initialized_scid ?p1" "pc_next_scid_seq ?p1 = 0" "pc_path_id ?p1 = i" "2 \<le> pc_source_conn_id_limit ?p1"
    using p by (simp_all add: path_set_initial_scid_def Deque_clear_and_insert_def)
  let ?e = "\<lparr>ce_cid = cid2, ce_seq = 0, ce_reset_token = Some t2, ce_network_path = nw2\<rparr>"
  let ?p2 = "?p1\<lparr>pc_scids := (pc_scids ?p1)\<lparr>bd_inner := [?e]\<rparr>, pc_next_scid_seq := 1\<rparr>"
  have run: "path_new_scid cid2 (Some t2) nw2 b2 ?p1 = (?p2, Inr (True, 0))"
    using f1 neq by (simp add: path_new_scid_def new_scid_room_def Deque_insert_def Deque_get_def)
  have "q2 = 0" "get_pcids i c3 = Some ?p2"
    using s2 p1(2) run get_put_pcids [OF p1(2), of ?p2] f1(4) by (auto simp: new_scid_def split: if_splits)
  then show ?thesis using p1(1) by simp
qed

lemma sample_reuse_ops:
  "\<exists>c0 c1 c c2 c3 c4. ConnIds_new 2 [1] sample_addr None = Inr c0 \<and> set_local_max_path_id 1 False c0 = Inr c1 \<and>
     set_remote_max_path_id 1 c1 = Inr c \<and> get_pcids 1 c = None \<and>
     new_dcid slice_partition_point 1 [4] 0 7 0 (c, []) = ((c2, []), Inr ()) \<and>
     new_scid 1 [5] (Some 8) True None False c2 = (c3, Inr 0) \<and>
     new_scid 1 [6] (Some 9) True None False c3 = (c4, Inr 0)"
  by (simp add: cid_eval set_local_max_path_id_def set_remote_max_path_id_def maybe_resize_pcids_def new_dcid_def
      Deque_resize_def path_set_initial_scid_def Deque_clear_and_insert_def)

theorem scid_sequence_reused_witness:
  "\<exists>c c1 c2 c3 p. new_dcid slice_partition_point 1 [4] 0 7 0 (c, []) = ((c1, []), Inr ()) \<and>
     new_scid 1 [5] (Some 8) True None False c1 = (c2, Inr 0) \<and>
     new_scid 1 [6] (Some 9) True None False c2 = (c3, Inr 0) \<and>
     get_pcids 1 c3 = Some p \<and> map ce_cid (bd_inner (pc_scids p)) = [[6]]"
proof -
  obtain c c1 c2 c3 where c: "get_pcids 1 c = None"
      "new_dcid slice_partition_point 1 [4] 0 7 0 (c, []) = ((c1, []), Inr ())"
      "new_scid 1 [5] (Some 8) True None False c1 = (c2, Inr 0)" "new_scid 1 [6] (Some 9) True None False c2 = (c3, Inr 0)"
    using sample_reuse_ops by blast
  moreover from scid_sequence_reused [OF this] obtain p
    where "get_pcids 1 c3 = Some p" "map ce_cid (bd_inner (pc_scids p)) = [[6]]" by auto
  ultimately show ?thesis
    by (intro exI [where x = c] exI [where x = c1] exI [where x = c2] exI [where x = c3] exI [where x = p]) simp
qed

section \<open>Stale advertisements\<close>

text \<open>C21: When the peer retires an identifier and the packet that advertised it is declared lost
  afterwards, the identifier is queued for advertisement again although it is gone; from then on
  every attempt to assemble a packet with NEW_CONNECTION_ID frames fails, so the connection
  cannot send any more.\<close>

theorem stale_advertisement:
  assumes ok: "conn_ok c" and ret: "retire_scid i seq pkt c = (c', Inr x)"
    and g: "get_pcids i c = Some p" "Deque_get ce_seq seq (pc_scids p) \<noteq> None" "1 < length (bd_inner (pc_scids p))"
    and adv: "ci_advertise_new_scid_seqs c = []"
  shows "send_new_connection_ids (mark_advertise_new_scid_seq i seq True c') pkt_b = err InvalidState"
proof -
  obtain p' r where p': "path_retire_scid seq pkt p = (p', r)" by fastforce
  have pok: "bd_ok ce_seq (pc_scids p)" "pc_path_id p = i"
    using get_pcidsD [OF ok g(1)] by (auto simp: path_ok_def)
  obtain d where d: "Deque_remove ce_seq seq (pc_closing p) (pc_scids p) = Inr (d, Deque_get ce_seq seq (pc_scids p))"
      "Deque_get ce_seq seq d = None"
    using cids.rem_more [OF pok(1) g(3), of seq "pc_closing p"] by auto
  have gone: "Deque_get ce_seq seq (pc_scids p') = None" "pc_path_id p' = i" if "r = Inr y" for y
    using p' d g(2) pok(2) that
    by (auto simp: path_retire_scid_def Let_def split: if_splits sum.splits option.splits)
  obtain y where y: "r = Inr y" using ret g(1) p' by (cases r) (auto simp: retire_scid_def split: option.splits)
  have c': "get_pcids i c' = Some p'" "ci_advertise_new_scid_seqs c' = []"
    using ret g(1) p' y gone [OF y] adv get_put_pcids [OF g(1), of p']
    by (auto simp: retire_scid_def get_pcids_def put_pcids_def split: option.splits)
  then show ?thesis
    using gone [OF y]
    by (subst send_new_connection_ids.simps)
      (simp add: next_advertise_new_scid_seq_def mark_advertise_new_scid_seq_def
        get_path_connection_id_frame_for_def ok_or_def get_pcids_def)
qed

definition sample_pkt :: pkt_build where
  "sample_pkt = \<lparr>pk_b = \<lparr>buf = [], off = 0\<rparr>, pk_frames = [], pk_left = 0, pk_ack_eliciting = False,
     pk_in_flight = False, pk_has_data = False\<rparr>"

lemma sample_stale_ops:
  "\<exists>c0 c1 c2 p. ConnIds_new 2 [1] sample_addr None = Inr c0 \<and> new_scid 0 [2] (Some 5) False None False c0 = (c1, Inr 1) \<and>
     get_pcids 0 c1 = Some p \<and> Deque_get ce_seq 1 (pc_scids p) \<noteq> None \<and> 1 < length (bd_inner (pc_scids p)) \<and>
     ci_advertise_new_scid_seqs c1 = [] \<and> retire_scid 0 1 [1] c1 = (c2, Inr None)"
  by (simp add: cid_eval retire_scid_def path_retire_scid_def Deque_remove_def)

theorem stale_advertisement_witness:
  "\<exists>c c'. conn_ok c \<and> retire_scid 0 1 [1] c = (c', Inr None) \<and>
     send_new_connection_ids (mark_advertise_new_scid_seq 0 1 True c') sample_pkt = err InvalidState"
proof -
  obtain c0 c1 c2 p where c: "ConnIds_new 2 [1] sample_addr None = Inr c0"
      "new_scid 0 [2] (Some 5) False None False c0 = (c1, Inr 1)" "get_pcids 0 c1 = Some p"
      "Deque_get ce_seq 1 (pc_scids p) \<noteq> None" "1 < length (bd_inner (pc_scids p))"
      "ci_advertise_new_scid_seqs c1 = []" "retire_scid 0 1 [1] c1 = (c2, Inr None)"
    using sample_stale_ops by blast
  have "conn_ok c1" by (rule conn_ok_new_scid [OF conn_ok_start [OF c(1)] c(2)])
  from stale_advertisement [OF this c(7,3,4,5,6)] this c(7) show ?thesis by blast
qed

section \<open>The loop that retires identifiers\<close>

definition pending_retirements :: "conn_ids \<Rightarrow> nat" where
  "pending_retirements c = sum_list (map (\<lambda>p. card (ss_inner (pc_retire_dcid_seqs p))) (bd_inner (ci_pcids c)))"

lemma sum_list_modify_first:
  fixes f :: "'a \<Rightarrow> nat"
  assumes "find P xs = Some x" "f y < f x"
  shows "sum_list (map f (modify_first P (\<lambda>_. y) xs)) < sum_list (map f xs)"
  using assms by (induction xs) (auto split: if_splits)

lemma find_map_Some: "find_map f xs = Some y \<Longrightarrow> \<exists>x \<in> set xs. f x = Some y"
  by (induction xs) (auto split: option.splits)

lemma find_distinct:
  "distinct (map idf xs) \<Longrightarrow> x \<in> set xs \<Longrightarrow> idf x = i \<Longrightarrow> find (\<lambda>y. idf y = i) xs = Some x"
  by (induction xs) auto

lemma next_retireD:
  assumes ok: "conn_ok c" and pick: "\<forall>s. s \<noteq> {} \<longrightarrow> pick s \<in> s" and n: "next_retire_dcid_seq pick c = Some (i, q)"
  obtains p where "get_pcids i c = Some p" "q \<in> ss_inner (pc_retire_dcid_seqs p)"
proof -
  obtain p where p: "p \<in> set (bd_inner (ci_pcids c))" "pc_path_id p = i"
      "SeqSet_front pick (pc_retire_dcid_seqs p) = Some q"
    using find_map_Some [OF n [unfolded next_retire_dcid_seq_def]] by auto
  moreover have "distinct (map pc_path_id (bd_inner (ci_pcids c)))" using ok by (simp add: conn_ok_def bd_ok_def)
  then have "get_pcids i c = Some p"
    unfolding get_pcids_def using p(1,2) by (intro find_distinct) auto
  ultimately show ?thesis using that pick by (auto simp: SeqSet_front_def split: if_splits)
qed

lemma mark_retire_less:
  assumes ok: "conn_ok c" and g: "get_pcids i c = Some p" "q \<in> ss_inner (pc_retire_dcid_seqs p)"
  obtains c' where "mark_retire_dcid_seq i q False c = Inr c'" "pending_retirements c' < pending_retirements c" "conn_ok c'"
proof -
  let ?p = "p\<lparr>pc_retire_dcid_seqs := SeqSet_remove q (pc_retire_dcid_seqs p)\<rparr>"
  have m: "mark_retire_dcid_seq i q False c = Inr (put_pcids ?p c)"
    using g(1) by (simp add: mark_retire_dcid_seq_def ok_or_def path_mark_retire_dcid_seq_def)
  have p: "finite (ss_inner (pc_retire_dcid_seqs p))" "pc_path_id p = i"
    using get_pcidsD [OF ok g(1)] by (auto simp: path_ok_def ss_ok_def)
  have "ss_inner (pc_retire_dcid_seqs ?p) = ss_inner (pc_retire_dcid_seqs p) - {q}" by (simp add: SeqSet_remove_def)
  then have "card (ss_inner (pc_retire_dcid_seqs ?p)) < card (ss_inner (pc_retire_dcid_seqs p))"
    using card_Diff1_less [OF p(1) g(2)] by metis
  then have "pending_retirements (put_pcids ?p c) < pending_retirements c"
    using sum_list_modify_first [of "\<lambda>x. pc_path_id x = i" "bd_inner (ci_pcids c)" p
        "\<lambda>p. card (ss_inner (pc_retire_dcid_seqs p))" ?p] g(1) p(2)
    by (simp add: pending_retirements_def put_pcids_def get_pcids_def)
  then show ?thesis using that m conn_ok_mark_retire [OF ok m] by blast
qed

text \<open>C25: The loop that puts RETIRE_CONNECTION_ID frames in a packet always returns, whatever the
  order in which the set of retired identifiers is visited.\<close>

theorem send_retire_returns:
  assumes "cid_run pp c" "\<forall>s. s \<noteq> {} \<longrightarrow> pick s \<in> s"
  shows "\<exists>r. send_retire_connection_ids pick space_id active c b = Some r"
proof -
  have "\<exists>r. send_retire_connection_ids pick space_id active c b = Some r" if "conn_ok c" for c b
    using that
  proof (induction c arbitrary: b rule: measure_induct_rule [where f = pending_retirements])
    case (less c)
    note unf = send_retire_connection_ids.simps [of pick space_id active c b]
    show ?case
    proof (cases "next_retire_dcid_seq pick c")
      case None
      then show ?thesis by (subst unf) simp
    next
      case (Some iq)
      obtain i q where iq: "iq = (i, q)" by fastforce
      obtain p where p: "get_pcids i c = Some p" "q \<in> ss_inner (pc_retire_dcid_seqs p)"
        using next_retireD [OF less.prems assms(2) Some [unfolded iq]] by blast
      obtain c' where c': "mark_retire_dcid_seq i q False c = Inr c'" "pending_retirements c' < pending_retirements c"
          "conn_ok c'"
        by (rule mark_retire_less [OF less.prems p])
      show ?thesis
        using Some iq c'(1) less.IH [OF c'(2,3)]
        by (subst unf) (auto split: option.splits sum.splits)
    qed
  qed
  then show ?thesis using cid_run_ok [OF assms(1)] by blast
qed

theorem send_retire_returns_witness:
  "\<exists>c r. cid_run (\<lambda>_. 0) c \<and> send_retire_connection_ids Inf 0 (Some 0) c sample_pkt = Some r"
proof -
  obtain c0 where "ConnIds_new 2 [1] sample_addr None = Inr c0" using sample_cid_ops by blast
  then have run: "cid_run (\<lambda>_. 0) c0" by (rule cr_start)
  from send_retire_returns [OF run, of Inf] show ?thesis using run by (blast intro: Inf_nat_def1)
qed

end
