(* ===== verification/Spec2Isabelle.thy ===== *)
theory Spec2Isabelle
  imports Ordered_Map Octets Codec Ranges Range_Buf Flow_Control Dgram_Queue Rtt Packet Frame
    Frame_Codec Payload Fc_Ack Fc_Congestion Fc_State
    Fc_Send Fc_Join Recv_Rotation Stream_Transfer Cid_Props
begin

text \<open>
  A verification library for flexicast-quic, the quiche implementation of QUIC with the multipath
  and flexicast extensions: one source sends packets on a flexicast channel to many receivers,
  each of which also has a unicast connection to a server for control and retransmissions.

  \<^bold>\<open>Conventions.\<close> Unsigned 64-bit values (\<open>u64\<close>, and \<open>usize\<close> on a 64-bit target) are natural
  numbers; every addition, subtraction, slice, index, \<open>unwrap\<close> and assertion of the source that
  can fail is a branch \<open>Panic\<close> of the model, so that a theorem that excludes \<open>Panic\<close> also
  excludes wrap-around in a build without overflow checks. \<open>Result<T>\<close> is \<open>'a result\<close>
  (\<open>Inl (Err e)\<close>, \<open>Inl Panic\<close>, \<open>Inr x\<close>) and \<open>?\<close> is \<open>try_bind\<close>. Bytes are \<open>8 word\<close>. Instants and
  durations are nanoseconds. Mutable references are explicit state passing; a \<open>BTreeMap\<close> is a
  sorted association list (\<open>Ordered_Map\<close>).

  \<^bold>\<open>The parts, from the bytes up.\<close>

  \<^item> \<open>Prelude\<close>: errors, roles, results, machine integers.
  \<^item> \<open>Ordered_Map\<close>: the interface \<open>ordered_map\<close> of a \<open>BTreeMap\<close> and its interpretation.
  \<^item> \<open>Octets\<close> (\<open>octets/src/lib.rs\<close>): the byte buffer with its cursor, integers in network order,
    variable-length integers. What \<open>put_varint\<close> writes, \<open>get_varint\<close> reads.
  \<^item> \<open>Codec\<close>: reasoning about parsers and writers (\<open>reads\<close>, \<open>emits\<close>), and the interface
    \<open>wire_format\<close>, interpreted on variable-length integers and on frames.
  \<^item> \<open>Ranges\<close> (\<open>ranges.rs\<close>): sets of packet numbers and offsets, in both representations, as an
    interpretation of \<open>range_store\<close>: insertion adds exactly the values, forgets only at capacity,
    and is canonical.
  \<^item> \<open>Range_Buf\<close>, \<open>Recv_Buf\<close>, \<open>Recv_Reassembly\<close>, \<open>Recv_Rotation\<close>, \<open>Send_Buf\<close>, \<open>Send_Correct\<close>,
    \<open>Stream_Transfer\<close> (\<open>stream/mod.rs\<close>, \<open>stream/recv_buf.rs\<close>, \<open>stream/send_buf.rs\<close>, \<open>stream/flexicast.rs\<close>): the two
    sides of a stream. The receive side is specified by a function from offsets to bytes:
    whatever the order, overlaps and repetitions of the buffers, it delivers the stream in order,
    and with stream rotation the stream from the starting offset to the end and then the
    beginning. The cases where the rotation fails are stated as properties too. The send side
    forgets no byte, whatever is acknowledged or lost. \<open>Stream_Transfer\<close> joins both sides by a
    network and shows that the receiver accepts all the sender sends and delivers the stream.
  \<^item> \<open>Cid\<close>, \<open>Cid_Correct\<close>, \<open>Cid_Props\<close> (\<open>cid.rs\<close>, and the loops of \<open>lib.rs\<close> that announce and
    retire): the bounded collections (interface \<open>bounded_map\<close>), the source and destination
    identifiers of a path, the identifiers of a multipath connection. No operation lets a
    collection exceed its capacity or repeats a sequence number, for every sequence of operations;
    identifiers that arrive in order are all kept. Because \<open>retire_prior_to\<close> searches an unsorted
    collection by bisection (interface \<open>partition_search\<close>), identifiers that arrive out of order
    can be retired although they are valid: this and the other deviations are properties too.
  \<^item> \<open>Flow_Control\<close> (\<open>flowcontrol.rs\<close>), \<open>Dgram_Queue\<close> (\<open>dgram.rs\<close>, the interface
    \<open>bounded_fifo\<close>), \<open>Rtt\<close> (\<open>minmax.rs\<close>, \<open>recovery/rtt.rs\<close>, \<open>pmtud.rs\<close>): limits, queues, estimates.
  \<^item> \<open>Packet\<close> (\<open>packet.rs\<close>): headers, header protection over an abstract cipher, truncation and
    recovery of packet numbers, the window that detects duplicates.
  \<^item> \<open>Frame\<close>, \<open>Frame_Codec\<close> (\<open>frame.rs\<close>): every frame with its parser, its writer and its predicted
    length; parsing inverts writing, and never panics outside MC_ANNOUNCE.
  \<^item> \<open>Payload\<close> (\<open>lib.rs\<close>, \<open>recv_single\<close>): the loop over the frames of a packet, with the frame
    handler as a parameter.
  \<^item> \<open>Fc_Ack\<close> (\<open>flexicast/ack.rs\<close>): aggregation of the acknowledgments of all receivers at the
    source, per packet and per stream range, as a run relation over joins, acknowledgments and
    reports.
  \<^item> \<open>Fc_Congestion\<close> (\<open>flexicast/congestion\<close>): the sliding maximum, the pacing of the congestion
    information, the choice of a channel by distance.
  \<^item> \<open>Fc_State\<close> (\<open>flexicast/mod.rs\<close>, \<open>reliable.rs\<close>, \<open>control.rs\<close>, the handlers in \<open>lib.rs\<close>): the
    flexicast attributes of a connection, the status machine \<open>update_client_state\<close>, keys, and
    what a received, acknowledged or lost control frame does.
  \<^item> \<open>Fc_Send\<close> (\<open>lib.rs\<close>, \<open>send_single\<close>): the part that writes the control frames. The loop over
    the announcements is a partial function (\<open>None\<close> is a call that never returns): it is shown
    to return when everything fits, and not to return when the first announcement does not.
  \<^item> \<open>Fc_Join\<close>: a receiver and its server as a two-party system over a network that delays,
    reorders, repeats and loses control frames; both ends run the functions of \<open>Fc_State\<close> and
    \<open>Fc_Send\<close>.

  \<^bold>\<open>Bounds and termination.\<close> Recursive loops of the source are total functions with a measure:
  the payload loop consumes bytes, the queue of the receive buffer decreases in the multiset order
  of the lengths of its buffers, the loops of the acknowledgment counters shrink their ranges. No
  fuel is used. Where a loop of the source need not end, the model is a partial function.

  \<^bold>\<open>Not modelled.\<close> The TLS and cryptography bindings (foreign code; ciphers and key derivation are
  parameters), the C API, sockets and randomness, HTTP/3 and QPACK (an application protocol that
  the extension does not touch), the statistics and the bandit of the congestion module (floating
  point), \<open>flexicast/multi_channel.rs\<close> (no \<open>mod\<close> declaration includes it), and so far the rest of
  the connection: handshake, packet assembly, loss recovery, path management, the
  stream map.
\<close>

end
